(* ===== verification/Prelude.thy ===== *)
theory Prelude
  imports Main "HOL-Library.Word"
begin

text \<open>
  Shared vocabulary of the development: machine-integer names, the outcome of a kernel
  routine (a value, a panic, a process switched away, a processor spinning, a loop that never
  ends), sequencing of routines over an explicit state, the rule set \<open>wp\<close> for running
  routines forward, running a routine on a part of a larger state, and the facts on lists,
  prefixes and bytes that several components use.
\<close>

section \<open>Machine integers and constants\<close>

type_synonym u8 = "8 word"
type_synonym u16 = "16 word"
type_synonym u32 = "32 word"

type_synonym bytes = "u8 list"

text \<open>A word read as a C \<open>int\<close>.\<close>

lemma sint_u32: "sint (x :: u32) = (if uint x < 2 ^ 31 then uint x else uint x - 2 ^ 32)"
proof -
  have "sint x = (uint x + 2 ^ 31) mod 2 ^ 32 - 2 ^ 31"
    using int_word_sint [of "uint x", where 'a = 32] by simp
  moreover have x: "0 \<le> uint x" "uint x < 2 ^ 32"
    using uint_lt2p [of x] by simp_all
  moreover have "(uint x + 2 ^ 31) mod 2 ^ 32 = (if uint x < 2 ^ 31 then uint x + 2 ^ 31 else uint x - 2 ^ 31)"
  proof (cases "uint x < 2 ^ 31")
    case True
    then show ?thesis using x by (simp add: mod_pos_pos_trivial)
  next
    case False
    then show ?thesis
      using x minus_mod_self2 [of "uint x + 2 ^ 31" "2 ^ 32", symmetric] by (simp add: mod_pos_pos_trivial)
  qed
  ultimately show ?thesis by simp
qed

lemma uint_uminus_u32: "(x :: u32) \<noteq> 0 \<Longrightarrow> uint (- x) = 2 ^ 32 - uint x"
proof -
  assume "x \<noteq> 0"
  then have "uint x \<noteq> 0" by (simp add: unsigned_eq_0_iff)
  then have "0 < uint x" using uint_ge_0 [of x] by linarith
  moreover have "uint x < 2 ^ 32" using uint_lt2p [of x] by simp
  moreover have "uint (- x) = (- uint x) mod 2 ^ 32" by (simp add: uint_word_ariths)
  ultimately show ?thesis by (simp add: zmod_zminus1_eq_if)
qed

section \<open>Outcomes of kernel routines\<close>

text \<open>
  \<open>Ret x s\<close>: the routine returns \<open>x\<close> in state \<open>s\<close>.
  \<open>Panic m\<close>: it called \<open>panic(m)\<close>, which never returns.
  \<open>Asleep s\<close>: the process gave up the processor in state \<open>s\<close> (\<open>swtch\<close> inside
  \<open>sched\<close>); a routine that waits in a loop tests its condition again when it is resumed.
  \<open>Spin s\<close>: the processor spins on a lock another processor holds.
  \<open>Diverge\<close>: a loop of the source that does not end.
\<close>

datatype ('a, 's) outcome =
    Ret 'a 's
  | Panic string
  | Asleep 's
  | Spin 's
  | Diverge

definition bindR :: "('a, 's) outcome \<Rightarrow> ('a \<Rightarrow> 's \<Rightarrow> ('b, 's) outcome) \<Rightarrow> ('b, 's) outcome" where
  "bindR m f = (case m of
       Ret x s \<Rightarrow> f x s
     | Panic e \<Rightarrow> Panic e
     | Asleep s \<Rightarrow> Asleep s
     | Spin s \<Rightarrow> Spin s
     | Diverge \<Rightarrow> Diverge)"

text \<open>\<open>zoom get put f\<close> runs \<open>f\<close> on the part of the state that \<open>get\<close> selects.\<close>

definition zoom :: "('s \<Rightarrow> 't) \<Rightarrow> ('t \<Rightarrow> 's \<Rightarrow> 's) \<Rightarrow> ('t \<Rightarrow> ('a, 't) outcome) \<Rightarrow> 's \<Rightarrow> ('a, 's) outcome" where
  "zoom get put f s = (case f (get s) of
       Ret x t \<Rightarrow> Ret x (put t s)
     | Panic e \<Rightarrow> Panic e
     | Asleep t \<Rightarrow> Asleep (put t s)
     | Spin t \<Rightarrow> Spin (put t s)
     | Diverge \<Rightarrow> Diverge)"

text \<open>A loop whose body is run once for each element of a list, in order.\<close>

fun foreach :: "('i \<Rightarrow> 's \<Rightarrow> (unit, 's) outcome) \<Rightarrow> 'i list \<Rightarrow> 's \<Rightarrow> (unit, 's) outcome" where
  "foreach f [] s = Ret () s"
| "foreach f (x # xs) s = bindR (f x s) (\<lambda>_. foreach f xs)"

text \<open>\<open>wp m Q\<close>: the routine returns, and value and state satisfy \<open>Q\<close>.\<close>

definition wp :: "('a, 's) outcome \<Rightarrow> ('a \<Rightarrow> 's \<Rightarrow> bool) \<Rightarrow> bool" where
  "wp m Q \<longleftrightarrow> (case m of Ret x s \<Rightarrow> Q x s | _ \<Rightarrow> False)"

text \<open>The states a routine can leave behind: it returned, gave up the processor, or spins.\<close>

definition final_states :: "('a, 's) outcome \<Rightarrow> 's list" where
  "final_states m = (case m of Ret x s \<Rightarrow> [s] | Asleep s \<Rightarrow> [s] | Spin s \<Rightarrow> [s] | _ \<Rightarrow> [])"

section \<open>Laws of sequencing\<close>

lemma bindR_simps [simp]:
  "bindR (Ret x s) f = f x s"
  "bindR (Panic e) f = Panic e"
  "bindR (Asleep s) f = Asleep s"
  "bindR (Spin s) f = Spin s"
  "bindR Diverge f = Diverge"
  by (simp_all add: bindR_def)

lemma bindR_eq_Ret [simp]:
  "bindR m f = Ret y t \<longleftrightarrow> (\<exists>x s. m = Ret x s \<and> f x s = Ret y t)"
  by (cases m) simp_all

lemma bindR_assoc: "bindR (bindR m f) g = bindR m (\<lambda>x s. bindR (f x s) g)"
  by (cases m) simp_all

lemma zoom_Ret [simp]:
  "zoom g p f s = Ret x s' \<longleftrightarrow> (\<exists>t. f (g s) = Ret x t \<and> s' = p t s)"
  by (auto simp: zoom_def split: outcome.splits)

lemma wp_simps [simp]:
  "wp (Ret x s) Q \<longleftrightarrow> Q x s"
  "wp (Panic e) Q \<longleftrightarrow> False"
  "wp (Asleep s) Q \<longleftrightarrow> False"
  "wp (Spin s) Q \<longleftrightarrow> False"
  "wp Diverge Q \<longleftrightarrow> False"
  by (simp_all add: wp_def)

lemma wp_bindR [simp]: "wp (bindR m f) Q \<longleftrightarrow> wp m (\<lambda>x s. wp (f x s) Q)"
  by (cases m) simp_all

lemma wp_zoom [simp]: "wp (zoom g p f s) Q \<longleftrightarrow> wp (f (g s)) (\<lambda>x t. Q x (p t s))"
  by (cases "f (g s)") (simp_all add: zoom_def)

lemma wp_if [simp]: "wp (if b then m else n) Q \<longleftrightarrow> (if b then wp m Q else wp n Q)"
  by simp

lemma wp_mono: "wp m P \<Longrightarrow> (\<And>x s. P x s \<Longrightarrow> Q x s) \<Longrightarrow> wp m Q"
  by (cases m) simp_all

lemma wp_iff: "wp m Q \<longleftrightarrow> (\<exists>x s. m = Ret x s \<and> Q x s)"
  by (cases m) simp_all

lemma wp_conj: "wp m P \<Longrightarrow> wp m Q \<Longrightarrow> wp m (\<lambda>x s. P x s \<and> Q x s)"
  by (cases m) simp_all

lemma wp_conj_iff: "wp m (\<lambda>x s. P x s \<and> Q x s) \<longleftrightarrow> wp m P \<and> wp m Q"
  by (cases m) simp_all

lemma wp_RetD: "wp m Q \<Longrightarrow> m = Ret x s \<Longrightarrow> Q x s"
  by simp

lemma wpE: "wp m Q \<Longrightarrow> (\<And>x s. m = Ret x s \<Longrightarrow> Q x s \<Longrightarrow> R) \<Longrightarrow> R"
  by (auto simp: wp_iff)

text \<open>The invariant rule of a counted loop: the invariant is indexed by what is done.\<close>

lemma wp_foreach:
  assumes "I [] s"
    and "\<And>done x rest t. xs = done @ x # rest \<Longrightarrow> I done t \<Longrightarrow> wp (f x t) (\<lambda>_. I (done @ [x]))"
  shows "wp (foreach f xs s) (\<lambda>_. I xs)"
proof -
  have "\<And>done. xs = done @ ys \<Longrightarrow> I done t \<Longrightarrow> wp (foreach f ys t) (\<lambda>_. I xs)" for ys t
  proof (induction ys arbitrary: t)
    case Nil
    then show ?case by simp
  next
    case (Cons y ys)
    have "wp (f y t) (\<lambda>_. I (done @ [y]))"
      using Cons.prems by (rule assms(2))
    moreover have "wp (foreach f ys u) (\<lambda>_. I xs)" if "I (done @ [y]) u" for u
      using Cons.prems(1) that by (intro Cons.IH [of "done @ [y]"]) simp_all
    ultimately show ?case
      by (auto elim: wp_mono)
  qed
  from this [of "[]" xs s] show ?thesis using assms(1) by simp
qed

lemma foreach_append:
  "foreach f (xs @ ys) s = bindR (foreach f xs s) (\<lambda>_. foreach f ys)"
  by (induction xs arbitrary: s) (auto simp: bindR_def split: outcome.split)

section \<open>Reachable states of a step relation\<close>

inductive reachable :: "('s \<Rightarrow> bool) \<Rightarrow> ('s \<Rightarrow> 's \<Rightarrow> bool) \<Rightarrow> 's \<Rightarrow> bool" for init step where
  start: "init s \<Longrightarrow> reachable init step s"
| move: "reachable init step s \<Longrightarrow> step s t \<Longrightarrow> reachable init step t"

lemma reachable_invariant:
  assumes "reachable init step s"
    and "\<And>s. init s \<Longrightarrow> P s"
    and "\<And>s t. reachable init step s \<Longrightarrow> P s \<Longrightarrow> step s t \<Longrightarrow> P t"
  shows "P s"
  using assms(1) by (induction rule: reachable.induct) (auto intro: assms(2,3))

section \<open>Lists\<close>

lemma nth_list_update_cases:
  "xs[i := v] ! j = (if i = j \<and> j < length xs then v else xs ! j)"
  by (cases "i < length xs") (auto simp: nth_list_update list_update_beyond)

lemma list_update_noop: "xs ! i = v \<Longrightarrow> xs[i := v] = xs"
  by (metis list_update_id)

lemma take_update_snoc:
  "i < length xs \<Longrightarrow> take (Suc i) (xs[i := v]) = take i xs @ [v]"
  by (simp add: take_Suc_conv_app_nth)

lemma map_upt_Suc_snoc: "map f [a..<Suc b] = (if a \<le> b then map f [a..<b] @ [f b] else [])"
  by simp

text \<open>
  The loops of the source that scan a table for the first entry with some property:
  the index found, or \<open>None\<close>.
\<close>

fun first_idx :: "('a \<Rightarrow> bool) \<Rightarrow> 'a list \<Rightarrow> nat option" where
  "first_idx P [] = None"
| "first_idx P (x # xs) = (if P x then Some 0 else map_option Suc (first_idx P xs))"

lemma first_idx_None: "first_idx P xs = None \<longleftrightarrow> (\<forall>x \<in> set xs. \<not> P x)"
  by (induction xs) auto

lemma first_idx_Some:
  "first_idx P xs = Some i \<longleftrightarrow> i < length xs \<and> P (xs ! i) \<and> (\<forall>j < i. \<not> P (xs ! j))"
proof (induction xs arbitrary: i)
  case Nil
  then show ?case by simp
next
  case (Cons x xs)
  show ?case
  proof (cases i)
    case 0
    then show ?thesis by (auto split: if_splits)
  next
    case (Suc k)
    have "(\<forall>j < Suc k. \<not> P ((x # xs) ! j)) \<longleftrightarrow> \<not> P x \<and> (\<forall>j < k. \<not> P (xs ! j))"
      by (auto simp: less_Suc_eq_0_disj nth_Cons')
    then show ?thesis using Suc Cons by auto
  qed
qed

lemma first_idx_length: "first_idx P xs = Some i \<Longrightarrow> i < length xs"
  by (simp add: first_idx_Some)

lemma first_idx_sat: "first_idx P xs = Some i \<Longrightarrow> P (xs ! i)"
  by (simp add: first_idx_Some)

text \<open>Overwriting \<open>length ys\<close> elements of a list from position \<open>i\<close>.\<close>

definition splice_at :: "nat \<Rightarrow> 'a list \<Rightarrow> 'a list \<Rightarrow> 'a list" where
  "splice_at i ys xs = take i xs @ ys @ drop (i + length ys) xs"

lemma length_splice_at [simp]:
  "i + length ys \<le> length xs \<Longrightarrow> length (splice_at i ys xs) = length xs"
  by (simp add: splice_at_def)

lemma nth_splice_at:
  assumes "i + length ys \<le> length xs" "j < length xs"
  shows "splice_at i ys xs ! j =
    (if i \<le> j \<and> j < i + length ys then ys ! (j - i) else xs ! j)"
  using assms by (auto simp: splice_at_def nth_append)

lemma take_drop_splice_same:
  "i + length ys \<le> length xs \<Longrightarrow> take (length ys) (drop i (splice_at i ys xs)) = ys"
  by (simp add: splice_at_def)

lemma take_drop_splice_other:
  assumes "i + length ys \<le> length xs" "j + n \<le> i \<or> i + length ys \<le> j" "j + n \<le> length xs"
  shows "take n (drop j (splice_at i ys xs)) = take n (drop j xs)"
proof (rule nth_equalityI)
  show "length (take n (drop j (splice_at i ys xs))) = length (take n (drop j xs))"
    using assms by simp
next
  fix k
  assume "k < length (take n (drop j (splice_at i ys xs)))"
  then have "k < n" "j + k < length xs"
    using assms by auto
  then show "take n (drop j (splice_at i ys xs)) ! k = take n (drop j xs) ! k"
    using assms by (auto simp: nth_splice_at)
qed

section \<open>Little-endian words in byte arrays\<close>

text \<open>
  How a \<open>uint\<close>, \<open>int\<close> or \<open>short\<close> lies in memory on the x86: least significant byte first.
  \<open>le_put n v\<close> is the \<open>n\<close>-byte image of \<open>v\<close> and \<open>le_get\<close> reads one back.
\<close>

fun le_put :: "nat \<Rightarrow> nat \<Rightarrow> bytes" where
  "le_put 0 v = []"
| "le_put (Suc n) v = word_of_nat (v mod 256) # le_put n (v div 256)"

fun le_get :: "bytes \<Rightarrow> nat" where
  "le_get [] = 0"
| "le_get (b # bs) = unat b + 256 * le_get bs"

lemma length_le_put [simp]: "length (le_put n v) = n"
  by (induction n arbitrary: v) simp_all

lemma unat_word_of_mod_256 [simp]: "unat (word_of_nat (v mod 256) :: u8) = v mod 256"
  by (simp add: unat_of_nat)

lemma le_get_put: "le_get (le_put n v) = v mod 256 ^ n"
proof (induction n arbitrary: v)
  case 0
  then show ?case by simp
next
  case (Suc n)
  have "le_get (le_put (Suc n) v) = v mod 256 + 256 * (v div 256 mod 256 ^ n)"
    by (simp add: Suc.IH)
  also have "\<dots> = v mod (256 * 256 ^ n)"
    by (simp add: mod_mult2_eq)
  finally show ?case by simp
qed

lemma le_get_bound: "le_get bs < 256 ^ length bs"
proof (induction bs)
  case Nil
  then show ?case by simp
next
  case (Cons b bs)
  have "unat b < 256"
    using unsigned_less [of b, where 'a = nat] by simp
  with Cons show ?case by simp
qed

lemma le_put_get: "le_put (length bs) (le_get bs) = bs"
proof (induction bs)
  case Nil
  then show ?case by simp
next
  case (Cons b bs)
  have b: "unat b < 256"
    using unsigned_less [of b, where 'a = nat] by simp
  then have "(unat b + 256 * le_get bs) mod 256 = unat b"
    and "(unat b + 256 * le_get bs) div 256 = le_get bs"
    by simp_all
  with Cons show ?case by simp
qed

text \<open>A field of \<open>n\<close> bytes at offset \<open>off\<close> of a block or structure in memory.\<close>

definition get_field :: "nat \<Rightarrow> nat \<Rightarrow> bytes \<Rightarrow> nat" where
  "get_field n off d = le_get (take n (drop off d))"

definition put_field :: "nat \<Rightarrow> nat \<Rightarrow> nat \<Rightarrow> bytes \<Rightarrow> bytes" where
  "put_field n off v d = splice_at off (le_put n v) d"

abbreviation get32 :: "nat \<Rightarrow> bytes \<Rightarrow> nat" where "get32 \<equiv> get_field 4"
abbreviation put32 :: "nat \<Rightarrow> nat \<Rightarrow> bytes \<Rightarrow> bytes" where "put32 \<equiv> put_field 4"
abbreviation get16 :: "nat \<Rightarrow> bytes \<Rightarrow> nat" where "get16 \<equiv> get_field 2"
abbreviation put16 :: "nat \<Rightarrow> nat \<Rightarrow> bytes \<Rightarrow> bytes" where "put16 \<equiv> put_field 2"

lemma length_put_field [simp]: "off + n \<le> length d \<Longrightarrow> length (put_field n off v d) = length d"
  by (simp add: put_field_def)

lemma get_put_field_same:
  "off + n \<le> length d \<Longrightarrow> get_field n off (put_field n off v d) = v mod 256 ^ n"
  using take_drop_splice_same [of off "le_put n v" d]
  by (simp add: get_field_def put_field_def le_get_put)

lemma get_put_field_other:
  assumes "off + n \<le> length d" "o' + m \<le> length d" "o' + m \<le> off \<or> off + n \<le> o'"
  shows "get_field m o' (put_field n off v d) = get_field m o' d"
  using take_drop_splice_other [of off "le_put n v" d o' m] assms
  by (simp add: get_field_def put_field_def)

lemma get_field_bound: "get_field n off d < 256 ^ n"
proof -
  have "le_get (take n (drop off d)) < 256 ^ length (take n (drop off d))" by (rule le_get_bound)
  also have "\<dots> \<le> 256 ^ n" by (rule power_increasing) auto
  finally show ?thesis by (simp add: get_field_def)
qed

text \<open>An array of \<open>n\<close>-byte fields written from the first to the last.\<close>

definition put_fields :: "nat \<Rightarrow> nat \<Rightarrow> (nat \<Rightarrow> nat) \<Rightarrow> nat \<Rightarrow> bytes \<Rightarrow> bytes" where
  "put_fields n off f k d = fold (\<lambda>i d. put_field n (off + n * i) (f i) d) [0..<k] d"

lemma put_fields:
  assumes "off + n * k \<le> length d"
  shows "length (put_fields n off f k d) = length d"
    and "i < k \<Longrightarrow> get_field n (off + n * i) (put_fields n off f k d) = f i mod 256 ^ n"
    and "o' + m \<le> off \<Longrightarrow> get_field m o' (put_fields n off f k d) = get_field m o' d"
proof -
  let ?r = "\<lambda>k. fold (\<lambda>i d. put_field n (off + n * i) (f i) d) [0..<k] d"
  have "length (?r k) = length d \<and> (\<forall>i < k. get_field n (off + n * i) (?r k) = f i mod 256 ^ n) \<and>
      (o' + m \<le> off \<longrightarrow> get_field m o' (?r k) = get_field m o' d)"
    if "off + n * k \<le> length d" for k o' m
    using that
  proof (induction k)
    case 0
    then show ?case by simp
  next
    case (Suc k)
    then have IH: "length (?r k) = length d" "\<forall>i < k. get_field n (off + n * i) (?r k) = f i mod 256 ^ n"
      "o' + m \<le> off \<longrightarrow> get_field m o' (?r k) = get_field m o' d"
      and fits: "(off + n * k) + n \<le> length (?r k)"
      by (simp_all add: algebra_simps)
    have low: "get_field m p (put_field n (off + n * k) (f k) (?r k)) = get_field m p (?r k)"
      if "p + m \<le> off + n * k" for p m
      using that fits IH(1) by (intro get_put_field_other) simp_all
    have "off + n * i + n \<le> off + n * k" if "i < k" for i
    proof -
      have "n * i + n = n * Suc i" by simp
      also have "\<dots> \<le> n * k" using that by (intro mult_le_mono2) simp
      finally show ?thesis by simp
    qed
    then show ?case
      using IH low fits get_put_field_same [OF fits, of "f k"] by (auto simp: less_Suc_eq)
  qed
  from this [OF assms(1), of o' m] show "length (put_fields n off f k d) = length d"
    "i < k \<Longrightarrow> get_field n (off + n * i) (put_fields n off f k d) = f i mod 256 ^ n"
    "o' + m \<le> off \<Longrightarrow> get_field m o' (put_fields n off f k d) = get_field m o' d"
    by (simp_all add: put_fields_def)
qed

end
