(* ===== verification/Spinlock.thy ===== *)
theory Spinlock
  imports Prelude
begin

text \<open>
  Spin locks and the per-processor interrupt nesting count (\<open>src/spinlock.c\<close>,
  \<open>struct cpu\<close> of \<open>src/proc.h\<close>). The machine has an array of processors and the kernel's
  locks; \<open>self\<close> is the processor that executes. \<open>acquire\<close> and \<open>release\<close> are the
  sequential routines; \<open>smp_step\<close> interleaves their atomic steps on any number of processors.
  The debugging call-stack record of a lock (\<open>pcs\<close>, \<open>getcallerpcs\<close>) is left out.
\<close>

section \<open>Processors and locks\<close>

text \<open>
  \<open>iflag\<close> is the interrupt-enable bit FL_IF of the processor's EFLAGS register, \<open>cr3\<close> its
  page-directory register and \<open>ts_esp0\<close> the kernel stack pointer of its task-state segment;
  \<open>cproc\<close> is the per-processor variable \<open>proc\<close>, an index into the process table.
\<close>

record cpu =
  ncli :: int
  intena :: bool
  iflag :: bool
  cproc :: "nat option"
  cr3 :: u32
  ts_esp0 :: u32

record spinlock =
  locked :: u32
  lname :: string
  lkcpu :: "nat option"

datatype lockid =
  PTABLE | BCACHE | LOGLK | ICACHE | FTABLE | IDELK | KMEM | TICKSLK | CONSLK | PIPELK u32

record mach =
  cpus :: "nat \<Rightarrow> cpu"
  locks :: "lockid \<Rightarrow> spinlock"
  self :: nat

definition this_cpu :: "mach \<Rightarrow> cpu" where
  "this_cpu m = cpus m (self m)"

definition upd_cpu :: "(cpu \<Rightarrow> cpu) \<Rightarrow> mach \<Rightarrow> mach" where
  "upd_cpu f m = m\<lparr>cpus := (cpus m)(self m := f (cpus m (self m)))\<rparr>"

definition upd_lock :: "lockid \<Rightarrow> (spinlock \<Rightarrow> spinlock) \<Rightarrow> mach \<Rightarrow> mach" where
  "upd_lock l f m = m\<lparr>locks := (locks m)(l := f (locks m l))\<rparr>"

section \<open>spinlock.c\<close>

definition initlock :: "lockid \<Rightarrow> string \<Rightarrow> mach \<Rightarrow> mach" where
  "initlock lk name m = upd_lock lk (\<lambda>_. \<lparr>locked = 0, lname = name, lkcpu = None\<rparr>) m"

definition cli :: "mach \<Rightarrow> mach" where
  "cli m = upd_cpu (\<lambda>c. c\<lparr>iflag := False\<rparr>) m"

definition sti :: "mach \<Rightarrow> mach" where
  "sti m = upd_cpu (\<lambda>c. c\<lparr>iflag := True\<rparr>) m"

definition xchg_locked :: "lockid \<Rightarrow> u32 \<Rightarrow> mach \<Rightarrow> u32 \<times> mach" where
  "xchg_locked lk newval m =
     (locked (locks m lk), upd_lock lk (\<lambda>k. k\<lparr>locked := newval\<rparr>) m)"

definition holding :: "lockid \<Rightarrow> mach \<Rightarrow> bool" where
  "holding lk m \<longleftrightarrow> locked (locks m lk) \<noteq> 0 \<and> lkcpu (locks m lk) = Some (self m)"

definition pushcli :: "mach \<Rightarrow> mach" where
  "pushcli m =
     (let eflags = iflag (this_cpu m);
          m = cli m;
          n = ncli (this_cpu m);
          m = upd_cpu (\<lambda>c. c\<lparr>ncli := n + 1\<rparr>) m
      in if n = 0 then upd_cpu (\<lambda>c. c\<lparr>intena := eflags\<rparr>) m else m)"

definition popcli :: "mach \<Rightarrow> (unit, mach) outcome" where
  "popcli m =
     (if iflag (this_cpu m) then Panic ''popcli - interruptible''
      else let m = upd_cpu (\<lambda>c. c\<lparr>ncli := ncli c - 1\<rparr>) m
           in if ncli (this_cpu m) < 0 then Panic ''popcli''
              else if ncli (this_cpu m) = 0 \<and> intena (this_cpu m) then Ret () (sti m)
              else Ret () m)"

definition acquire :: "lockid \<Rightarrow> mach \<Rightarrow> (unit, mach) outcome" where
  "acquire lk m =
     (let m = pushcli m
      in if holding lk m then Panic ''acquire''
         else let (old, m') = xchg_locked lk 1 m
              in if old \<noteq> 0 then Spin m'
                 else Ret () (upd_lock lk (\<lambda>k. k\<lparr>lkcpu := Some (self m')\<rparr>) m'))"

definition release :: "lockid \<Rightarrow> mach \<Rightarrow> (unit, mach) outcome" where
  "release lk m =
     (if \<not> holding lk m then Panic ''release''
      else let m = upd_lock lk (\<lambda>k. k\<lparr>lkcpu := None\<rparr>) m;
               (_, m) = xchg_locked lk 0 m
           in popcli m)"

section \<open>Locks on several processors\<close>

text \<open>
  Where a processor is: running, spinning in the loop of \<open>acquire\<close>, past the loop but before
  \<open>lk->cpu = cpu\<close>, in \<open>release\<close> before the exchange that frees the lock, or before the final
  \<open>popcli\<close>. \<open>crit\<close> lists the locks whose \<open>acquire\<close> returned and whose \<open>release\<close> was not
  called yet.
\<close>

datatype lockpc = Run | Spinning lockid | Got lockid | Dropping lockid | Popping

record smp =
  mc :: mach
  pc :: "nat \<Rightarrow> lockpc"
  crit :: "nat \<Rightarrow> lockid list"

definition on :: "nat \<Rightarrow> mach \<Rightarrow> mach" where
  "on c m = m\<lparr>self := c\<rparr>"

inductive smp_step :: "smp \<Rightarrow> smp \<Rightarrow> bool" where
  begin_acquire:
    "pc s c = Run \<Longrightarrow> lk \<notin> set (crit s c) \<Longrightarrow> m = pushcli (on c (mc s)) \<Longrightarrow> \<not> holding lk m \<Longrightarrow>
     smp_step s (s\<lparr>mc := m, pc := (pc s)(c := Spinning lk)\<rparr>)"
| spin:
    "pc s c = Spinning lk \<Longrightarrow> xchg_locked lk 1 (on c (mc s)) = (old, m) \<Longrightarrow> old \<noteq> 0 \<Longrightarrow>
     smp_step s (s\<lparr>mc := m\<rparr>)"
| grab:
    "pc s c = Spinning lk \<Longrightarrow> xchg_locked lk 1 (on c (mc s)) = (0, m) \<Longrightarrow>
     smp_step s (s\<lparr>mc := m, pc := (pc s)(c := Got lk)\<rparr>)"
| record_owner:
    "pc s c = Got lk \<Longrightarrow>
     smp_step s (s\<lparr>mc := upd_lock lk (\<lambda>k. k\<lparr>lkcpu := Some c\<rparr>) (on c (mc s)),
                   pc := (pc s)(c := Run), crit := (crit s)(c := lk # crit s c)\<rparr>)"
| begin_release:
    "pc s c = Run \<Longrightarrow> lk \<in> set (crit s c) \<Longrightarrow> holding lk (on c (mc s)) \<Longrightarrow>
     smp_step s (s\<lparr>mc := upd_lock lk (\<lambda>k. k\<lparr>lkcpu := None\<rparr>) (on c (mc s)),
                   pc := (pc s)(c := Dropping lk), crit := (crit s)(c := remove1 lk (crit s c))\<rparr>)"
| drop_lock:
    "pc s c = Dropping lk \<Longrightarrow> xchg_locked lk 0 (on c (mc s)) = (old, m) \<Longrightarrow>
     smp_step s (s\<lparr>mc := m, pc := (pc s)(c := Popping)\<rparr>)"
| end_release:
    "pc s c = Popping \<Longrightarrow> popcli (on c (mc s)) = Ret () m \<Longrightarrow>
     smp_step s (s\<lparr>mc := m, pc := (pc s)(c := Run)\<rparr>)"
| set_interrupts:
    "pc s c = Run \<Longrightarrow> ncli (cpus (mc s) c) = 0 \<Longrightarrow>
     smp_step s (s\<lparr>mc := (if b then sti (on c (mc s)) else cli (on c (mc s)))\<rparr>)"

definition smp_init :: "smp \<Rightarrow> bool" where
  "smp_init s \<longleftrightarrow>
     (\<forall>c. pc s c = Run \<and> crit s c = [] \<and> ncli (cpus (mc s) c) = 0) \<and>
     (\<forall>l. locked (locks (mc s) l) = 0 \<and> lkcpu (locks (mc s) l) = None)"

text \<open>The processor whose exchange took the lock and has not yet been undone.\<close>

definition owns :: "lockid \<Rightarrow> smp \<Rightarrow> nat \<Rightarrow> bool" where
  "owns lk s c \<longleftrightarrow> lk \<in> set (crit s c) \<or> pc s c = Got lk \<or> pc s c = Dropping lk"

text \<open>
  Bookkeeping that every step keeps: a lock is listed once, is not listed while it is being
  taken or dropped, the nesting count is the number of locks held or under way, and
  interrupts are off while it is not zero.
\<close>

definition smp_good :: "smp \<Rightarrow> bool" where
  "smp_good s \<longleftrightarrow> (\<forall>c.
     distinct (crit s c) \<and>
     (\<forall>l. pc s c \<in> {Spinning l, Got l, Dropping l} \<longrightarrow> l \<notin> set (crit s c)) \<and>
     ncli (cpus (mc s) c) = int (length (crit s c)) + (if pc s c = Run then 0 else 1) \<and>
     (0 < ncli (cpus (mc s) c) \<longrightarrow> \<not> iflag (cpus (mc s) c)))"

section \<open>Test-and-set locks\<close>

text \<open>
  What a lock built on an atomic exchange promises: a step leaves flag and owners alone, or
  sets a clear flag for one new owner, or is a present owner clearing it.
\<close>

locale test_and_set =
  fixes init :: "'s \<Rightarrow> bool" and step :: "'s \<Rightarrow> 's \<Rightarrow> bool"
    and flag :: "'s \<Rightarrow> bool" and owner :: "'s \<Rightarrow> 'c \<Rightarrow> bool"
    and good :: "'s \<Rightarrow> bool"
  assumes init_free: "init s \<Longrightarrow> \<not> flag s \<and> (\<forall>c. \<not> owner s c)"
    and init_good: "init s \<Longrightarrow> good s"
    and step_good: "good s \<Longrightarrow> step s t \<Longrightarrow> good t"
    and step_cases: "good s \<Longrightarrow> step s t \<Longrightarrow>
      (flag t = flag s \<and> owner t = owner s)
      \<or> (\<exists>c. \<not> flag s \<and> flag t \<and> owner t = (owner s)(c := True))
      \<or> (\<exists>c. owner s c \<and> \<not> flag t \<and> owner t = (owner s)(c := False))"
begin

definition exclusive :: "'s \<Rightarrow> bool" where
  "exclusive s \<longleftrightarrow> (flag s \<longleftrightarrow> (\<exists>c. owner s c)) \<and> (\<forall>c d. owner s c \<longrightarrow> owner s d \<longrightarrow> c = d)"

lemma reach_good: "reachable init step s \<Longrightarrow> good s"
  by (erule reachable_invariant) (auto intro: init_good step_good)

lemma reach_exclusive: "reachable init step s \<Longrightarrow> exclusive s"
proof (erule reachable_invariant)
  show "exclusive s" if "init s" for s
    using init_free [OF that] by (auto simp: exclusive_def)
  show "exclusive t" if "reachable init step s" "exclusive s" "step s t" for s t
    using step_cases [OF reach_good [OF that(1)] that(3)] that(2)
    by (fastforce simp: exclusive_def split: if_splits)
qed

lemma at_most_one_owner: "reachable init step s \<Longrightarrow> owner s c \<Longrightarrow> owner s d \<Longrightarrow> c = d"
  using reach_exclusive by (auto simp: exclusive_def)

lemma owner_flag: "reachable init step s \<Longrightarrow> flag s \<longleftrightarrow> (\<exists>c. owner s c)"
  using reach_exclusive by (auto simp: exclusive_def)

end

section \<open>Sequential facts\<close>

lemmas mach_defs = this_cpu_def upd_cpu_def upd_lock_def cli_def sti_def xchg_locked_def
  holding_def pushcli_def popcli_def Let_def

text \<open>
  \<open>hasl m ls\<close>: the executing processor holds exactly the locks \<open>ls\<close>, all others are free,
  and the nesting count and the interrupt flag agree with that.
\<close>

definition hasl :: "mach \<Rightarrow> lockid list \<Rightarrow> bool" where
  "hasl m ls \<longleftrightarrow>
     distinct ls \<and>
     (\<forall>l. locked (locks m l) = (if l \<in> set ls then 1 else 0)) \<and>
     (\<forall>l \<in> set ls. lkcpu (locks m l) = Some (self m)) \<and>
     ncli (this_cpu m) = int (length ls) \<and>
     (ls \<noteq> [] \<longrightarrow> \<not> iflag (this_cpu m))"

text \<open>What locking does not touch.\<close>

definition mframe :: "mach \<Rightarrow> mach \<Rightarrow> bool" where
  "mframe m m' \<longleftrightarrow>
     self m' = self m \<and>
     (\<forall>c. cproc (cpus m' c) = cproc (cpus m c) \<and> cr3 (cpus m' c) = cr3 (cpus m c) \<and>
          ts_esp0 (cpus m' c) = ts_esp0 (cpus m c))"

lemma mframe_refl [simp]: "mframe m m"
  by (simp add: mframe_def)

lemma mframe_trans: "mframe a b \<Longrightarrow> mframe b c \<Longrightarrow> mframe a c"
  by (simp add: mframe_def)

lemma acquire_hasl:
  assumes "hasl m ls" "l \<notin> set ls"
  shows "wp (acquire l m) (\<lambda>_ m'. hasl m' (l # ls) \<and> mframe m m')"
  using assms by (auto simp: acquire_def hasl_def mframe_def mach_defs)

lemma release_hasl:
  assumes "hasl m ls" "l \<in> set ls"
  shows "wp (release l m) (\<lambda>_ m'. hasl m' (remove1 l ls) \<and> mframe m m')"
proof -
  have "0 < length ls" using assms(2) by (auto dest: length_pos_if_in_set)
  then have "length ls = Suc (length (remove1 l ls))"
    using assms(2) by (simp add: length_remove1)
  then show ?thesis
    using assms by (auto simp: release_def hasl_def mframe_def mach_defs split: if_splits)
qed

lemma pushcli_pop:
  assumes "0 \<le> ncli (this_cpu m)" "0 < ncli (this_cpu m) \<Longrightarrow> \<not> iflag (this_cpu m)"
  shows "wp (popcli (pushcli m)) (\<lambda>_ m'.
           ncli (this_cpu m') = ncli (this_cpu m) \<and> iflag (this_cpu m') = iflag (this_cpu m))"
  using assms by (auto simp: mach_defs)

section \<open>Mutual exclusion\<close>

lemma smp_init_good: "smp_init s \<Longrightarrow> smp_good s"
  by (simp add: smp_init_def smp_good_def)

lemma smp_step_good: "smp_step s t \<Longrightarrow> smp_good s \<Longrightarrow> smp_good t"
proof (induction rule: smp_step.induct)
  case (begin_acquire s c lk m)
  then show ?case by (auto simp: smp_good_def mach_defs on_def)
next
  case (spin s c lk old m)
  then show ?case by (auto simp: smp_good_def mach_defs on_def)
next
  case (grab s c lk m)
  then show ?case by (auto simp: smp_good_def mach_defs on_def)
next
  case (record_owner s c lk)
  then show ?case by (auto simp: smp_good_def mach_defs on_def)
next
  case (begin_release s c lk)
  then have "0 < length (crit s c)" by (auto dest: length_pos_if_in_set)
  with begin_release have "length (crit s c) = Suc (length (remove1 lk (crit s c)))"
    by (simp add: length_remove1)
  with begin_release show ?case
    by (auto simp: smp_good_def mach_defs on_def)
next
  case (drop_lock s c lk old m)
  then show ?case by (auto simp: smp_good_def mach_defs on_def)
next
  case (end_release s c m)
  then show ?case by (auto simp: smp_good_def mach_defs on_def split: if_splits)
next
  case (set_interrupts s c b)
  then show ?case by (auto simp: smp_good_def mach_defs on_def)
qed

lemma smp_step_owner:
  "smp_step s t \<Longrightarrow> smp_good s \<Longrightarrow>
      ((locked (locks (mc t) lk) \<noteq> 0) = (locked (locks (mc s) lk) \<noteq> 0) \<and> owns lk t = owns lk s)
      \<or> (\<exists>c. \<not> locked (locks (mc s) lk) \<noteq> 0 \<and> locked (locks (mc t) lk) \<noteq> 0 \<and> owns lk t = (owns lk s)(c := True))
      \<or> (\<exists>c. owns lk s c \<and> \<not> locked (locks (mc t) lk) \<noteq> 0 \<and> owns lk t = (owns lk s)(c := False))"
proof (induction rule: smp_step.induct)
  case (begin_acquire s c l m)
  then show ?case by (auto simp: mach_defs on_def owns_def fun_eq_iff split: if_splits)
next
  case (spin s c l old m)
  then show ?case by (auto simp: mach_defs on_def owns_def fun_eq_iff split: if_splits)
next
  case (grab s c l m)
  then show ?case
    by (cases "l = lk") (auto simp: mach_defs on_def owns_def fun_eq_iff intro!: exI [of _ c])
next
  case (record_owner s c l)
  then show ?case by (auto simp: mach_defs on_def owns_def fun_eq_iff split: if_splits)
next
  case (begin_release s c l)
  then show ?case by (auto simp: mach_defs on_def owns_def fun_eq_iff smp_good_def)
next
  case (drop_lock s c l old m)
  then have "l \<notin> set (crit s c)" by (auto simp: smp_good_def)
  with drop_lock show ?case
    by (cases "l = lk") (auto simp: mach_defs on_def owns_def fun_eq_iff intro!: exI [of _ c])
next
  case (end_release s c m)
  then show ?case by (auto simp: mach_defs on_def owns_def fun_eq_iff split: if_splits)
next
  case (set_interrupts s c b)
  then show ?case by (auto simp: mach_defs on_def owns_def fun_eq_iff split: if_splits)
qed

interpretation spin: test_and_set smp_init smp_step "\<lambda>s. locked (locks (mc s) lk) \<noteq> 0" "owns lk" smp_good
  for lk
proof
  show "\<not> locked (locks (mc s) lk) \<noteq> 0 \<and> (\<forall>c. \<not> owns lk s c)" if "smp_init s" for s
    using that by (simp add: smp_init_def owns_def)
qed (use smp_step_owner smp_step_good smp_init_good in blast)+

abbreviation smp_reachable :: "smp \<Rightarrow> bool" where
  "smp_reachable \<equiv> reachable smp_init smp_step"

text \<open>The owner field of a lock names exactly the processor whose \<open>acquire\<close> returned.\<close>

lemma smp_owner_field: "smp_reachable s \<Longrightarrow> lk \<in> set (crit s c) \<longleftrightarrow> lkcpu (locks (mc s) lk) = Some c"
proof (induction arbitrary: lk c rule: reachable.induct)
  case (start s)
  then show ?case by (simp add: smp_init_def)
next
  case (move s t)
  have ex: "owns l s c \<Longrightarrow> owns l s d \<Longrightarrow> c = d" for l c d
    using move.hyps(1) by (rule spin.at_most_one_owner)
  have good: "smp_good s"
    using move.hyps(1) by (rule spin.reach_good)
  from move.hyps(2) show ?case
  proof cases
    case (record_owner c' l)
    then show ?thesis using move.IH ex [of l] by (auto simp: mach_defs on_def owns_def)
  next
    case (begin_release c' l)
    then show ?thesis using move.IH ex [of l] good
      by (auto simp: mach_defs on_def owns_def smp_good_def)
  qed (use move.IH in \<open>auto simp: mach_defs on_def split: if_splits\<close>)
qed

section \<open>Properties\<close>

text \<open>
  C11. Mutual exclusion: however the atomic steps of \<open>acquire\<close> and \<open>release\<close> interleave
  on any number of processors, two processors are never both between the return of \<open>acquire\<close>
  and the call of \<open>release\<close> for the same lock.
\<close>

theorem spinlock_mutual_exclusion:
  assumes "smp_reachable s" "lk \<in> set (crit s c)" "lk \<in> set (crit s d)"
  shows "c = d"
  using assms by (intro spin.at_most_one_owner [of s lk]) (auto simp: owns_def)

text \<open>
  C15. A processor that holds a lock has interrupts disabled, its nesting count is the number
  of locks it holds, and calling \<open>release\<close> on a lock it holds returns (it cannot panic).
\<close>

theorem spinlock_release_safe:
  assumes "smp_reachable s" "pc s c = Run" "lk \<in> set (crit s c)"
  shows "\<not> iflag (cpus (mc s) c) \<and> ncli (cpus (mc s) c) = int (length (crit s c)) \<and>
         (\<exists>m. release lk (on c (mc s)) = Ret () m)"
proof -
  have good: "smp_good s" using assms(1) by (rule spin.reach_good)
  have "lkcpu (locks (mc s) lk) = Some c"
    using smp_owner_field [OF assms(1)] assms(3) by blast
  moreover have "locked (locks (mc s) lk) \<noteq> 0"
    using spin.owner_flag [OF assms(1), of lk] assms(3) by (auto simp: owns_def)
  moreover have "ncli (cpus (mc s) c) = int (length (crit s c))"
    using good assms(2) by (auto simp: smp_good_def)
  moreover have "0 < length (crit s c)"
    using assms(3) by (auto dest: length_pos_if_in_set)
  moreover have "0 < ncli (cpus (mc s) c) \<longrightarrow> \<not> iflag (cpus (mc s) c)"
    using good by (auto simp: smp_good_def)
  ultimately show ?thesis
    by (auto simp: release_def mach_defs on_def)
qed

text \<open>Two processors from boot; the first one takes a lock.\<close>

definition smp0 :: smp where
  "smp0 = \<lparr>mc = \<lparr>cpus = (\<lambda>_. \<lparr>ncli = 0, intena = False, iflag = True, cproc = None, cr3 = 0, ts_esp0 = 0\<rparr>),
                 locks = (\<lambda>_. \<lparr>locked = 0, lname = ''lk'', lkcpu = None\<rparr>), self = 0\<rparr>,
          pc = (\<lambda>_. Run), crit = (\<lambda>_. [])\<rparr>"

definition smp3 :: smp where
  "smp3 = \<lparr>mc = upd_lock PTABLE (\<lambda>k. k\<lparr>lkcpu := Some 0\<rparr>) (on 0
             (snd (xchg_locked PTABLE 1 (on 0 (pushcli (on 0 (mc smp0))))))),
          pc = (\<lambda>_. Run)(0 := Run), crit = (\<lambda>_. [])(0 := [PTABLE])\<rparr>"

lemma smp3_reachable: "smp_reachable smp3"
proof -
  let ?m1 = "pushcli (on 0 (mc smp0))"
  let ?s1 = "smp0\<lparr>mc := ?m1, pc := (pc smp0)(0 := Spinning PTABLE)\<rparr>"
  let ?m2 = "snd (xchg_locked PTABLE 1 (on 0 ?m1))"
  let ?s2 = "?s1\<lparr>mc := ?m2, pc := (pc ?s1)(0 := Got PTABLE)\<rparr>"
  have r0: "smp_reachable smp0"
    by (rule reachable.start) (simp add: smp_init_def smp0_def)
  have "smp_step smp0 ?s1"
    by (rule smp_step.begin_acquire) (simp_all add: smp0_def mach_defs on_def)
  with r0 have r1: "smp_reachable ?s1" by (rule reachable.move)
  have "smp_step ?s1 ?s2"
    by (rule smp_step.grab [where c = 0]) (simp_all add: smp0_def mach_defs on_def)
  with r1 have r2: "smp_reachable ?s2" by (rule reachable.move)
  have "smp_step ?s2 (?s2\<lparr>mc := upd_lock PTABLE (\<lambda>k. k\<lparr>lkcpu := Some 0\<rparr>) (on 0 (mc ?s2)),
                   pc := (pc ?s2)(0 := Run), crit := (crit ?s2)(0 := PTABLE # crit ?s2 0)\<rparr>)"
    by (rule smp_step.record_owner) simp
  with r2 have "smp_reachable (?s2\<lparr>mc := upd_lock PTABLE (\<lambda>k. k\<lparr>lkcpu := Some 0\<rparr>) (on 0 (mc ?s2)),
                   pc := (pc ?s2)(0 := Run), crit := (crit ?s2)(0 := PTABLE # crit ?s2 0)\<rparr>)"
    by (rule reachable.move)
  then show ?thesis by (simp add: smp3_def smp0_def)
qed

theorem spinlock_mutual_exclusion_witness: "PTABLE \<in> set (crit smp3 0) \<and> (0::nat) = 0"
  using spinlock_mutual_exclusion [OF smp3_reachable, of PTABLE 0 0] by (simp add: smp3_def)

theorem spinlock_release_safe_witness:
  "\<not> iflag (cpus (mc smp3) 0) \<and> (\<exists>m. release PTABLE (on 0 (mc smp3)) = Ret () m)"
  using spinlock_release_safe [OF smp3_reachable, of 0 PTABLE] by (simp add: smp3_def)

end
