(* ===== verification/Cstring.thy ===== *)
theory Cstring
  imports Prelude
begin

text \<open>
  Memory and string routines of the kernel (\<open>src/string.c\<close>) and the two string
  instructions they use (\<open>src/x86.h\<close>). Memory is a function from 32-bit addresses to
  bytes. \<open>memset\<close> and \<open>memmove\<close> work on memory; the character scanners read a pointer as the
  function from offsets to the bytes found there, and the copying routines return the bytes
  they store at the destination. The lemmas give each routine's closed form.
\<close>

unbundle bit_operations_syntax

type_synonym mem = "u32 \<Rightarrow> u8"

section \<open>Loads and stores\<close>

fun store_list :: "u32 \<Rightarrow> bytes \<Rightarrow> mem \<Rightarrow> mem" where
  "store_list a [] m = m"
| "store_list a (b # bs) m = store_list (a + 1) bs (m(a := b))"

fun load_list :: "u32 \<Rightarrow> nat \<Rightarrow> mem \<Rightarrow> bytes" where
  "load_list a 0 m = []"
| "load_list a (Suc n) m = m a # load_list (a + 1) n m"

definition store32 :: "u32 \<Rightarrow> u32 \<Rightarrow> mem \<Rightarrow> mem" where
  "store32 a w m = store_list a (le_put 4 (unat w)) m"

definition load32 :: "u32 \<Rightarrow> mem \<Rightarrow> u32" where
  "load32 a m = word_of_nat (le_get (load_list a 4 m))"

section \<open>String instructions\<close>

fun stosb :: "u32 \<Rightarrow> u32 \<Rightarrow> nat \<Rightarrow> mem \<Rightarrow> mem" where
  "stosb addr data 0 m = m"
| "stosb addr data (Suc cnt) m = stosb (addr + 1) data cnt (m(addr := ucast data))"

fun stosl :: "u32 \<Rightarrow> u32 \<Rightarrow> nat \<Rightarrow> mem \<Rightarrow> mem" where
  "stosl addr data 0 m = m"
| "stosl addr data (Suc cnt) m = stosl (addr + 4) data cnt (store32 addr data m)"

section \<open>string.c\<close>

definition memset :: "u32 \<Rightarrow> u32 \<Rightarrow> u32 \<Rightarrow> mem \<Rightarrow> mem" where
  "memset dst c n m =
     (if unat dst mod 4 = 0 \<and> unat n mod 4 = 0
      then let c = c AND 0xFF
           in stosl dst (push_bit 24 c OR push_bit 16 c OR push_bit 8 c OR c) (unat n div 4) m
      else stosb dst c (unat n) m)"

fun memcmp_from :: "nat \<Rightarrow> (nat \<Rightarrow> u8) \<Rightarrow> (nat \<Rightarrow> u8) \<Rightarrow> nat \<Rightarrow> int" where
  "memcmp_from i s1 s2 0 = 0"
| "memcmp_from i s1 s2 (Suc n) =
     (if s1 i \<noteq> s2 i then uint (s1 i) - uint (s2 i) else memcmp_from (Suc i) s1 s2 n)"

definition memcmp :: "(nat \<Rightarrow> u8) \<Rightarrow> (nat \<Rightarrow> u8) \<Rightarrow> nat \<Rightarrow> int" where
  "memcmp v1 v2 n = memcmp_from 0 v1 v2 n"

text \<open>The two loops of \<open>memmove\<close>: upwards, and downwards from one past the end.\<close>

fun copy_up :: "u32 \<Rightarrow> u32 \<Rightarrow> nat \<Rightarrow> mem \<Rightarrow> mem" where
  "copy_up d s 0 m = m"
| "copy_up d s (Suc n) m = copy_up (d + 1) (s + 1) n (m(d := m s))"

fun copy_down :: "u32 \<Rightarrow> u32 \<Rightarrow> nat \<Rightarrow> mem \<Rightarrow> mem" where
  "copy_down d s 0 m = m"
| "copy_down d s (Suc n) m = copy_down (d - 1) (s - 1) n (m(d - 1 := m (s - 1)))"

definition memmove :: "u32 \<Rightarrow> u32 \<Rightarrow> u32 \<Rightarrow> mem \<Rightarrow> mem" where
  "memmove dst src n m =
     (if src < dst \<and> src + n > dst
      then copy_down (dst + n) (src + n) (unat n) m
      else copy_up dst src (unat n) m)"

definition memcpy :: "u32 \<Rightarrow> u32 \<Rightarrow> u32 \<Rightarrow> mem \<Rightarrow> mem" where
  "memcpy dst src n m = memmove dst src n m"

fun strncmp_from :: "nat \<Rightarrow> (nat \<Rightarrow> u8) \<Rightarrow> (nat \<Rightarrow> u8) \<Rightarrow> nat \<Rightarrow> int" where
  "strncmp_from i p q 0 = 0"
| "strncmp_from i p q (Suc n) =
     (if p i \<noteq> 0 \<and> p i = q i then strncmp_from (Suc i) p q n
      else uint (p i) - uint (q i))"

definition strncmp :: "(nat \<Rightarrow> u8) \<Rightarrow> (nat \<Rightarrow> u8) \<Rightarrow> nat \<Rightarrow> int" where
  "strncmp p q n = strncmp_from 0 p q n"

text \<open>The bytes \<open>strncpy\<close> stores from its destination on: exactly \<open>n\<close> of them.\<close>

fun strncpy_from :: "nat \<Rightarrow> (nat \<Rightarrow> u8) \<Rightarrow> nat \<Rightarrow> bytes" where
  "strncpy_from i t 0 = []"
| "strncpy_from i t (Suc n) =
     t i # (if t i \<noteq> 0 then strncpy_from (Suc i) t n else replicate n 0)"

definition strncpy :: "(nat \<Rightarrow> u8) \<Rightarrow> int \<Rightarrow> bytes" where
  "strncpy t n = strncpy_from 0 t (nat n)"

text \<open>
  The bytes \<open>safestrcpy\<close> stores; its loop runs at most \<open>n - 1\<close> times, and the final
  \<open>*s = 0\<close> comes after a terminator the loop may already have copied.
\<close>

fun safestrcpy_from :: "nat \<Rightarrow> (nat \<Rightarrow> u8) \<Rightarrow> nat \<Rightarrow> bytes" where
  "safestrcpy_from i t 0 = [0]"
| "safestrcpy_from i t (Suc k) =
     t i # (if t i \<noteq> 0 then safestrcpy_from (Suc i) t k else [0])"

definition safestrcpy :: "(nat \<Rightarrow> u8) \<Rightarrow> int \<Rightarrow> bytes" where
  "safestrcpy t n = (if n \<le> 0 then [] else safestrcpy_from 0 t (nat (n - 1)))"

partial_function (option) strlen_from :: "(nat \<Rightarrow> u8) \<Rightarrow> nat \<Rightarrow> nat option" where
  "strlen_from s n = (if s n = 0 then Some n else strlen_from s (Suc n))"

declare strlen_from.simps [code]

definition strlen :: "(nat \<Rightarrow> u8) \<Rightarrow> nat option" where
  "strlen s = strlen_from s 0"

text \<open>A NUL-terminated string lies at a pointer: its characters, none of them NUL.\<close>

definition is_cstr :: "(nat \<Rightarrow> u8) \<Rightarrow> bytes \<Rightarrow> bool" where
  "is_cstr s xs \<longleftrightarrow> (\<forall>i < length xs. s i = xs ! i) \<and> 0 \<notin> set xs \<and> s (length xs) = 0"

text \<open>The string of at most \<open>n\<close> characters at a pointer: it ends at a NUL or at \<open>n\<close>.\<close>

fun strn_from :: "nat \<Rightarrow> (nat \<Rightarrow> u8) \<Rightarrow> nat \<Rightarrow> bytes" where
  "strn_from i p 0 = []"
| "strn_from i p (Suc n) = (if p i = 0 then [] else p i # strn_from (Suc i) p n)"

definition strn :: "(nat \<Rightarrow> u8) \<Rightarrow> nat \<Rightarrow> bytes" where
  "strn p n = strn_from 0 p n"

text \<open>The bytes of a NUL-terminated string, as a pointer: what follows the NUL is not read.\<close>

definition cstr :: "bytes \<Rightarrow> nat \<Rightarrow> u8" where
  "cstr xs i = (if i < length xs then xs ! i else 0)"

section \<open>Closed forms of loads and stores\<close>

lemma unat_diff_add_one:
  fixes x a :: u32
  shows "x \<noteq> a \<Longrightarrow> unat (x - a) = Suc (unat (x - (a + 1)))"
proof -
  assume "x \<noteq> a"
  then have "x - a \<noteq> 0" by simp
  then have "unat (x - a - 1) = unat (x - a) - 1" and "unat (x - a) \<noteq> 0"
    by (simp_all add: unat_minus_one unat_eq_0)
  then show ?thesis by (simp add: algebra_simps)
qed

lemma store_list_apply:
  "length bs \<le> 2 ^ 32 \<Longrightarrow>
   store_list a bs m x = (if unat (x - a) < length bs then bs ! unat (x - a) else m x)"
proof (induction bs arbitrary: a m)
  case Nil
  then show ?case by simp
next
  case (Cons b bs)
  have len: "length bs < 2 ^ 32" using Cons.prems by simp
  show ?case
  proof (cases "x = a")
    case True
    have "x - (a + 1) = (-1 :: u32)" using True by simp
    then have "unat (x - (a + 1)) = 2 ^ 32 - 1"
      by (simp add: unsigned_minus_1_eq_mask mask_eq_exp_minus_1)
    then have "\<not> unat (x - (a + 1)) < length bs" using len by linarith
    then show ?thesis using True Cons by simp
  next
    case False
    then show ?thesis using Cons unat_diff_add_one [OF False] by simp
  qed
qed

lemma length_load_list [simp]: "length (load_list a n m) = n"
  by (induction n arbitrary: a) simp_all

lemma nth_load_list: "i < n \<Longrightarrow> load_list a n m ! i = m (a + word_of_nat i)"
proof (induction n arbitrary: a i)
  case 0
  then show ?case by simp
next
  case (Suc n)
  then show ?case by (cases i) (simp_all add: algebra_simps)
qed

lemma store_list_append:
  "store_list a (xs @ ys) m = store_list (a + word_of_nat (length xs)) ys (store_list a xs m)"
  by (induction xs arbitrary: a m) (simp_all add: algebra_simps)

lemma stosb_eq: "stosb a c n m = store_list a (replicate n (ucast c)) m"
  by (induction n arbitrary: a m) simp_all

lemma load_store_list_same:
  assumes "length bs \<le> 2 ^ 32"
  shows "load_list a (length bs) (store_list a bs m) = bs"
proof (rule nth_equalityI)
  fix i
  assume "i < length (load_list a (length bs) (store_list a bs m))"
  then have i: "i < length bs" by simp
  then have "unat (word_of_nat i :: u32) = i"
    using assms by (simp add: unat_of_nat)
  then show "load_list a (length bs) (store_list a bs m) ! i = bs ! i"
    using i assms by (simp add: nth_load_list store_list_apply)
qed simp

lemma load32_store32_same [simp]: "load32 a (store32 a w m) = w"
proof -
  have "load_list a 4 (store_list a (le_put 4 (unat w)) m) = le_put 4 (unat w)"
    using load_store_list_same [of "le_put 4 (unat w)"] by simp
  moreover have "unat w < 256 ^ 4"
    using unsigned_less [of w, where 'a = nat] by simp
  ultimately show ?thesis by (simp add: load32_def store32_def le_get_put)
qed

text \<open>Two aligned words are the same word or do not overlap.\<close>

lemma load_list_store_list_other:
  assumes "length bs \<le> 2 ^ 32" "n \<le> 2 ^ 32"
    and "\<And>i. i < n \<Longrightarrow> \<not> unat (b + word_of_nat i - a) < length bs"
  shows "load_list b n (store_list a bs m) = load_list b n m"
  using assms by (intro nth_equalityI) (simp_all add: nth_load_list store_list_apply)

section \<open>Closed forms of the string routines\<close>

lemma unat_drop_bit_u32:
  fixes w :: u32
  shows "unat (drop_bit k w) = unat w div 2 ^ k"
  by (simp only: unsigned_drop_bit_eq)
     (simp add: drop_bit_eq_div take_bit_eq_mod mod_less [OF unsigned_less [of w, where 'a = nat, simplified]])

lemma le_put_4_bytes:
  fixes w :: u32
  shows "le_put 4 (unat w) = [ucast w, ucast (drop_bit 8 w), ucast (drop_bit 16 w), ucast (drop_bit 24 w)]"
proof -
  have four: "4 = Suc (Suc (Suc (Suc 0)))" by simp
  have m: "(word_of_nat (n mod 256) :: u8) = word_of_nat n" for n
    by (rule word_unat_eq_iff [THEN iffD2]) (simp add: unat_of_nat)
  have "ucast (drop_bit k w) = (word_of_nat (unat w div 2 ^ k) :: u8)" for k
    by (metis unat_drop_bit_u32 of_nat_unat)
  from this [of 0] this [of 8] this [of 16] this [of 24] show ?thesis
    unfolding four by (simp add: m div_mult2_eq [symmetric])
qed

lemma ucast_drop_replicated:
  fixes c :: u32
  assumes "j \<in> {0, 8, 16, 24 :: nat}"
  shows "ucast (drop_bit j (push_bit 24 (c AND mask 8) OR push_bit 16 (c AND mask 8)
           OR push_bit 8 (c AND mask 8) OR (c AND mask 8))) = (ucast c :: u8)"
  using assms by (auto intro!: bit_word_eqI simp: bit_simps)

lemma le_put_4_replicated:
  fixes c :: u32
  shows "le_put 4 (unat (push_bit 24 (c AND 0xFF) OR push_bit 16 (c AND 0xFF)
           OR push_bit 8 (c AND 0xFF) OR (c AND 0xFF))) = replicate 4 (ucast c)"
proof -
  have m: "(0xFF :: u32) = mask 8" by (simp add: mask_eq_exp_minus_1)
  have four: "4 = Suc (Suc (Suc (Suc 0)))" by simp
  show ?thesis
    unfolding le_put_4_bytes m
    using ucast_drop_replicated [of 0 c] ucast_drop_replicated [of 8 c]
      ucast_drop_replicated [of 16 c] ucast_drop_replicated [of 24 c]
    by (simp add: four)
qed

lemma stosl_eq:
  assumes "le_put 4 (unat w) = replicate 4 c"
  shows "stosl a w n m = store_list a (replicate (4 * n) c) m"
proof (induction n arbitrary: a m)
  case 0
  then show ?case by simp
next
  case (Suc n)
  have "replicate (4 * Suc n) c = replicate 4 c @ replicate (4 * n) c"
    by (simp add: replicate_add [symmetric])
  then show ?case using Suc assms by (simp add: store32_def store_list_append)
qed

lemma memset_store_list: "memset dst c n m = store_list dst (replicate (unat n) (ucast c)) m"
proof (cases "unat dst mod 4 = 0 \<and> unat n mod 4 = 0")
  case True
  then have "4 * (unat n div 4) = unat n" by presburger
  then show ?thesis
    using True stosl_eq [OF le_put_4_replicated [of c]] by (simp add: memset_def Let_def)
next
  case False
  then show ?thesis by (auto simp: memset_def stosb_eq)
qed

lemma unat_u32_bound: "unat (n :: u32) < 2 ^ 32"
  using unsigned_less [of n, where 'a = nat] by simp

lemma memset_apply: "memset dst c n m x = (if x - dst < n then ucast c else m x)"
  using unat_u32_bound [of n]
  by (simp add: memset_store_list store_list_apply word_less_nat_alt)

lemma unat_neg1: "unat (- 1 :: u32) = 2 ^ 32 - 1"
  by (simp add: unsigned_minus_1_eq_mask mask_eq_exp_minus_1)

lemma copy_up_apply:
  assumes "n \<le> 2 ^ 32" "\<forall>k. 0 < k \<and> k < n \<longrightarrow> d - s \<noteq> word_of_nat k"
  shows "copy_up d s n m x = (if unat (x - d) < n then m (s + (x - d)) else m x)"
  using assms
proof (induction n arbitrary: d s m)
  case 0
  then show ?case by simp
next
  case (Suc n)
  let ?m = "m(d := m s)"
  have ih: "copy_up (d + 1) (s + 1) n ?m x =
      (if unat (x - (d + 1)) < n then ?m (s + 1 + (x - (d + 1))) else ?m x)"
    using Suc.prems by (intro Suc.IH) (auto simp: algebra_simps)
  show ?case
  proof (cases "x = d")
    case True
    then have "x - (d + 1) = -1" by simp
    then have "unat (x - (d + 1)) = 2 ^ 32 - 1" by (simp only: unat_neg1)
    then show ?thesis using True ih Suc.prems(1) by simp
  next
    case False
    have k: "unat (x - d) = Suc (unat (x - (d + 1)))"
      using False by (rule unat_diff_add_one)
    have "s + (x - d) \<noteq> d" if "unat (x - d) < Suc n"
    proof
      assume "s + (x - d) = d"
      then have "d - s = word_of_nat (unat (x - d))" by (simp add: algebra_simps)
      moreover have "0 < unat (x - d)" using k by simp
      ultimately show False using Suc.prems(2) that by blast
    qed
    then show ?thesis using False k ih by (auto simp: algebra_simps)
  qed
qed

lemma copy_down_apply:
  assumes "n \<le> 2 ^ 32" "\<forall>k. 0 < k \<and> k < n \<longrightarrow> s - d \<noteq> word_of_nat k"
  shows "copy_down d s n m x = (if unat (d - 1 - x) < n then m (s - (d - x)) else m x)"
  using assms
proof (induction n arbitrary: d s m)
  case 0
  then show ?case by simp
next
  case (Suc n)
  let ?m = "m(d - 1 := m (s - 1))"
  have ih: "copy_down (d - 1) (s - 1) n ?m x =
      (if unat (d - 1 - 1 - x) < n then ?m (s - 1 - (d - 1 - x)) else ?m x)"
    using Suc.prems by (intro Suc.IH) (auto simp: algebra_simps)
  show ?case
  proof (cases "x = d - 1")
    case True
    then have "d - 1 - 1 - x = -1" by simp
    then have "unat (d - 1 - 1 - x) = 2 ^ 32 - 1" by (simp only: unat_neg1)
    then show ?thesis using True ih Suc.prems(1) by simp
  next
    case False
    have k: "unat (d - 1 - x) = Suc (unat (d - 1 - 1 - x))"
      using unat_diff_add_one [of "d - 1" x] False by (simp add: algebra_simps)
    have "s - (d - x) \<noteq> d - 1" if "unat (d - 1 - x) < Suc n"
    proof
      assume "s - (d - x) = d - 1"
      then have "s - d = word_of_nat (unat (d - 1 - x))" by (simp add: algebra_simps)
      moreover have "0 < unat (d - 1 - x)" using k by simp
      ultimately show False using Suc.prems(2) that by blast
    qed
    then show ?thesis using False k ih by (auto simp: algebra_simps)
  qed
qed

lemma unat_word_of_nat_u32: "k < 2 ^ 32 \<Longrightarrow> unat (word_of_nat k :: u32) = k"
  by (simp add: unat_of_nat)

lemma word_diff_neq_small:
  fixes a b :: u32
  assumes "b \<le> a" "n \<le> unat a - unat b" "n \<le> 2 ^ 32"
  shows "0 < k \<and> k < n \<longrightarrow> a - b \<noteq> word_of_nat k"
proof (intro impI notI)
  assume k: "0 < k \<and> k < n" and eq: "a - b = word_of_nat k"
  have "unat (a - b) = unat a - unat b"
    using assms(1) by (simp add: unat_sub)
  moreover have "unat (word_of_nat k :: u32) = k"
    using k assms(3) by (intro unat_word_of_nat_u32) linarith
  ultimately have "unat a - unat b = k" using eq by simp
  then show False using k assms(2) by linarith
qed

lemma word_neg_diff_neq_small:
  fixes a b :: u32
  assumes "a < b" "unat b - unat a + n \<le> 2 ^ 32"
  shows "0 < k \<and> k < n \<longrightarrow> a - b \<noteq> word_of_nat k"
proof (intro impI notI)
  assume k: "0 < k \<and> k < n" and eq: "a - b = word_of_nat k"
  have lt: "unat a < unat b" using assms(1) by (simp add: word_less_nat_alt)
  have "unat (b - a) = unat b - unat a"
    using assms(1) by (simp add: unat_sub)
  moreover have "b - a = word_of_nat (2 ^ 32 - k)"
  proof -
    have "b - a = - (word_of_nat k :: u32)" using eq by (metis minus_diff_eq)
    also have "\<dots> = word_of_nat (2 ^ 32) - word_of_nat k" by simp
    also have "\<dots> = word_of_nat (2 ^ 32 - k)" using k assms(2) by (simp add: of_nat_diff)
    finally show ?thesis .
  qed
  moreover have "unat (word_of_nat (2 ^ 32 - k) :: u32) = 2 ^ 32 - k"
    using k by (intro unat_word_of_nat_u32) simp
  ultimately have "unat b - unat a = 2 ^ 32 - k" by simp
  then show False using k lt assms(2) by linarith
qed

text \<open>
  \<open>memmove\<close> copies correctly whatever the overlap, for ranges that do not run past the end of
  the address space.
\<close>

lemma memmove_apply:
  assumes "unat src + unat n \<le> 2 ^ 32" "unat dst + unat n \<le> 2 ^ 32"
  shows "memmove dst src n m x = (if x - dst < n then m (src + (x - dst)) else m x)"
proof (cases "src < dst \<and> src + n > dst")
  case True
  have lt: "unat src < unat dst" using True by (simp add: word_less_nat_alt)
  have "0 < k \<and> k < unat n \<longrightarrow> src - dst \<noteq> word_of_nat k" for k
    using True assms(2) lt by (intro word_neg_diff_neq_small) auto
  then have "copy_down (dst + n) (src + n) (unat n) m x =
      (if unat (dst + n - 1 - x) < unat n then m (src + n - (dst + n - x)) else m x)"
    using unat_u32_bound [of n] by (intro copy_down_apply) auto
  moreover have "unat (dst + n - 1 - x) < unat n \<longleftrightarrow> x - dst < n" if "n \<noteq> 0"
  proof -
    have "n - 1 - y < n \<longleftrightarrow> y < n" for y
      using that by uint_arith
    from this [of "x - dst"] show ?thesis by (simp add: word_less_nat_alt algebra_simps)
  qed
  ultimately show ?thesis
    using True by (cases "n = 0") (auto simp: memmove_def algebra_simps)
next
  case False
  have "0 < k \<and> k < unat n \<longrightarrow> dst - src \<noteq> word_of_nat k" for k
  proof (cases "src < dst")
    case True
    then have lt: "unat src < unat dst" by (simp add: word_less_nat_alt)
    have "unat src + unat n < 2 ^ 32" using lt assms(2) by simp
    then have "unat (src + n) = unat src + unat n" by (simp add: unat_word_ariths)
    then have "unat n \<le> unat dst - unat src"
      using True False lt by (simp add: word_less_nat_alt)
    then show ?thesis
      using True unat_u32_bound [of n] by (intro word_diff_neq_small) auto
  next
    case le: False
    show ?thesis
    proof (cases "dst = src")
      case True
      then show ?thesis
        using unat_u32_bound [of n] unat_word_of_nat_u32 [of k] by (auto simp flip: unat_eq_0)
    next
      case False
      then have "dst < src" using le by simp
      then show ?thesis
        using assms(1) by (intro word_neg_diff_neq_small) auto
    qed
  qed
  then have "copy_up dst src (unat n) m x =
      (if unat (x - dst) < unat n then m (src + (x - dst)) else m x)"
    using unat_u32_bound [of n] by (intro copy_up_apply) auto
  then show ?thesis using False by (auto simp: memmove_def word_less_nat_alt)
qed

lemma strncmp_from_zero: "strncmp_from i p q n = 0 \<longleftrightarrow> strn_from i p n = strn_from i q n"
  by (induction n arbitrary: i) (auto simp: word_uint_eq_iff)

lemma strncmp_zero: "strncmp p q n = 0 \<longleftrightarrow> strn p n = strn q n"
  by (simp add: strncmp_def strn_def strncmp_from_zero)

lemma length_strn: "length (strn p n) \<le> n"
proof -
  have "length (strn_from i p n) \<le> n" for i
    by (induction n arbitrary: i) auto
  then show ?thesis by (simp add: strn_def)
qed

lemma strn_no_nul: "0 \<notin> set (strn p n)"
proof -
  have "0 \<notin> set (strn_from i p n)" for i
    by (induction n arbitrary: i) auto
  then show ?thesis by (simp add: strn_def)
qed

lemma strncpy_from_eq:
  "strncpy_from i t n = strn_from i t n @ replicate (n - length (strn_from i t n)) 0"
  by (induction n arbitrary: i) auto

lemma strncpy_eq: "strncpy t n = strn t (nat n) @ replicate (nat n - length (strn t (nat n))) 0"
  by (simp add: strncpy_def strn_def strncpy_from_eq)

lemma length_strncpy [simp]: "length (strncpy t n) = nat n"
  using length_strn [of t "nat n"] by (simp add: strncpy_eq)

lemma strn_from_list:
  "0 \<notin> set xs \<Longrightarrow> (\<forall>k < length xs. p (i + k) = xs ! k) \<Longrightarrow>
   (length xs < n \<longrightarrow> p (i + length xs) = 0) \<Longrightarrow> strn_from i p n = take n xs"
proof (induction n arbitrary: i xs)
  case 0
  then show ?case by simp
next
  case (Suc n)
  show ?case
  proof (cases xs)
    case Nil
    then show ?thesis using Suc.prems by simp
  next
    case (Cons x ys)
    have "strn_from (Suc i) p n = take n ys"
      using Suc.prems Cons by (intro Suc.IH) (auto dest: spec [of _ "Suc _"])
    then show ?thesis using Suc.prems Cons by (auto dest: spec [of _ 0])
  qed
qed

lemma strn_strncpy:
  "0 \<le> n \<Longrightarrow> strn (\<lambda>i. strncpy t n ! i) (nat n) = strn t (nat n)"
  unfolding strn_def
  by (subst strn_from_list [where xs = "strn t (nat n)"])
     (use length_strn [of t "nat n"] strn_no_nul [of t "nat n"] in
       \<open>auto simp: strncpy_eq nth_append strn_def\<close>)

lemma safestrcpy_from_eq:
  "safestrcpy_from i t k =
     strn_from i t k @ (if length (strn_from i t k) < k then [0, 0] else [0])"
  by (induction k arbitrary: i) auto

lemma safestrcpy_eq:
  "0 < n \<Longrightarrow> safestrcpy t n =
     strn t (nat (n - 1)) @ (if length (strn t (nat (n - 1))) < nat (n - 1) then [0, 0] else [0])"
  by (simp add: safestrcpy_def strn_def safestrcpy_from_eq)

lemma strlen_from_cstr:
  assumes "\<forall>k < m. s (i + k) \<noteq> 0" "s (i + m) = 0"
  shows "strlen_from s i = Some (i + m)"
  using assms
proof (induction m arbitrary: i)
  case 0
  then show ?case by (simp add: strlen_from.simps)
next
  case (Suc m)
  have "s i \<noteq> 0" using Suc.prems(1) by (auto dest: spec [of _ 0])
  moreover have "strlen_from s (Suc i) = Some (Suc i + m)"
    using Suc.prems by (intro Suc.IH) (auto dest: spec [of _ "Suc _"])
  ultimately show ?case by (subst strlen_from.simps) simp
qed

lemma strlen_is_cstr: "is_cstr s xs \<Longrightarrow> strlen s = Some (length xs)"
  unfolding strlen_def is_cstr_def
  by (subst strlen_from_cstr [where m = "length xs"]) (auto simp: in_set_conv_nth)

section \<open>Properties\<close>

text \<open>
  C28. \<open>memmove\<close> copies as if through a temporary: when neither region wraps around the
  end of the address space, every destination byte is the source byte from before the call,
  even if the regions overlap, and no other byte changes.
\<close>

theorem memmove_handles_overlap:
  assumes "unat src + unat n \<le> 2 ^ 32" "unat dst + unat n \<le> 2 ^ 32"
  shows "memmove dst src n m x = (if x - dst < n then m (src + (x - dst)) else m x)"
  using assms by (rule memmove_apply)

theorem memmove_handles_overlap_witness:
  "memmove 101 100 3 (\<lambda>a. ucast a) 103 = 102"
  using memmove_handles_overlap [of 100 3 101 "\<lambda>a. ucast a" 103] by simp

text \<open>
  C29. \<open>strncpy\<close> fills exactly \<open>n\<close> bytes, and a fixed-size field it filled compares equal
  under \<open>strncmp\<close> to the string it was filled from; this is how directory entries store and
  find their names.
\<close>

theorem strncpy_strncmp_roundtrip:
  "length (strncpy t n) = nat n \<and> strncmp (\<lambda>i. strncpy t n ! i) t (nat n) = 0"
proof (cases "0 \<le> n")
  case True
  then show ?thesis by (simp add: strncmp_zero strn_strncpy)
next
  case False
  then show ?thesis by (simp add: strncmp_def)
qed

text \<open>
  C30. \<open>safestrcpy\<close> into a buffer of \<open>n > 0\<close> bytes stays within the buffer and leaves a
  NUL-terminated string there: the source, cut after \<open>n - 1\<close> characters.
\<close>

theorem safestrcpy_terminates:
  assumes "0 < n"
  shows "is_cstr (\<lambda>i. safestrcpy t n ! i) (strn t (nat (n - 1))) \<and> length (safestrcpy t n) \<le> nat n"
  using length_strn [of t "nat (n - 1)"] strn_no_nul [of t "nat (n - 1)"] assms
  by (auto simp: safestrcpy_eq is_cstr_def nth_append)

theorem safestrcpy_terminates_witness:
  "safestrcpy (cstr [97, 98, 99]) 3 = [97, 98, 0] \<and> is_cstr (\<lambda>i. safestrcpy (cstr [97, 98, 99]) 3 ! i) [97, 98]"
proof -
  have "strn (cstr [97, 98, 99]) 2 = [97, 98]" "safestrcpy (cstr [97, 98, 99]) 3 = [97, 98, 0]"
    by code_simp+
  then show ?thesis
    using safestrcpy_terminates [of 3 "cstr [97, 98, 99]"] by simp
qed

end
