(* ===== verification/Mmu.thy ===== *)
theory Mmu
  imports Cstring
begin

text \<open>
  The memory-management macros of \<open>src/mmu.h\<close> and \<open>src/memlayout.h\<close> on 32-bit words, and the
  arithmetic of aligned words and pages: an aligned word or page is a set of addresses with
  the same quotient, so different ones do not overlap.
\<close>

section \<open>mmu.h and memlayout.h\<close>

abbreviation PGSIZE :: u32 where "PGSIZE \<equiv> 4096"
abbreviation PTE_P :: u32 where "PTE_P \<equiv> 1"
abbreviation PTE_W :: u32 where "PTE_W \<equiv> 2"
abbreviation PTE_U :: u32 where "PTE_U \<equiv> 4"
abbreviation EXTMEM :: u32 where "EXTMEM \<equiv> 0x100000"
abbreviation PHYSTOP :: u32 where "PHYSTOP \<equiv> 0xE000000"
abbreviation DEVSPACE :: u32 where "DEVSPACE \<equiv> 0xFE000000"

definition PDX :: "u32 \<Rightarrow> nat" where
  "PDX va = unat (drop_bit 22 va AND 0x3FF)"

definition PTX :: "u32 \<Rightarrow> nat" where
  "PTX va = unat (drop_bit 12 va AND 0x3FF)"

definition PGADDR :: "nat \<Rightarrow> nat \<Rightarrow> nat \<Rightarrow> u32" where
  "PGADDR d t off = push_bit 22 (word_of_nat d) OR push_bit 12 (word_of_nat t) OR word_of_nat off"

definition PGROUNDUP :: "u32 \<Rightarrow> u32" where
  "PGROUNDUP n = (n + PGSIZE - 1) AND NOT (PGSIZE - 1)"

definition PGROUNDDOWN :: "u32 \<Rightarrow> u32" where
  "PGROUNDDOWN a = a AND NOT (PGSIZE - 1)"

definition PTE_ADDR :: "u32 \<Rightarrow> u32" where
  "PTE_ADDR pte = pte AND NOT 0xFFF"

definition PTE_FLAGS :: "u32 \<Rightarrow> u32" where
  "PTE_FLAGS pte = pte AND 0xFFF"

section \<open>Masks as arithmetic\<close>

lemma unat_and_mask_u32: "unat (x AND mask n :: u32) = unat x mod 2 ^ n"
  by (simp only: take_bit_eq_mask [symmetric] unsigned_take_bit_eq) (simp add: take_bit_eq_mod)

lemma mask12: "(0xFFF :: u32) = mask 12" "(4095 :: u32) = mask 12"
  by (simp_all add: mask_eq_exp_minus_1)

lemma unat_and_not_mask_u32: "unat (x AND NOT (mask n) :: u32) = unat x - unat x mod 2 ^ n"
proof -
  have "x = push_bit n (drop_bit n x) + take_bit n x" by (simp only: bits_ident)
  moreover have "push_bit n (drop_bit n x) = x AND NOT (mask n)"
    by (rule bit_eqI) (auto simp: bit_simps)
  ultimately have "x AND NOT (mask n) = x - (x AND mask n)"
    by (metis add_diff_cancel_right' take_bit_eq_mask)
  moreover have "x AND mask n \<le> x" by (simp add: word_le_nat_alt unat_and_mask_u32)
  ultimately show ?thesis using unat_sub [of "x AND mask n" x] by (simp add: unat_and_mask_u32)
qed

lemma unat_PTE_ADDR: "unat (PTE_ADDR p) = unat p - unat p mod 4096"
  unfolding PTE_ADDR_def mask12 unat_and_not_mask_u32 by simp

lemma unat_PGROUNDDOWN: "unat (PGROUNDDOWN a) = unat a - unat a mod 4096"
  unfolding PGROUNDDOWN_def using unat_and_not_mask_u32 [of a 12] by (simp add: mask_eq_exp_minus_1)

lemma unat_PGROUNDUP:
  assumes "unat n + 4095 < 2 ^ 32"
  shows "unat (PGROUNDUP n) = (unat n + 4095) div 4096 * 4096"
proof -
  have e: "n + PGSIZE - 1 = n + 4095" by simp
  have "PGROUNDUP n = PGROUNDDOWN (n + 4095)" unfolding PGROUNDUP_def PGROUNDDOWN_def e ..
  moreover have "unat (n + 4095) = unat n + 4095"
    using unat_word_ariths(1) [of n 4095] assms by simp
  ultimately show ?thesis by (simp add: unat_PGROUNDDOWN minus_mod_eq_div_mult)
qed

lemma unat_PDX: "PDX va = unat va div 2 ^ 22"
proof -
  have "(0x3FF :: u32) = mask 10" by (simp add: mask_eq_exp_minus_1)
  then have "PDX va = unat va div 2 ^ 22 mod 2 ^ 10"
    unfolding PDX_def by (simp only: unat_and_mask_u32 unat_drop_bit_u32)
  moreover have "unat va div 2 ^ 22 < 2 ^ 10" using unat_u32_bound [of va] by (simp add: div_less_iff_less_mult)
  ultimately show ?thesis by simp
qed

lemma unat_PTX: "PTX va = unat va div 4096 mod 1024"
proof -
  have "(0x3FF :: u32) = mask 10" by (simp add: mask_eq_exp_minus_1)
  then have "PTX va = unat va div 2 ^ 12 mod 2 ^ 10"
    unfolding PTX_def by (simp only: unat_and_mask_u32 unat_drop_bit_u32)
  then show ?thesis by simp
qed

section \<open>Aligned cells\<close>

text \<open>The cell of size \<open>n\<close> at an aligned address \<open>b\<close>.\<close>

lemma aligned_cell:
  fixes x b :: u32
  assumes "unat b mod n = 0" "n dvd 2 ^ 32" "0 < n"
  shows "unat (x - b) < n \<longleftrightarrow> unat x div n = unat b div n"
proof -
  obtain q where q: "unat b = n * q" using assms(1) by (metis mod_0_imp_dvd dvdE)
  obtain c where c: "2 ^ 32 = n * c" using assms(2) by (rule dvdE)
  show ?thesis
  proof
    assume d: "unat (x - b) < n"
    have "n * q < n * c" using unat_u32_bound [of b] q c by simp
    then have "q < c" by simp
    then have "n * Suc q \<le> n * c" by (intro mult_le_mono2) simp
    then have "unat b + unat (x - b) < 2 ^ 32" using d q c by simp
    moreover have "x = b + (x - b)" by simp
    ultimately have "unat x = unat b + unat (x - b)"
      using unat_word_ariths(1) [of b "x - b"] by simp
    then show "unat x div n = unat b div n" using d q by simp
  next
    assume e: "unat x div n = unat b div n"
    have "unat b \<le> unat x" using e q assms(3) by (metis div_mult_self1_is_m mult_div_mod_eq le_add1)
    then have "unat (x - b) = unat x - unat b" by (simp add: unat_sub word_le_nat_alt)
    also have "\<dots> = unat x mod n" using e q assms(3) by (metis minus_mult_div_eq_mod nonzero_mult_div_cancel_left not_gr_zero)
    also have "\<dots> < n" using assms(3) by simp
    finally show "unat (x - b) < n" .
  qed
qed

lemma aligned_eq:
  fixes a b :: u32
  assumes "unat a mod n = 0" "unat b mod n = 0" "unat a div n = unat b div n"
  shows "a = b"
  using assms by (metis add.right_neutral mult_div_mod_eq word_unat_eq_iff)

lemma load32_store32:
  assumes "unat a mod 4 = 0" "unat b mod 4 = 0"
  shows "load32 a (store32 b v m) = (if a = b then v else load32 a m)"
proof (cases "a = b")
  case True
  then show ?thesis by simp
next
  case False
  have "\<not> unat (a + word_of_nat i - b) < 4" if "i < 4" for i
  proof
    assume "unat (a + word_of_nat i - b) < 4"
    then have "unat (a + word_of_nat i) div 4 = unat b div 4"
      using aligned_cell [of b 4 "a + word_of_nat i"] assms(2) by simp
    moreover have "unat (a + word_of_nat i) div 4 = unat a div 4"
      using aligned_cell [of a 4 "a + word_of_nat i"] assms(1) that by (simp add: unat_of_nat)
    ultimately show False using aligned_eq [of a 4 b] assms False by simp
  qed
  then have "load_list a 4 (store_list b (le_put 4 (unat v)) m) = load_list a 4 m"
    by (intro load_list_store_list_other) simp_all
  then show ?thesis using False by (simp add: load32_def store32_def)
qed

section \<open>Pages\<close>

text \<open>The number of the page an address lies in.\<close>

definition page :: "u32 \<Rightarrow> nat" where
  "page a = unat a div 4096"

definition page_aligned :: "u32 \<Rightarrow> bool" where
  "page_aligned a \<longleftrightarrow> unat a mod 4096 = 0"

lemma page_aligned_eq: "page_aligned a \<Longrightarrow> page_aligned b \<Longrightarrow> page a = page b \<Longrightarrow> a = b"
  unfolding page_def page_aligned_def by (rule aligned_eq)

lemma page_aligned_add: "page_aligned b \<Longrightarrow> page_aligned (a + b) \<longleftrightarrow> page_aligned a"
proof -
  assume b: "page_aligned b"
  have "unat (a + b) mod 4096 = (unat a + unat b) mod 2 ^ 32 mod 4096"
    using unat_word_ariths(1) [of a b] by simp
  also have "\<dots> = (unat a + unat b) mod 4096" by (rule mod_mod_cancel) simp
  also have "\<dots> = unat a mod 4096" using b by (simp add: page_aligned_def mod_add_eq [of "unat a" 4096, symmetric])
  finally show ?thesis by (simp add: page_aligned_def)
qed

lemma page_alignedE:
  assumes "page_aligned q"
  obtains a where "unat q = 4096 * a"
  using assms unfolding page_aligned_def by (meson mod_0_imp_dvd dvdE)

lemma page_aligned_PGSIZE [simp]: "page_aligned PGSIZE"
  by (simp add: page_aligned_def)

lemma page_aligned_next [simp]: "page_aligned (p + PGSIZE) \<longleftrightarrow> page_aligned p"
  by (rule page_aligned_add) simp

lemma page_aligned_PGROUNDUP: "unat n + 4095 < 2 ^ 32 \<Longrightarrow> page_aligned (PGROUNDUP n)"
  by (simp add: page_aligned_def unat_PGROUNDUP)

lemma in_page_iff: "page_aligned b \<Longrightarrow> x - b < 4096 \<longleftrightarrow> page x = page b"
  using aligned_cell [of b 4096 x] by (simp add: page_def page_aligned_def word_less_nat_alt)

lemma aligned4_div: "unat x div 4 = unat b div 4 \<Longrightarrow> page x = page b"
proof -
  assume e: "unat x div 4 = unat b div 4"
  have "n div 4096 = n div 4 div 1024" for n :: nat by (simp add: div_mult2_eq [symmetric])
  then show ?thesis by (metis page_def e)
qed

lemma store32_apply_other:
  assumes "unat b mod 4 = 0" "page x \<noteq> page b"
  shows "store32 b v m x = m x"
proof -
  have "\<not> unat (x - b) < 4"
    using aligned_cell [of b 4 x] assms aligned4_div [of x b] by auto
  then show ?thesis by (simp add: store32_def store_list_apply)
qed

lemma memset_page: "page_aligned b \<Longrightarrow> memset b c 4096 m x = (if page x = page b then ucast c else m x)"
  by (simp add: memset_apply in_page_iff)

lemma load32_cong:
  assumes "unat a mod 4 = 0" "\<And>x. page x = page a \<Longrightarrow> m x = n x"
  shows "load32 a m = load32 a n"
proof -
  have "load_list a 4 m = load_list a 4 n"
  proof (rule nth_equalityI)
    fix i
    assume "i < length (load_list a 4 m)"
    then have i: "i < 4" by simp
    then have "unat (a + word_of_nat i) div 4 = unat a div 4"
      using aligned_cell [of a 4 "a + word_of_nat i"] assms(1) by (simp add: unat_of_nat)
    then have "page (a + word_of_nat i) = page a" by (rule aligned4_div)
    then show "load_list a 4 m ! i = load_list a 4 n ! i" using assms(2) i by (simp add: nth_load_list)
  qed simp
  then show ?thesis by (simp add: load32_def)
qed

end
