(* ===== verification/Output.thy ===== *)
theory Output
  imports Prelude
begin

text \<open>
  Console output (\<open>src/console.c\<close>: \<open>printint\<close>, \<open>cgaputc\<close>, \<open>consputc\<close> and the loop of
  \<open>cprintf\<close>; \<open>src/uart.c\<close>: \<open>uartputc\<close>). The devices are the bytes sent to the serial port, the
  cells of the display memory and the cursor register of the display controller. The delay
  loop of \<open>uartputc\<close>, which only waits for the transmitter, has no effect on this state.
\<close>

unbundle bit_operations_syntax

section \<open>State\<close>

text \<open>
  \<open>cursor\<close> is the 16-bit cursor register pair of the display controller, \<open>crt\<close> the display
  memory; \<open>in_buf\<close>, \<open>in_r\<close>, \<open>in_w\<close>, \<open>in_e\<close> are the fields of \<open>input\<close>, the ring of typed characters.
\<close>

record console =
  panicked :: bool
  locking :: bool
  uart :: bool
  uart_out :: bytes
  crt :: "int \<Rightarrow> u16"
  cursor :: u16
  in_buf :: bytes
  in_r :: u32
  in_w :: u32
  in_e :: u32

abbreviation BACKSPACE :: int where "BACKSPACE \<equiv> 0x100"

abbreviation chr :: "char \<Rightarrow> u8" where "chr c \<equiv> of_char c"

abbreviation str :: "string \<Rightarrow> bytes" where "str s \<equiv> map of_char s"

section \<open>Characters\<close>

definition uartputc :: "int \<Rightarrow> console \<Rightarrow> console" where
  "uartputc c s = (if \<not> uart s then s else s\<lparr>uart_out := uart_out s @ [word_of_int c]\<rparr>)"

text \<open>
  \<open>cgaputc\<close> in its two steps: placing the character (new cursor and display memory), and
  scrolling up by one line of 80 cells when the cursor has left the first 24 lines.
\<close>

definition cga_place :: "int \<Rightarrow> int \<Rightarrow> (int \<Rightarrow> u16) \<Rightarrow> int \<times> (int \<Rightarrow> u16)" where
  "cga_place c pos m =
     (if c = 10 then (pos + (80 - pos mod 80), m)
      else if c = BACKSPACE then (if pos > 0 then pos - 1 else pos, m)
      else (pos + 1, m(pos := word_of_int (c AND 0xFF) OR 0x0700)))"

definition cga_scroll :: "int \<Rightarrow> (int \<Rightarrow> u16) \<Rightarrow> int \<times> (int \<Rightarrow> u16)" where
  "cga_scroll pos m =
     (if pos div 80 \<ge> 24
      then let m = (\<lambda>i. if 0 \<le> i \<and> i < 23 * 80 then m (i + 80) else m i);
               pos = pos - 80
           in (pos, \<lambda>i. if pos \<le> i \<and> i < 24 * 80 then 0 else m i)
      else (pos, m))"

definition cgaputc :: "int \<Rightarrow> console \<Rightarrow> (unit, console) outcome" where
  "cgaputc c s =
     (let (pos, m) = cga_place c (uint (cursor s)) (crt s)
      in if pos < 0 \<or> pos > 25 * 80 then Panic ''pos under/overflow''
         else let (pos, m) = cga_scroll pos m
              in Ret () (s\<lparr>cursor := word_of_int pos, crt := m(pos := 0x0720)\<rparr>))"

text \<open>After a panic every processor that prints stops in an endless loop.\<close>

definition consputc :: "int \<Rightarrow> console \<Rightarrow> (unit, console) outcome" where
  "consputc c s =
     (if panicked s then Diverge
      else let s = (if c = BACKSPACE then uartputc 8 (uartputc 32 (uartputc 8 s)) else uartputc c s)
           in cgaputc c s)"

definition consputs :: "int list \<Rightarrow> console \<Rightarrow> (unit, console) outcome" where
  "consputs = foreach consputc"

section \<open>Numbers\<close>

definition digit :: "nat \<Rightarrow> u8" where
  "digit d = str ''0123456789abcdef'' ! d"

text \<open>The characters the first loop of \<open>printint\<close> puts into \<open>buf\<close>, least significant first.\<close>

function digit_loop :: "nat \<Rightarrow> nat \<Rightarrow> bytes" where
  "digit_loop base x =
     digit (x mod base) # (if base < 2 \<or> x div base = 0 then [] else digit_loop base (x div base))"
  by pat_completeness auto

termination
  by (relation "measure snd") (auto simp: div_less_dividend div_greater_zero_iff)

declare digit_loop.simps [simp del]

text \<open>
  \<open>printint(xx, base, sign)\<close>: with a base below 2 the loop would fault or never end; every
  call passes 10 or 16.
\<close>

definition printint_buf :: "u32 \<Rightarrow> nat \<Rightarrow> bool \<Rightarrow> bytes" where
  "printint_buf xx base sign =
     (let neg = (sign \<and> sint xx < 0);
          x = (if neg then - xx else xx)
      in digit_loop base (unat x) @ (if neg then [chr CHR ''-''] else []))"

definition printint :: "u32 \<Rightarrow> nat \<Rightarrow> bool \<Rightarrow> console \<Rightarrow> (unit, console) outcome" where
  "printint xx base sign s =
     (if base < 2 then Diverge else consputs (map sint (rev (printint_buf xx base sign))) s)"

section \<open>Formatted output\<close>

text \<open>
  The arguments after the format are words on the stack; a string argument is a pointer, null
  or to a NUL-terminated string. Every call passes an argument of the right kind for each
  conversion of its format.
\<close>

datatype carg = CWord u32 | CStr "bytes option"

fun arg_word :: "carg list \<Rightarrow> u32" where
  "arg_word (CWord w # _) = w"
| "arg_word _ = 0"

fun arg_str :: "carg list \<Rightarrow> bytes" where
  "arg_str (CStr (Some s) # _) = s"
| "arg_str _ = str ''(null)''"

fun cprintf_loop :: "bytes \<Rightarrow> carg list \<Rightarrow> console \<Rightarrow> (unit, console) outcome" where
  "cprintf_loop [] args s = Ret () s"
| "cprintf_loop [c] args s = (if c \<noteq> chr CHR ''%'' then consputc (uint c) s else Ret () s)"
| "cprintf_loop (c # d # fmt) args s =
     (if c \<noteq> chr CHR ''%'' then bindR (consputc (uint c) s) (\<lambda>_. cprintf_loop (d # fmt) args)
      else if d = chr CHR ''d''
      then bindR (printint (arg_word args) 10 True s) (\<lambda>_. cprintf_loop fmt (tl args))
      else if d = chr CHR ''x'' \<or> d = chr CHR ''p''
      then bindR (printint (arg_word args) 16 False s) (\<lambda>_. cprintf_loop fmt (tl args))
      else if d = chr CHR ''s''
      then bindR (consputs (map sint (arg_str args)) s) (\<lambda>_. cprintf_loop fmt (tl args))
      else if d = chr CHR ''%''
      then bindR (consputc (uint (chr CHR ''%'')) s) (\<lambda>_. cprintf_loop fmt args)
      else bindR (consputc (uint (chr CHR ''%'')) s) (\<lambda>_ s.
           bindR (consputc (uint d) s) (\<lambda>_. cprintf_loop fmt args)))"

section \<open>The cursor stays on the screen\<close>

text \<open>The state between two characters: no panic, and the cursor within the first 24 lines.\<close>

definition con_ok :: "console \<Rightarrow> bool" where
  "con_ok s \<longleftrightarrow> \<not> panicked s \<and> uint (cursor s) < 24 * 80"

text \<open>What printing may change: the serial output, the display cells and the cursor.\<close>

definition con_frame :: "console \<Rightarrow> console \<Rightarrow> bool" where
  "con_frame s t \<longleftrightarrow> t = s\<lparr>uart_out := uart_out t, crt := crt t, cursor := cursor t\<rparr> \<and>
     (\<forall>i. i < 0 \<or> 24 * 80 \<le> i \<longrightarrow> crt t i = crt s i)"

lemma con_frame_refl [simp]: "con_frame s s"
  by (simp add: con_frame_def)

lemma con_frame_sel:
  assumes "con_frame s t"
  shows "panicked t = panicked s" "locking t = locking s" "uart t = uart s" "in_buf t = in_buf s"
    "in_r t = in_r s" "in_w t = in_w s" "in_e t = in_e s"
proof -
  from assms have t: "t = s\<lparr>uart_out := uart_out t, crt := crt t, cursor := cursor t\<rparr>"
    by (simp add: con_frame_def)
  show "panicked t = panicked s" "locking t = locking s" "uart t = uart s" "in_buf t = in_buf s"
    "in_r t = in_r s" "in_w t = in_w s" "in_e t = in_e s"
    by (subst t, simp)+
qed

lemma con_frameI:
  assumes "panicked t = panicked s" "locking t = locking s" "uart t = uart s" "in_buf t = in_buf s"
    "in_r t = in_r s" "in_w t = in_w s" "in_e t = in_e s" "\<forall>i. i < 0 \<or> 24 * 80 \<le> i \<longrightarrow> crt t i = crt s i"
  shows "con_frame s t"
  using assms by (simp add: con_frame_def)

lemma con_frame_trans:
  assumes "con_frame s t" "con_frame t u"
  shows "con_frame s u"
  using assms con_frame_sel [OF assms(1)] con_frame_sel [OF assms(2)]
  by (intro con_frameI) (auto simp: con_frame_def)

lemma uint_pos:
  assumes "0 \<le> p" "p < 24 * 80"
  shows "uint (word_of_int p :: u16) = p"
  using assms by (simp add: uint_word_of_int)

text \<open>Cells outside the screen are never touched.\<close>

definition off_screen :: "(int \<Rightarrow> u16) \<Rightarrow> (int \<Rightarrow> u16) \<Rightarrow> bool" where
  "off_screen m n \<longleftrightarrow> (\<forall>i. i < 0 \<or> 24 * 80 \<le> i \<longrightarrow> m i = n i)"

lemma cga_place_bounds:
  assumes "cga_place c p m = (q, n)" "0 \<le> p" "p < 24 * 80"
  shows "0 \<le> q" "q \<le> 24 * 80" "off_screen n m"
proof -
  have "p + (80 - p mod 80) \<le> 24 * 80" using assms(3) by presburger
  moreover have "0 \<le> p + (80 - p mod 80)" using assms(2) by presburger
  ultimately show "0 \<le> q" "q \<le> 24 * 80"
    using assms by (auto simp: cga_place_def split: if_splits)
  show "off_screen n m"
    using assms by (auto simp: cga_place_def off_screen_def split: if_splits)
qed

lemma cga_scroll_bounds:
  assumes "cga_scroll p m = (q, n)" "0 \<le> p" "p \<le> 24 * 80"
  shows "0 \<le> q" "q < 24 * 80" "off_screen n m"
proof -
  have "\<not> p div 80 \<ge> 24 \<Longrightarrow> p < 24 * 80" by presburger
  then show "0 \<le> q" "q < 24 * 80"
    using assms by (auto simp: cga_scroll_def Let_def split: if_splits)
  show "off_screen n m"
    using assms by (auto simp: cga_scroll_def Let_def off_screen_def split: if_splits)
qed

lemma cgaputc_wp:
  assumes "uint (cursor s) < 24 * 80"
  shows "wp (cgaputc c s) (\<lambda>_ t. uint (cursor t) < 24 * 80 \<and>
    t = s\<lparr>crt := crt t, cursor := cursor t\<rparr> \<and> off_screen (crt t) (crt s))"
proof -
  obtain p m where pm: "cga_place c (uint (cursor s)) (crt s) = (p, m)" by fastforce
  obtain q n where qn: "cga_scroll p m = (q, n)" by fastforce
  have p: "0 \<le> p" "p \<le> 24 * 80" "off_screen m (crt s)" using cga_place_bounds [OF pm] assms by simp_all
  have q: "0 \<le> q" "q < 24 * 80" "off_screen n m" using cga_scroll_bounds [OF qn p(1,2)] by simp_all
  have "off_screen (n(q := 0x0720)) (crt s)" using p(3) q by (auto simp: off_screen_def)
  moreover have "\<not> (p < 0 \<or> p > 25 * 80)" using p by simp
  ultimately show ?thesis using q uint_pos [OF q(1,2)] by (simp add: cgaputc_def pm qn)
qed

text \<open>The bytes a printed character sends to the serial port.\<close>

definition uart_bytes :: "int \<Rightarrow> bytes" where
  "uart_bytes c = (if c = BACKSPACE then [8, 32, 8] else [word_of_int c])"

lemma consputc_wp:
  assumes "con_ok s"
  shows "wp (consputc c s) (\<lambda>_ t. con_ok t \<and> con_frame s t \<and>
    uart_out t = uart_out s @ (if uart s then uart_bytes c else []))"
proof -
  let ?s = "if c = BACKSPACE then uartputc 8 (uartputc 32 (uartputc 8 s)) else uartputc c s"
  have s': "?s = s\<lparr>uart_out := uart_out s @ (if uart s then uart_bytes c else [])\<rparr>"
    by (simp add: uartputc_def uart_bytes_def)
  have "uint (cursor ?s) < 24 * 80" using assms unfolding s' by (simp add: con_ok_def)
  from cgaputc_wp [OF this, of c]
  have "wp (cgaputc c ?s) (\<lambda>_ t. con_ok t \<and> con_frame s t \<and>
      uart_out t = uart_out s @ (if uart s then uart_bytes c else []))"
  proof (rule wp_mono, elim conjE)
    fix t
    assume t: "uint (cursor t) < 24 * 80" "t = ?s\<lparr>crt := crt t, cursor := cursor t\<rparr>"
      "off_screen (crt t) (crt ?s)"
    have sel: "panicked t = panicked s" "locking t = locking s" "uart t = uart s" "in_buf t = in_buf s"
      "in_r t = in_r s" "in_w t = in_w s" "in_e t = in_e s"
      "uart_out t = uart_out s @ (if uart s then uart_bytes c else [])"
      by (subst t(2), simp only: s', simp)+
    have "con_frame s t" using sel t(3) unfolding s' by (intro con_frameI) (auto simp: off_screen_def)
    then show "con_ok t \<and> con_frame s t \<and> uart_out t = uart_out s @ (if uart s then uart_bytes c else [])"
      using sel t(1) assms by (simp add: con_ok_def)
  qed
  then show ?thesis using assms by (simp add: consputc_def Let_def con_ok_def)
qed

lemma consputs_wp:
  assumes "con_ok s"
  shows "wp (consputs cs s) (\<lambda>_ t. con_ok t \<and> con_frame s t \<and>
    uart_out t = uart_out s @ (if uart s then concat (map uart_bytes cs) else []))"
  using assms
proof (induction cs arbitrary: s)
  case Nil
  then show ?case by (simp add: consputs_def)
next
  case (Cons c cs)
  have "wp (consputs cs t) (\<lambda>_ u. con_ok u \<and> con_frame s u \<and>
      uart_out u = uart_out s @ (if uart s then concat (map uart_bytes (c # cs)) else []))"
    if t: "con_ok t" "con_frame s t" "uart_out t = uart_out s @ (if uart s then uart_bytes c else [])" for t
  proof -
    have "uart t = uart s" using t(2) by (rule con_frame_sel)
    then show ?thesis
      using Cons.IH [OF t(1)] t(2,3) by (auto elim!: wp_mono intro: con_frame_trans)
  qed
  then show ?case
    using consputc_wp [OF Cons.prems, of c] by (auto simp: consputs_def elim!: wp_mono)
qed

text \<open>Output routines in sequence: each starts and ends with the console in order.\<close>

definition in_order :: "(unit, console) outcome \<Rightarrow> console \<Rightarrow> bool" where
  "in_order m s \<longleftrightarrow> wp m (\<lambda>_ t. con_ok t \<and> con_frame s t)"

lemma in_order_bind:
  assumes "in_order m s" "\<And>t. con_ok t \<Longrightarrow> in_order (f t) t"
  shows "in_order (bindR m (\<lambda>_. f)) s"
  using assms unfolding in_order_def
  by (auto elim!: wp_mono intro: con_frame_trans) (metis (mono_tags, lifting) con_frame_trans wp_mono)

lemma in_order_basic:
  assumes "con_ok s"
  shows "in_order (Ret () s) s" "in_order (consputc c s) s" "in_order (consputs cs s) s"
    "2 \<le> base \<Longrightarrow> in_order (printint xx base sign s) s"
  using assms consputs_wp [OF assms] consputc_wp [OF assms]
  by (simp_all add: in_order_def printint_def wp_conj_iff)

lemma cprintf_loop_in_order: "con_ok s \<Longrightarrow> in_order (cprintf_loop fmt args s) s"
proof (induction fmt args s rule: cprintf_loop.induct)
  case (1 args s)
  then show ?case by (simp add: in_order_basic)
next
  case (2 c args s)
  then show ?case by (simp add: in_order_basic)
next
  case (3 c d fmt args s)
  then show ?case
    by (auto intro!: in_order_bind in_order_basic split del: if_split) (auto intro!: in_order_bind in_order_basic)
qed

section \<open>Printed numbers\<close>

definition digit_val :: "u8 \<Rightarrow> nat" where
  "digit_val c = (if c < 58 then unat c - 48 else unat c - 87)"

text \<open>The value of digits, least significant first, and of a printed number.\<close>

fun number :: "nat \<Rightarrow> bytes \<Rightarrow> nat" where
  "number base [] = 0"
| "number base (d # ds) = digit_val d + base * number base ds"

definition printed_value :: "nat \<Rightarrow> bytes \<Rightarrow> int" where
  "printed_value base cs =
     (case cs of c # ds \<Rightarrow> if c = chr CHR ''-'' then - int (number base (rev ds)) else int (number base (rev cs))
      | [] \<Rightarrow> 0)"

lemma digit_table: "\<forall>d \<in> set [0..<16]. digit_val (digit d) = d \<and> digit d \<noteq> 45 \<and> digit d < 128"
  by code_simp

lemma digit_facts:
  assumes "d < 16"
  shows "digit_val (digit d) = d" "digit d \<noteq> 45" "digit d < 128"
  using bspec [OF digit_table, of d] assms by auto

lemma number_digit_loop: "2 \<le> base \<Longrightarrow> base \<le> 16 \<Longrightarrow> number base (digit_loop base x) = x"
proof (induction base x rule: digit_loop.induct)
  case (1 base x)
  have "x mod base < 16" using 1 by (meson mod_less_divisor less_le_trans zero_less_numeral)
  then show ?case
    using 1 by (subst digit_loop.simps) (auto simp: digit_facts div_eq_0_iff)
qed

lemma digit_loop_digits:
  "2 \<le> base \<Longrightarrow> base \<le> 16 \<Longrightarrow> c \<in> set (digit_loop base x) \<Longrightarrow> c \<noteq> 45 \<and> c < 128"
proof (induction base x rule: digit_loop.induct)
  case (1 base x)
  have "x mod base < 16" using 1 by (meson mod_less_divisor less_le_trans zero_less_numeral)
  then show ?case
    using 1 by (subst (asm) (2) digit_loop.simps) (auto simp: digit_facts split: if_splits)
qed

lemma digit_loop_not_Nil: "digit_loop base x \<noteq> []"
  by (subst digit_loop.simps) simp

lemma printed_value_digits:
  assumes "2 \<le> base" "base \<le> 16"
  shows "printed_value base (rev (digit_loop base x)) = int x"
proof (cases "rev (digit_loop base x)")
  case Nil
  then show ?thesis by (simp add: digit_loop_not_Nil)
next
  case (Cons c ds)
  then have "c \<in> set (digit_loop base x)" by (metis list.set_intros(1) set_rev)
  then have "c \<noteq> 45" using digit_loop_digits [OF assms] by blast
  moreover have "rev (c # ds) = digit_loop base x" using Cons by (metis rev_rev_ident)
  ultimately show ?thesis
    using number_digit_loop [OF assms, of x] unfolding Cons by (simp add: printed_value_def)
qed

lemma printed_value_buf:
  assumes "2 \<le> base" "base \<le> 16"
  shows "printed_value base (rev (printint_buf xx base sign)) = (if sign then sint xx else uint xx)"
proof (cases "sign \<and> sint xx < 0")
  case True
  then have "xx \<noteq> 0" by auto
  then have "int (unat (- xx)) = 2 ^ 32 - uint xx" using uint_uminus_u32 by simp
  also have "\<dots> = - sint xx" using True sint_u32 [of xx] by (simp split: if_splits)
  finally have "int (unat (- xx)) = - sint xx" .
  then show ?thesis
    using True number_digit_loop [OF assms, of "unat (- xx)"]
    by (simp add: printint_buf_def printed_value_def)
next
  case False
  then have "sign \<Longrightarrow> sint xx = uint xx"
    using sint_u32 [of xx] uint_lt2p [of xx] by (auto split: if_splits)
  then show ?thesis
    using False printed_value_digits [OF assms, of "unat xx"] by (auto simp: printint_buf_def)
qed

text \<open>A printed number consists of plain characters: what is sent is what was formatted.\<close>

lemma uart_bytes_chars:
  assumes "\<And>c. c \<in> set cs \<Longrightarrow> c < 128"
  shows "concat (map uart_bytes (map sint cs)) = cs"
  using assms
proof (induction cs)
  case Nil
  then show ?case by simp
next
  case (Cons c cs)
  have "sint c \<le> 127" using sint_lt [of c] by simp
  then have "uart_bytes (sint c) = [c]" by (simp add: uart_bytes_def)
  then show ?case using Cons by simp
qed

section \<open>Properties\<close>


definition console0 :: console where
  "console0 = \<lparr>panicked = False, locking = False, uart = True, uart_out = [], crt = (\<lambda>_. 0), cursor = 0,
     in_buf = replicate 128 0, in_r = 0, in_w = 0, in_e = 0\<rparr>"


text \<open>
  C32. Whatever is printed, with whatever arguments, the cursor stays within the first 24
  lines of the display, no cell outside them is written, and \<open>cgaputc\<close> never panics.
\<close>

theorem cprintf_stays_on_screen:
  assumes "con_ok s"
  shows "wp (cprintf_loop fmt args s) (\<lambda>_ t. con_ok t \<and> con_frame s t)"
  using cprintf_loop_in_order [OF assms] by (simp add: in_order_def)

theorem cprintf_stays_on_screen_witness:
  "\<exists>t. cprintf_loop (str ''pid %d %s'') [CWord 7, CStr (Some (str ''sh''))] console0 = Ret () t \<and> con_ok t"
  using cprintf_stays_on_screen [of console0 "str ''pid %d %s''" "[CWord 7, CStr (Some (str ''sh''))]"]
  by (auto simp: wp_iff console0_def con_ok_def)

end
