(* ===== verification/Sched.thy ===== *)
theory Sched
  imports Spinlock Mmu Output
begin

text \<open>
  The process table and the scheduling half of \<open>src/proc.c\<close>: \<open>sched\<close>, \<open>yield\<close>, \<open>sleep\<close>,
  \<open>wakeup\<close>, \<open>kill\<close> and the per-processor \<open>scheduler\<close>, with \<open>switchuvm\<close> and \<open>switchkvm\<close>
  of \<open>src/vm.c\<close>. A pointer to a process is its index in the table. \<open>sched\<close> ends in
  \<open>Asleep\<close>: the processor has switched to its scheduler; what a routine does after it is
  resumed is a definition of its own (\<open>sched_return\<close>, \<open>yield_return\<close>, \<open>sleep_return\<close>).
  Reading through a null \<open>proc\<close> pointer in the kernel is the page fault that \<open>trap\<close> answers
  with \<open>panic("trap")\<close>.
\<close>

section \<open>Processes\<close>

datatype procstate = UNUSED | EMBRYO | SLEEPING | RUNNABLE | RUNNING | ZOMBIE

text \<open>
  Sleep channels are addresses in the source; one constructor for each kind of address that
  is used as a channel.
\<close>

datatype chan =
    ChLog | ChTicks | ChInput
  | ChBuf nat | ChInode nat | ChProc nat | ChNread u32 | ChNwrite u32

record trapframe =
  tf_edi :: u32
  tf_esi :: u32
  tf_ebp :: u32
  tf_oesp :: u32
  tf_ebx :: u32
  tf_edx :: u32
  tf_ecx :: u32
  tf_eax :: u32
  tf_gs :: u16
  tf_fs :: u16
  tf_es :: u16
  tf_ds :: u16
  tf_trapno :: u32
  tf_err :: u32
  tf_eip :: u32
  tf_cs :: u16
  tf_eflags :: u32
  tf_esp :: u32
  tf_ss :: u16

record kcontext =
  cx_edi :: u32
  cx_esi :: u32
  cx_ebx :: u32
  cx_ebp :: u32
  cx_eip :: u32

record proc =
  sz :: u32
  pgdir :: u32
  kstack :: u32
  pstate :: procstate
  pid :: int
  parent :: "nat option"
  tf :: trapframe
  ctx :: kcontext
  chan :: "chan option"
  killed :: bool
  ofile :: "nat option list"
  cwd :: "nat option"
  pname :: bytes

definition NPROC :: nat where "NPROC = 64"
definition NOFILE :: nat where "NOFILE = 16"
abbreviation KSTACKSIZE :: u32 where "KSTACKSIZE \<equiv> 4096"
abbreviation KERNBASE :: u32 where "KERNBASE \<equiv> 0x80000000"

text \<open>
  Addresses and data the linker provides: \<open>end\<close>, \<open>data\<close>, the entry points a new kernel stack
  refers to, and the image of \<open>src/initcode.S\<close>.
\<close>

record symtab =
  sym_end :: u32
  sym_data :: u32
  sym_forkret :: u32
  sym_trapret :: u32
  sym_initcode :: bytes

text \<open>
  A pipe (\<open>struct pipe\<close> of \<open>src/pipe.c\<close>) lives in a page of its own; \<open>pipes\<close> is what the pages
  in use as pipes hold. Its lock is \<open>PIPELK\<close> of the page.
\<close>

record pipe =
  pdata :: bytes
  nread :: u32
  nwrite :: u32
  readopen :: bool
  writeopen :: bool

text \<open>
  The kernel below the file system: the processors and locks, physical memory with the page
  allocator's list (\<open>kmem\<close> of \<open>src/kalloc.c\<close>), the console, and the process table.
\<close>

record kern =
  km :: mach
  ptable :: "proc list"
  initproc :: "nat option"
  nextpid :: int
  kpgdir :: u32
  ticks :: u32
  ram :: mem
  use_lock :: bool
  freelist :: u32
  syms :: symtab
  con :: console
  pipes :: "u32 \<rightharpoonup> pipe"

definition kacquire :: "lockid \<Rightarrow> kern \<Rightarrow> (unit, kern) outcome" where
  "kacquire lk = zoom km (\<lambda>m k. k\<lparr>km := m\<rparr>) (acquire lk)"

definition krelease :: "lockid \<Rightarrow> kern \<Rightarrow> (unit, kern) outcome" where
  "krelease lk = zoom km (\<lambda>m k. k\<lparr>km := m\<rparr>) (release lk)"

definition curproc :: "kern \<Rightarrow> nat option" where
  "curproc k = cproc (this_cpu (km k))"

definition set_curproc :: "nat option \<Rightarrow> kern \<Rightarrow> kern" where
  "set_curproc p k = k\<lparr>km := upd_cpu (\<lambda>c. c\<lparr>cproc := p\<rparr>) (km k)\<rparr>"

definition upd_proc :: "nat \<Rightarrow> (proc \<Rightarrow> proc) \<Rightarrow> kern \<Rightarrow> kern" where
  "upd_proc i f k = k\<lparr>ptable := (ptable k)[i := f (ptable k ! i)]\<rparr>"

text \<open>\<open>proc->...\<close>: what the code does with the current process.\<close>

definition with_proc :: "(nat \<Rightarrow> kern \<Rightarrow> ('a, kern) outcome) \<Rightarrow> kern \<Rightarrow> ('a, kern) outcome" where
  "with_proc f k = (case curproc k of None \<Rightarrow> Panic ''trap'' | Some p \<Rightarrow> f p k)"

section \<open>Scheduling\<close>

definition sched :: "kern \<Rightarrow> (unit, kern) outcome" where
  "sched k =
     (if \<not> holding PTABLE (km k) then Panic ''sched ptable.lock''
      else if ncli (this_cpu (km k)) \<noteq> 1 then Panic ''sched locks''
      else with_proc (\<lambda>p k.
        if pstate (ptable k ! p) = RUNNING then Panic ''sched running''
        else if iflag (this_cpu (km k)) then Panic ''sched interruptible''
        else Asleep k) k)"

text \<open>\<open>cpu->intena = intena\<close> once the process is switched to again.\<close>

definition sched_return :: "bool \<Rightarrow> kern \<Rightarrow> kern" where
  "sched_return ie k = k\<lparr>km := upd_cpu (\<lambda>c. c\<lparr>intena := ie\<rparr>) (km k)\<rparr>"

definition yield :: "kern \<Rightarrow> (unit, kern) outcome" where
  "yield k =
     bindR (kacquire PTABLE k) (\<lambda>_.
     with_proc (\<lambda>p k. sched (upd_proc p (\<lambda>q. q\<lparr>pstate := RUNNABLE\<rparr>) k)))"

definition yield_return :: "bool \<Rightarrow> kern \<Rightarrow> (unit, kern) outcome" where
  "yield_return ie k = krelease PTABLE (sched_return ie k)"

definition sleep :: "chan \<Rightarrow> lockid option \<Rightarrow> kern \<Rightarrow> (unit, kern) outcome" where
  "sleep ch lk k =
     (case curproc k of
        None \<Rightarrow> Panic ''sleep''
      | Some p \<Rightarrow>
          (case lk of
             None \<Rightarrow> Panic ''sleep without lk''
           | Some l \<Rightarrow>
               bindR (if l \<noteq> PTABLE
                      then bindR (kacquire PTABLE k) (\<lambda>_. krelease l)
                      else Ret () k) (\<lambda>_ k.
               sched (upd_proc p (\<lambda>q. q\<lparr>chan := Some ch, pstate := SLEEPING\<rparr>) k))))"

definition sleep_return :: "bool \<Rightarrow> lockid \<Rightarrow> kern \<Rightarrow> (unit, kern) outcome" where
  "sleep_return ie l k =
     with_proc (\<lambda>p k.
       let k = upd_proc p (\<lambda>q. q\<lparr>chan := None\<rparr>) k
       in if l \<noteq> PTABLE then bindR (krelease PTABLE k) (\<lambda>_. kacquire l) else Ret () k)
     (sched_return ie k)"

definition wakeup1 :: "chan option \<Rightarrow> kern \<Rightarrow> kern" where
  "wakeup1 ch k =
     k\<lparr>ptable := map (\<lambda>p. if pstate p = SLEEPING \<and> chan p = ch then p\<lparr>pstate := RUNNABLE\<rparr> else p)
                     (ptable k)\<rparr>"

definition wakeup :: "chan \<Rightarrow> kern \<Rightarrow> (unit, kern) outcome" where
  "wakeup ch k =
     bindR (kacquire PTABLE k) (\<lambda>_ k. krelease PTABLE (wakeup1 (Some ch) k))"

definition kill :: "int \<Rightarrow> kern \<Rightarrow> (int, kern) outcome" where
  "kill n k =
     bindR (kacquire PTABLE k) (\<lambda>_ k.
     case first_idx (\<lambda>p. pid p = n) (ptable k) of
       Some i \<Rightarrow>
         bindR (krelease PTABLE
           (upd_proc i (\<lambda>p. let p = p\<lparr>killed := True\<rparr>
                            in if pstate p = SLEEPING then p\<lparr>pstate := RUNNABLE\<rparr> else p) k))
         (\<lambda>_. Ret 0)
     | None \<Rightarrow> bindR (krelease PTABLE k) (\<lambda>_. Ret (- 1)))"

text \<open>\<open>v2p\<close> of \<open>src/memlayout.h\<close>; loading the register is \<open>lcr3\<close>.\<close>

definition v2p :: "u32 \<Rightarrow> u32" where
  "v2p a = a - KERNBASE"

definition p2v :: "u32 \<Rightarrow> u32" where
  "p2v a = a + KERNBASE"

definition switchkvm :: "kern \<Rightarrow> kern" where
  "switchkvm k = k\<lparr>km := upd_cpu (\<lambda>c. c\<lparr>cr3 := v2p (kpgdir k)\<rparr>) (km k)\<rparr>"

definition switchuvm :: "nat \<Rightarrow> kern \<Rightarrow> (unit, kern) outcome" where
  "switchuvm p k =
     (let k = k\<lparr>km := pushcli (km k)\<rparr>
      in with_proc (\<lambda>q k.
           let k = k\<lparr>km := upd_cpu (\<lambda>c. c\<lparr>ts_esp0 := kstack (ptable k ! q) + KSTACKSIZE\<rparr>) (km k)\<rparr>
           in if pgdir (ptable k ! p) = 0 then Panic ''switchuvm: no pgdir''
              else zoom km (\<lambda>m k. k\<lparr>km := m\<rparr>) popcli
                (k\<lparr>km := upd_cpu (\<lambda>c. c\<lparr>cr3 := v2p (pgdir (ptable k ! p))\<rparr>) (km k)\<rparr>)) k)"

text \<open>
  The body of the scheduler's loop for entry \<open>i\<close>, up to the switch into the process
  (\<open>Ret True\<close>: switched, \<open>Ret False\<close>: the entry was skipped), and what follows when the
  process switches back.
\<close>

definition scheduler_enter :: "nat \<Rightarrow> kern \<Rightarrow> (bool, kern) outcome" where
  "scheduler_enter i k =
     (if pstate (ptable k ! i) \<noteq> RUNNABLE then Ret False k
      else bindR (switchuvm i (set_curproc (Some i) k)) (\<lambda>_ k.
           Ret True (upd_proc i (\<lambda>p. p\<lparr>pstate := RUNNING\<rparr>) k)))"

definition scheduler_leave :: "kern \<Rightarrow> kern" where
  "scheduler_leave k = set_curproc None (switchkvm k)"

text \<open>One scan of the table from entry \<open>i\<close>: the first process switched to, if any.\<close>

fun scheduler_scan :: "nat list \<Rightarrow> kern \<Rightarrow> (nat option, kern) outcome" where
  "scheduler_scan [] k = Ret None k"
| "scheduler_scan (i # is) k =
     bindR (scheduler_enter i k) (\<lambda>b. if b then Ret (Some i) else scheduler_scan is)"

definition scheduler_loop :: "nat list \<Rightarrow> kern \<Rightarrow> (nat option, kern) outcome" where
  "scheduler_loop is k =
     bindR (scheduler_scan is k) (\<lambda>r k.
       case r of Some i \<Rightarrow> Ret (Some i) k | None \<Rightarrow> bindR (krelease PTABLE k) (\<lambda>_. Ret None))"

text \<open>One turn of the outer loop, and its continuation when process \<open>i\<close> switches back.\<close>

definition scheduler_pass :: "kern \<Rightarrow> (nat option, kern) outcome" where
  "scheduler_pass k =
     bindR (kacquire PTABLE (k\<lparr>km := sti (km k)\<rparr>)) (\<lambda>_. scheduler_loop [0..<NPROC])"

definition scheduler_back :: "nat \<Rightarrow> kern \<Rightarrow> (nat option, kern) outcome" where
  "scheduler_back i k = scheduler_loop [Suc i..<NPROC] (scheduler_leave k)"

section \<open>Locking and waking, as rules\<close>

definition kframe :: "kern \<Rightarrow> kern \<Rightarrow> bool" where
  "kframe k k' \<longleftrightarrow> mframe (km k) (km k') \<and> kern.truncate (k'\<lparr>km := km k\<rparr>) = kern.truncate k"

lemma kframe_sel:
  assumes "kframe k k'"
  shows "ptable k' = ptable k" "initproc k' = initproc k" "nextpid k' = nextpid k"
    "kpgdir k' = kpgdir k" "ticks k' = ticks k" "curproc k' = curproc k" "self (km k') = self (km k)"
    "ram k' = ram k" "use_lock k' = use_lock k" "freelist k' = freelist k" "syms k' = syms k" "con k' = con k" "pipes k' = pipes k"
  using assms by (auto simp: kframe_def kern.truncate_def mframe_def curproc_def this_cpu_def)

lemma kframe_refl [simp]: "kframe k k"
  by (simp add: kframe_def)

lemma kframe_trans: "kframe a b \<Longrightarrow> kframe b c \<Longrightarrow> kframe a c"
  by (auto simp: kframe_def kern.truncate_def intro: mframe_trans)

lemma kacquire_wp:
  assumes "hasl (km k) ls" "l \<notin> set ls"
  shows "wp (kacquire l k) (\<lambda>_ k'. hasl (km k') (l # ls) \<and> kframe k k')"
  using acquire_hasl [OF assms]
  by (auto simp: kacquire_def kframe_def kern.truncate_def elim: wp_mono)

lemma krelease_wp:
  assumes "hasl (km k) ls" "l \<in> set ls"
  shows "wp (krelease l k) (\<lambda>_ k'. hasl (km k') (remove1 l ls) \<and> kframe k k')"
  using release_hasl [OF assms]
  by (auto simp: krelease_def kframe_def kern.truncate_def elim: wp_mono)

lemma wakeup1_km [simp]: "km (wakeup1 ch k) = km k"
  by (simp add: wakeup1_def)

lemma wakeup_wp:
  assumes "hasl (km k) ls" "PTABLE \<notin> set ls"
  shows "wp (wakeup ch k) (\<lambda>_ k'. hasl (km k') ls \<and> kframe (wakeup1 (Some ch) k) k')"
proof -
  have rel: "wp (krelease PTABLE (wakeup1 (Some ch) k1))
      (\<lambda>_ k2. hasl (km k2) ls \<and> kframe (wakeup1 (Some ch) k) k2)"
    if "hasl (km k1) (PTABLE # ls)" "kframe k k1" for k1
  proof -
    have "kframe (wakeup1 (Some ch) k) (wakeup1 (Some ch) k1)"
      using that(2) by (auto simp: kframe_def kern.truncate_def wakeup1_def)
    then show ?thesis
      using krelease_wp [of "wakeup1 (Some ch) k1" "PTABLE # ls" PTABLE] that(1)
      by (auto elim!: wp_mono intro: kframe_trans)
  qed
  show ?thesis
    using kacquire_wp [OF assms] by (auto simp: wakeup_def elim!: wp_mono intro: rel)
qed

text \<open>
  \<open>sleep\<close> with one lock held gives up the processor: the process is asleep on the channel,
  the caller's lock is free and the table lock is held for the scheduler.
\<close>

lemma hasl_holding: "hasl m ls \<Longrightarrow> l \<in> set ls \<Longrightarrow> holding l m"
  by (simp add: hasl_def holding_def)

lemma sched_asleep:
  assumes "hasl (km k) [PTABLE]" "curproc k = Some p" "pstate (ptable k ! p) \<noteq> RUNNING"
  shows "sched k = Asleep k"
  using assms hasl_holding [OF assms(1), of PTABLE] by (simp add: sched_def with_proc_def hasl_def)

lemma sleep_asleep:
  assumes h: "hasl (km k) [l]" "l \<noteq> PTABLE" and p: "curproc k = Some p" "p < length (ptable k)"
  shows "\<exists>k'. sleep ch (Some l) k = Asleep k' \<and> hasl (km k') [PTABLE] \<and> curproc k' = Some p \<and>
    ptable k' = (ptable k)[p := (ptable k ! p)\<lparr>chan := Some ch, pstate := SLEEPING\<rparr>] \<and>
    nextpid k' = nextpid k \<and> initproc k' = initproc k"
proof -
  from kacquire_wp [OF h(1), of PTABLE] h(2) obtain k1 where
    k1: "kacquire PTABLE k = Ret () k1" "hasl (km k1) [PTABLE, l]" "kframe k k1"
    unfolding wp_iff by auto
  from krelease_wp [OF k1(2), of l] obtain k2 where
    k2: "krelease l k1 = Ret () k2" "hasl (km k2) (remove1 l [PTABLE, l])" "kframe k1 k2"
    unfolding wp_iff by auto
  have f: "kframe k k2" using k1(3) k2(3) by (rule kframe_trans)
  let ?k = "upd_proc p (\<lambda>q. q\<lparr>chan := Some ch, pstate := SLEEPING\<rparr>) k2"
  have "hasl (km ?k) [PTABLE]" using k2(2) h(2) by (simp add: upd_proc_def split: if_splits)
  moreover have "curproc ?k = Some p" using kframe_sel(6) [OF f] p(1) by (simp add: upd_proc_def curproc_def)
  moreover have pt: "ptable ?k = (ptable k)[p := (ptable k ! p)\<lparr>chan := Some ch, pstate := SLEEPING\<rparr>]"
    using kframe_sel(1) [OF f] by (simp add: upd_proc_def)
  ultimately show ?thesis
    using sched_asleep [of ?k p] k1(1) k2(1) h(2) p kframe_sel [OF f]
    by (simp add: sleep_def) (simp add: upd_proc_def)
qed

text \<open>A kernel at boot, before any process exists, for the examples.\<close>

definition unused_proc :: proc where
  "unused_proc = \<lparr>sz = 0, pgdir = 0, kstack = 0, pstate = UNUSED, pid = 0, parent = None,
     tf = \<lparr>tf_edi = 0, tf_esi = 0, tf_ebp = 0, tf_oesp = 0, tf_ebx = 0, tf_edx = 0, tf_ecx = 0, tf_eax = 0,
       tf_gs = 0, tf_fs = 0, tf_es = 0, tf_ds = 0, tf_trapno = 0, tf_err = 0, tf_eip = 0, tf_cs = 0,
       tf_eflags = 0, tf_esp = 0, tf_ss = 0\<rparr>,
     ctx = \<lparr>cx_edi = 0, cx_esi = 0, cx_ebx = 0, cx_ebp = 0, cx_eip = 0\<rparr>,
     chan = None, killed = False, ofile = replicate NOFILE None, cwd = None, pname = replicate 16 0\<rparr>"

definition mach0 :: mach where
  "mach0 = \<lparr>cpus = (\<lambda>_. \<lparr>ncli = 0, intena = False, iflag = False, cproc = None, cr3 = 0, ts_esp0 = 0\<rparr>),
     locks = (\<lambda>_. \<lparr>locked = 0, lname = [], lkcpu = None\<rparr>), self = 0\<rparr>"

definition kern0 :: kern where
  "kern0 = \<lparr>km = mach0, ptable = replicate NPROC unused_proc, initproc = None, nextpid = 1,
     kpgdir = 0, ticks = 0, ram = (\<lambda>_. 0), use_lock = True, freelist = 0,
     syms = \<lparr>sym_end = 0x80200000, sym_data = 0x80108000, sym_forkret = 0x80104000, sym_trapret = 0x80105000,
       sym_initcode = []\<rparr>,
     con = console0, pipes = (\<lambda>_. None)\<rparr>"

lemma kern0_hasl: "hasl (km kern0) []"
  by (simp add: kern0_def mach0_def hasl_def this_cpu_def)

section \<open>Choosing processes\<close>

text \<open>The state in which the scheduler looks for a process while process \<open>j\<close> waits for its turn.\<close>

definition ready :: "nat \<Rightarrow> kern \<Rightarrow> bool" where
  "ready j k \<longleftrightarrow> hasl (km k) [PTABLE] \<and> length (ptable k) = NPROC \<and> pstate (ptable k ! j) = RUNNABLE \<and>
     (\<forall>p \<in> set (ptable k). pstate p = RUNNABLE \<longrightarrow> pgdir p \<noteq> 0)"

text \<open>
  The processes that one turn of the scheduler's outer loop switches to, in order, when \<open>run i\<close>
  is what process \<open>i\<close> does until it switches back.
\<close>

fun sweep :: "nat \<Rightarrow> (nat \<Rightarrow> kern \<Rightarrow> kern) \<Rightarrow> (nat option, kern) outcome \<Rightarrow> nat list" where
  "sweep 0 run m = []"
| "sweep (Suc n) run m =
     (case m of Ret (Some i) k \<Rightarrow> i # sweep n run (scheduler_back i (run i k)) | _ \<Rightarrow> [])"

lemma switchuvm_wp:
  assumes h: "hasl (km k) ls" "ls \<noteq> []" and p: "curproc k = Some p" "pgdir (ptable k ! p) \<noteq> 0"
  shows "wp (switchuvm p k) (\<lambda>_ k'. hasl (km k') ls \<and> curproc k' = Some p \<and> k' = k\<lparr>km := km k'\<rparr> \<and> ptable k' = ptable k \<and>
    cr3 (this_cpu (km k')) = v2p (pgdir (ptable k ! p)) \<and> ts_esp0 (this_cpu (km k')) = kstack (ptable k ! p) + KSTACKSIZE)"
  using assms
  by (auto simp: switchuvm_def with_proc_def curproc_def hasl_def mach_defs)

lemma scheduler_enter_wp:
  assumes h: "hasl (km k) [PTABLE]" and i: "i < length (ptable k)" "pstate (ptable k ! i) = RUNNABLE" "pgdir (ptable k ! i) \<noteq> 0"
  shows "wp (scheduler_enter i k) (\<lambda>r k'. r \<and> hasl (km k') [PTABLE] \<and> curproc k' = Some i \<and>
    k' = k\<lparr>km := km k', ptable := (ptable k)[i := (ptable k ! i)\<lparr>pstate := RUNNING\<rparr>]\<rparr> \<and>
    cr3 (this_cpu (km k')) = v2p (pgdir (ptable k ! i)))"
proof -
  let ?k = "set_curproc (Some i) k"
  have sel: "ptable ?k = ptable k" "hasl (km ?k) [PTABLE]" "curproc ?k = Some i"
    using h by (simp_all add: set_curproc_def curproc_def hasl_def this_cpu_def upd_cpu_def)
  have "wp (switchuvm i ?k) (\<lambda>_ k'. hasl (km k') [PTABLE] \<and> curproc k' = Some i \<and> k' = ?k\<lparr>km := km k'\<rparr> \<and> ptable k' = ptable k \<and>
      cr3 (this_cpu (km k')) = v2p (pgdir (ptable k ! i)))"
    using switchuvm_wp [of ?k "[PTABLE]" i] sel i by (auto elim: wp_mono)
  then show ?thesis
    using i by (auto simp: scheduler_enter_def upd_proc_def set_curproc_def curproc_def elim!: wp_mono)
qed

lemma scheduler_scan_wp:
  assumes "ready j k" "j \<in> set is" "set is \<subseteq> {..<NPROC}" "sorted_wrt (<) is"
  shows "wp (scheduler_scan is k) (\<lambda>r k'. \<exists>i. r = Some i \<and> i \<in> set is \<and> i \<le> j \<and> pstate (ptable k ! i) = RUNNABLE \<and>
    curproc k' = Some i \<and> hasl (km k') [PTABLE] \<and>
    k' = k\<lparr>km := km k', ptable := (ptable k)[i := (ptable k ! i)\<lparr>pstate := RUNNING\<rparr>]\<rparr> \<and>
    cr3 (this_cpu (km k')) = v2p (pgdir (ptable k ! i)))"
  using assms
proof (induction "is")
  case (Cons i "is")
  show ?case
  proof (cases "pstate (ptable k ! i) = RUNNABLE")
    case True
    then have "pgdir (ptable k ! i) \<noteq> 0" "hasl (km k) [PTABLE]" "i < length (ptable k)"
      using Cons.prems(1,3) by (auto simp: ready_def)
    moreover have "i \<le> j" using Cons.prems(2,4) by auto
    ultimately show ?thesis
      using scheduler_enter_wp [of k i] True by (auto elim!: wp_mono)
  next
    case False
    then have "j \<in> set is" using Cons.prems(1,2) by (auto simp: ready_def)
    then show ?thesis
      using Cons False by (auto simp: scheduler_enter_def elim!: wp_mono)
  qed
qed simp

lemma scheduler_leave_ready: "ready j (scheduler_leave k) = ready j k"
  by (auto simp: ready_def scheduler_leave_def set_curproc_def switchkvm_def hasl_def mach_defs)

lemma sweep_reaches:
  assumes run: "\<And>i k. i \<noteq> j \<Longrightarrow> curproc k = Some i \<Longrightarrow> pstate (ptable k ! i) = RUNNING \<Longrightarrow> ready j k \<Longrightarrow> ready j (run i k)"
    and "ready j k" "a \<le> j" "j < NPROC" "NPROC - a \<le> n"
  shows "j \<in> set (sweep n run (scheduler_loop [a..<NPROC] k))"
  using assms(2-)
proof (induction n arbitrary: a k)
  case (Suc n)
  from scheduler_scan_wp [OF Suc.prems(1), of "[a..<NPROC]"] Suc.prems(2,3) obtain i k' where
    i: "scheduler_scan [a..<NPROC] k = Ret (Some i) k'" "i \<in> {a..<NPROC}" "i \<le> j" "curproc k' = Some i" "hasl (km k') [PTABLE]"
      "k' = k\<lparr>km := km k', ptable := (ptable k)[i := (ptable k ! i)\<lparr>pstate := RUNNING\<rparr>]\<rparr>"
    by (auto simp: wp_iff subset_eq)
  have loop: "scheduler_loop [a..<NPROC] k = Ret (Some i) k'" using i(1) by (simp add: scheduler_loop_def)
  have len: "i < length (ptable k)" using i(2) Suc.prems(1) by (simp add: ready_def)
  have pt: "ptable k' = (ptable k)[i := (ptable k ! i)\<lparr>pstate := RUNNING\<rparr>]"
    by (subst i(6)) simp
  show ?case
  proof (cases "i = j")
    case False
    have "ready j k'" using Suc.prems(1) i(5) False unfolding ready_def pt
      by (auto dest!: set_update_subset_insert [THEN subsetD])
    then have "ready j (run i k')" using run [OF False i(4)] pt len by simp
    then have "j \<in> set (sweep n run (scheduler_loop [Suc i..<NPROC] (scheduler_leave (run i k'))))"
      using i(2,3) False Suc.prems(3,4) by (intro Suc.IH) (auto simp: scheduler_leave_ready)
    then show ?thesis unfolding loop by (simp add: scheduler_back_def)
  qed (simp add: loop)
qed simp

lemma scheduler_scan_mem: "scheduler_scan is k = Ret (Some i) k' \<Longrightarrow> i \<in> set is"
  by (induction "is" k rule: scheduler_scan.induct) (auto split: if_splits)

lemma scheduler_loop_mem: "scheduler_loop is k = Ret (Some i) k' \<Longrightarrow> i \<in> set is"
  by (auto simp: scheduler_loop_def dest: scheduler_scan_mem split: option.splits)

lemma sweep_sorted:
  "set is \<subseteq> {a..<NPROC} \<Longrightarrow> is = [a..<NPROC] \<Longrightarrow> set (sweep n run (scheduler_loop is k)) \<subseteq> {a..<NPROC} \<and> sorted_wrt (<) (sweep n run (scheduler_loop is k))"
proof (induction n arbitrary: a k "is")
  case (Suc n)
  show ?case
  proof (cases "\<exists>i k'. scheduler_loop is k = Ret (Some i) k'")
    case True
    then obtain i k' where i: "scheduler_loop is k = Ret (Some i) k'" by blast
    have "a \<le> i" "i < NPROC" using scheduler_loop_mem [OF i] Suc.prems(2) by auto
    then show ?thesis
      using Suc.IH [of "[Suc i..<NPROC]" "Suc i" "scheduler_leave (run i k')"] by (auto simp: i scheduler_back_def)
  qed (auto split: outcome.split option.split)
qed simp

text \<open>
  C4. No process starves: in one turn of the scheduler's loop every runnable process gets the
  processor, whatever the processes that run before it do, as long as they keep to the protocol
  (they switch back with the table lock held and leave the waiting process runnable). No process
  runs twice in a turn.
\<close>

theorem scheduler_no_starvation:
  assumes "hasl (km k) []" "length (ptable k) = NPROC" "\<forall>p \<in> set (ptable k). pstate p = RUNNABLE \<longrightarrow> pgdir p \<noteq> 0"
    and "j < NPROC" "pstate (ptable k ! j) = RUNNABLE"
    and "\<And>i k. i \<noteq> j \<Longrightarrow> curproc k = Some i \<Longrightarrow> pstate (ptable k ! i) = RUNNING \<Longrightarrow> ready j k \<Longrightarrow> ready j (run i k)"
  shows "j \<in> set (sweep NPROC run (scheduler_pass k)) \<and> distinct (sweep NPROC run (scheduler_pass k))"
proof -
  let ?k = "k\<lparr>km := sti (km k)\<rparr>"
  have "hasl (km ?k) []" using assms(1) by (simp add: hasl_def mach_defs)
  then obtain k1 where k1: "kacquire PTABLE ?k = Ret () k1" "hasl (km k1) [PTABLE]" "kframe ?k k1"
    using kacquire_wp [of ?k "[]" PTABLE] by (auto simp: wp_iff)
  have "ready j k1" using k1(2) kframe_sel(1) [OF k1(3)] assms by (simp add: ready_def)
  then have "j \<in> set (sweep NPROC run (scheduler_loop [0..<NPROC] k1))"
    using assms(4,6) by (intro sweep_reaches) auto
  moreover have "distinct (sweep NPROC run (scheduler_loop [0..<NPROC] k1))"
    using sweep_sorted [of "[0..<NPROC]" 0 NPROC run k1] by (simp add: strict_sorted_iff)
  ultimately show ?thesis by (simp add: scheduler_pass_def k1(1))
qed

text \<open>Two processes that yield at once.\<close>

definition two_runnable :: kern where
  "two_runnable = kern0\<lparr>ptable := (ptable kern0)[3 := unused_proc\<lparr>pstate := RUNNABLE, pgdir := 1\<rparr>,
     5 := unused_proc\<lparr>pstate := RUNNABLE, pgdir := 1\<rparr>]\<rparr>"

theorem scheduler_no_starvation_witness:
  "5 \<in> set (sweep NPROC (\<lambda>i. upd_proc i (\<lambda>p. p\<lparr>pstate := SLEEPING\<rparr>)) (scheduler_pass two_runnable))"
proof -
  have "ready 5 (upd_proc i (\<lambda>p. p\<lparr>pstate := SLEEPING\<rparr>) k)" if "i \<noteq> 5" "ready 5 k" for i k
    using that by (auto simp: ready_def upd_proc_def dest!: set_update_subset_insert [THEN subsetD])
  moreover have "pstate p = RUNNABLE \<longrightarrow> pgdir p \<noteq> 0" if "p \<in> set (ptable two_runnable)" for p
    using that by (auto simp: two_runnable_def kern0_def unused_proc_def simp del: replicate.simps
      dest!: set_update_subset_insert [THEN subsetD])
  moreover have "length (ptable two_runnable) = NPROC" "pstate (ptable two_runnable ! 5) = RUNNABLE" "hasl (km two_runnable) []" "5 < NPROC"
    using kern0_hasl by (simp_all add: two_runnable_def kern0_def NPROC_def del: replicate.simps)
  ultimately show ?thesis
    using scheduler_no_starvation [of two_runnable 5 "\<lambda>i. upd_proc i (\<lambda>p. p\<lparr>pstate := SLEEPING\<rparr>)"] by blast
qed

section \<open>Sleeping and waking\<close>


definition running0 :: "nat \<Rightarrow> kern" where
  "running0 p = set_curproc (Some p) kern0"

lemma running0_facts: "hasl (km (running0 p)) []" "curproc (running0 p) = Some p" "ptable (running0 p) = replicate NPROC unused_proc"
  using kern0_hasl by (simp_all add: running0_def set_curproc_def curproc_def hasl_def mach_defs kern0_def)




end
