(* ===== verification/Bio.thy ===== *)
theory Bio
  imports Sched
begin

text \<open>
  The buffer cache (\<open>src/bio.c\<close>, \<open>struct buf\<close> of \<open>src/buf.h\<close>) over the disk interface
  \<open>iderw\<close> of \<open>src/memide.c\<close>. The cache is the array of buffers followed by the list head,
  linked through \<open>prev\<close> and \<open>next\<close> indices exactly as the source links its pointers; the flag
  word is its three bits. Every write that reaches the disk is also appended to \<open>writes\<close>, the
  history that crash arguments refer to.
  The lemmas show that the pointer manipulations maintain a doubly linked ring, that at most one
  buffer caches a block, and the contract of \<open>bread\<close>, \<open>bwrite\<close> and \<open>brelse\<close> in terms of the
  block contents a client sees.
\<close>

section \<open>State\<close>

definition BSIZE :: nat where "BSIZE = 512"
definition NBUF :: nat where "NBUF = 30"

text \<open>The index of \<open>bcache.head\<close>.\<close>

abbreviation HEAD :: nat where "HEAD \<equiv> NBUF"

record buf =
  busy :: bool
  valid :: bool
  dirty :: bool
  bdev :: nat
  blockno :: nat
  bprev :: nat
  bnext :: nat
  bdata :: bytes

record bio =
  bk :: kern
  bufs :: "buf list"
  disk :: "nat \<Rightarrow> bytes"
  disksize :: nat
  writes :: "(nat \<times> bytes) list"

definition on_kern :: "(kern \<Rightarrow> ('a, kern) outcome) \<Rightarrow> bio \<Rightarrow> ('a, bio) outcome" where
  "on_kern = zoom bk (\<lambda>k s. s\<lparr>bk := k\<rparr>)"

definition setb :: "nat \<Rightarrow> (buf \<Rightarrow> buf) \<Rightarrow> buf list \<Rightarrow> buf list" where
  "setb i f bs = bs[i := f (bs ! i)]"

definition upd_buf :: "nat \<Rightarrow> (buf \<Rightarrow> buf) \<Rightarrow> bio \<Rightarrow> bio" where
  "upd_buf i f s = s\<lparr>bufs := setb i f (bufs s)\<rparr>"

section \<open>The disk\<close>

definition iderw :: "nat \<Rightarrow> bio \<Rightarrow> (unit, bio) outcome" where
  "iderw i s =
     (let b = bufs s ! i in
      if \<not> busy b then Panic ''iderw: buf not busy''
      else if valid b \<and> \<not> dirty b then Panic ''iderw: nothing to do''
      else if bdev b \<noteq> 1 then Panic ''iderw: request not for disk 1''
      else if blockno b \<ge> disksize s then Panic ''iderw: block out of range''
      else Ret () (upd_buf i (\<lambda>b. b\<lparr>valid := True\<rparr>)
        (if dirty b
         then upd_buf i (\<lambda>b. b\<lparr>dirty := False\<rparr>)
                (s\<lparr>disk := (disk s)(blockno b := bdata b), writes := writes s @ [(blockno b, bdata b)]\<rparr>)
         else upd_buf i (\<lambda>x. x\<lparr>bdata := disk s (blockno b)\<rparr>) s)))"

section \<open>bio.c\<close>

text \<open>The four assignments that put buffer \<open>b\<close> at the front of the ring.\<close>

definition link_front :: "nat \<Rightarrow> buf list \<Rightarrow> buf list" where
  "link_front b bs =
     (let bs = setb b (\<lambda>x. x\<lparr>bnext := bnext (bs ! HEAD)\<rparr>) bs;
          bs = setb b (\<lambda>x. x\<lparr>bprev := HEAD\<rparr>) bs;
          bs = setb (bnext (bs ! HEAD)) (\<lambda>x. x\<lparr>bprev := b\<rparr>) bs
      in setb HEAD (\<lambda>x. x\<lparr>bnext := b\<rparr>) bs)"

definition unlink_buf :: "nat \<Rightarrow> buf list \<Rightarrow> buf list" where
  "unlink_buf b bs =
     (let bs = setb (bnext (bs ! b)) (\<lambda>x. x\<lparr>bprev := bprev (bs ! b)\<rparr>) bs
      in setb (bprev (bs ! b)) (\<lambda>x. x\<lparr>bnext := bnext (bs ! b)\<rparr>) bs)"

definition binit :: "bio \<Rightarrow> bio" where
  "binit s =
     (let s = s\<lparr>bk := (bk s)\<lparr>km := initlock BCACHE ''bcache'' (km (bk s))\<rparr>\<rparr>;
          s = upd_buf HEAD (\<lambda>h. h\<lparr>bprev := HEAD, bnext := HEAD\<rparr>) s
      in s\<lparr>bufs := fold (\<lambda>b bs. link_front b (setb b (\<lambda>x. x\<lparr>bdev := 2 ^ 32 - 1\<rparr>) bs)) [0..<NBUF] (bufs s)\<rparr>)"

text \<open>
  A scan of the ring in one direction, from buffer \<open>i\<close> to the head: the first buffer with
  \<open>P\<close>, if any; the outer \<open>None\<close> is a scan that never meets the head.
\<close>

fun scan :: "nat \<Rightarrow> (buf \<Rightarrow> nat) \<Rightarrow> (buf \<Rightarrow> bool) \<Rightarrow> nat \<Rightarrow> buf list \<Rightarrow> nat option option" where
  "scan 0 nxt P i bs = None"
| "scan (Suc fuel) nxt P i bs =
     (if i = HEAD then Some None
      else if P (bs ! i) then Some (Some i)
      else scan fuel nxt P (nxt (bs ! i)) bs)"

definition bget :: "nat \<Rightarrow> nat \<Rightarrow> bio \<Rightarrow> (nat, bio) outcome" where
  "bget dev bno s =
     bindR (on_kern (kacquire BCACHE) s) (\<lambda>_ s.
     case scan (Suc NBUF) bnext (\<lambda>b. bdev b = dev \<and> blockno b = bno) (bnext (bufs s ! HEAD)) (bufs s) of
       None \<Rightarrow> Diverge
     | Some (Some b) \<Rightarrow>
         if \<not> busy (bufs s ! b)
         then bindR (on_kern (krelease BCACHE) (upd_buf b (\<lambda>x. x\<lparr>busy := True\<rparr>) s)) (\<lambda>_. Ret b)
         else bindR (on_kern (sleep (ChBuf b) (Some BCACHE)) s) (\<lambda>_ s. Asleep s)
     | Some None \<Rightarrow>
         (case scan (Suc NBUF) bprev (\<lambda>b. \<not> busy b \<and> \<not> dirty b) (bprev (bufs s ! HEAD)) (bufs s) of
            None \<Rightarrow> Diverge
          | Some (Some b) \<Rightarrow>
              bindR (on_kern (krelease BCACHE)
                (upd_buf b (\<lambda>x. x\<lparr>bdev := dev, blockno := bno, busy := True, valid := False, dirty := False\<rparr>) s))
                (\<lambda>_. Ret b)
          | Some None \<Rightarrow> Panic ''bget: no buffers''))"

definition bread :: "nat \<Rightarrow> nat \<Rightarrow> bio \<Rightarrow> (nat, bio) outcome" where
  "bread dev bno s =
     bindR (bget dev bno s) (\<lambda>b s.
     if \<not> valid (bufs s ! b) then bindR (iderw b s) (\<lambda>_. Ret b) else Ret b s)"

definition bwrite :: "nat \<Rightarrow> bio \<Rightarrow> (unit, bio) outcome" where
  "bwrite b s =
     (if \<not> busy (bufs s ! b) then Panic ''bwrite''
      else iderw b (upd_buf b (\<lambda>x. x\<lparr>dirty := True\<rparr>) s))"

definition brelse :: "nat \<Rightarrow> bio \<Rightarrow> (unit, bio) outcome" where
  "brelse b s =
     (if \<not> busy (bufs s ! b) then Panic ''brelse''
      else bindR (on_kern (kacquire BCACHE) s) (\<lambda>_ s.
        let s = s\<lparr>bufs := link_front b (unlink_buf b (bufs s))\<rparr>;
            s = upd_buf b (\<lambda>x. x\<lparr>busy := False\<rparr>) s
        in bindR (on_kern (wakeup (ChBuf b)) s) (\<lambda>_. on_kern (krelease BCACHE))))"

section \<open>The ring\<close>

text \<open>\<open>ring nx pv x l y\<close>: following \<open>nx\<close> from \<open>x\<close> visits \<open>l\<close> and ends at \<open>y\<close>; \<open>pv\<close> leads back.\<close>

fun ring :: "(nat \<Rightarrow> nat) \<Rightarrow> (nat \<Rightarrow> nat) \<Rightarrow> nat \<Rightarrow> nat list \<Rightarrow> nat \<Rightarrow> bool" where
  "ring nx pv x [] y \<longleftrightarrow> nx x = y \<and> pv y = x"
| "ring nx pv x (a # l) y \<longleftrightarrow> nx x = a \<and> pv a = x \<and> ring nx pv a l y"

definition nxf :: "buf list \<Rightarrow> nat \<Rightarrow> nat" where "nxf bs i = bnext (bs ! i)"
definition pvf :: "buf list \<Rightarrow> nat \<Rightarrow> nat" where "pvf bs i = bprev (bs ! i)"

text \<open>The buffers in order of last use, the most recent one first.\<close>

definition lru :: "buf list \<Rightarrow> nat list \<Rightarrow> bool" where
  "lru bs l \<longleftrightarrow> length bs = Suc NBUF \<and> distinct l \<and> set l = {..<NBUF} \<and>
     ring (nxf bs) (pvf bs) HEAD l HEAD"

lemma ring_append:
  "ring nx pv x (l1 @ a # l2) y \<longleftrightarrow> ring nx pv x l1 a \<and> ring nx pv a l2 y"
  by (induction l1 arbitrary: x) auto

lemma ring_ends: "ring nx pv x l y \<Longrightarrow> nx x = hd (l @ [y]) \<and> pv y = last (x # l)"
  by (induction l arbitrary: x) auto

lemma ring_upd_nx: "i \<notin> set (x # l) \<Longrightarrow> ring (nx(i := v)) pv x l y = ring nx pv x l y"
  by (induction l arbitrary: x) auto

lemma ring_upd_pv: "i \<notin> set (l @ [y]) \<Longrightarrow> ring nx (pv(i := v)) x l y = ring nx pv x l y"
  by (induction l arbitrary: x) auto

text \<open>Redirecting the last link of a segment to a new end.\<close>

lemma ring_new_end:
  assumes "ring nx pv x l y" "distinct (x # l)" "z \<notin> set l"
  shows "ring (nx(last (x # l) := z)) (pv(z := last (x # l))) x l z"
  using assms
proof (induction l arbitrary: x)
  case Nil
  then show ?case by simp
next
  case (Cons a l)
  define e where "e = last (a # l)"
  have "ring (nx(e := z)) (pv(z := e)) a l z"
    unfolding e_def using Cons.prems by (intro Cons.IH) auto
  moreover have "x \<noteq> e"
    using Cons.prems(2) last_in_set [of "a # l"] by (auto simp: e_def)
  moreover have e: "last (x # a # l) = e" by (simp add: e_def)
  ultimately show ?case unfolding e using Cons.prems by (auto simp: fun_upd_def)
qed

lemma ring_unlink:
  assumes "ring nx pv x (l1 @ b # l2) y" "distinct (x # l1 @ b # l2)" "y \<notin> set (l1 @ b # l2)"
  shows "ring (nx(pv b := nx b)) (pv(nx b := pv b)) x (l1 @ l2) y"
proof -
  have r1: "ring nx pv x l1 b" and r2: "ring nx pv b l2 y"
    using assms(1) by (auto simp: ring_append)
  have p: "pv b = last (x # l1)" and n: "nx b = hd (l2 @ [y])"
    using ring_ends [OF r1] ring_ends [OF r2] by auto
  show ?thesis
  proof (cases l2)
    case Nil
    then show ?thesis
      using ring_new_end [OF r1, of y] assms(2,3) p n by simp
  next
    case (Cons c l3)
    have 1: "ring (nx(pv b := c)) (pv(c := pv b)) x l1 c"
      using ring_new_end [OF r1, of c] assms(2) Cons p by auto
    have "pv b \<in> set (x # l1)"
      unfolding p by (rule last_in_set) simp
    then have "pv b \<notin> set (c # l3)" "c \<notin> set (l3 @ [y])"
      using assms(2,3) Cons by auto
    moreover have "ring nx pv c l3 y" using r2 Cons by simp
    ultimately have "ring (nx(pv b := c)) (pv(c := pv b)) c l3 y"
      by (simp only: ring_upd_nx ring_upd_pv not_False_eq_True)
    with 1 show ?thesis using Cons n by (simp add: ring_append)
  qed
qed

lemma ring_link:
  assumes "ring nx pv h l h" "b \<noteq> h" "b \<notin> set l" "distinct (h # l)"
  shows "ring (nx(b := nx h, h := b)) (pv(b := h, nx h := b)) h (b # l) h"
proof (cases l)
  case Nil
  then show ?thesis using assms by auto
next
  case (Cons a l')
  then have "ring nx pv a l' h" "nx h = a" using assms(1) by auto
  then have "ring (nx(b := a, h := b)) (pv(b := h, a := b)) a l' h"
    using assms Cons by (simp add: ring_upd_nx ring_upd_pv)
  then show ?thesis using Cons assms \<open>nx h = a\<close> by auto
qed

lemma length_setb [simp]: "length (setb i f bs) = length bs"
  by (simp add: setb_def)

lemma nxf_setb:
  "i < length bs \<Longrightarrow> nxf (setb i f bs) = (nxf bs)(i := bnext (f (bs ! i)))"
  by (auto simp: nxf_def setb_def nth_list_update_cases fun_eq_iff)

lemma pvf_setb:
  "i < length bs \<Longrightarrow> pvf (setb i f bs) = (pvf bs)(i := bprev (f (bs ! i)))"
  by (auto simp: pvf_def setb_def nth_list_update_cases fun_eq_iff)

lemma nth_setb: "setb i f bs ! j = (if i = j \<and> j < length bs then f (bs ! j) else bs ! j)"
  by (auto simp: setb_def nth_list_update_cases)

lemmas link_folds = nxf_def [symmetric] pvf_def [symmetric]

lemma link_front_fields:
  assumes "b \<noteq> HEAD" "b < length bs" "HEAD < length bs" "nxf bs HEAD < length bs"
  shows "nxf (link_front b bs) = (nxf bs)(b := nxf bs HEAD, HEAD := b)"
    and "pvf (link_front b bs) = (pvf bs)(b := HEAD, nxf bs HEAD := b)"
  using assms
  by (simp_all add: link_front_def Let_def link_folds nxf_setb pvf_setb) (auto simp: fun_eq_iff)

lemma unlink_buf_fields:
  assumes "nxf bs b \<noteq> b" "b < length bs" "nxf bs b < length bs" "pvf bs b < length bs"
  shows "nxf (unlink_buf b bs) = (nxf bs)(pvf bs b := nxf bs b)"
    and "pvf (unlink_buf b bs) = (pvf bs)(nxf bs b := pvf bs b)"
  using assms
  by (simp_all add: unlink_buf_def Let_def link_folds nxf_setb pvf_setb) (auto simp: fun_eq_iff)

lemma length_link_front [simp]: "length (link_front b bs) = length bs"
  by (simp add: link_front_def Let_def)

lemma length_unlink_buf [simp]: "length (unlink_buf b bs) = length bs"
  by (simp add: unlink_buf_def Let_def)

text \<open>Everything but the links of a buffer.\<close>

definition payload :: "buf \<Rightarrow> bool \<times> bool \<times> bool \<times> nat \<times> nat \<times> bytes" where
  "payload b = (busy b, valid b, dirty b, bdev b, blockno b, bdata b)"

lemma payload_setb:
  "(\<And>x. payload (f x) = payload x) \<Longrightarrow> payload (setb i f bs ! j) = payload (bs ! j)"
  by (simp add: nth_setb)

lemma payload_links [simp]:
  "payload (x\<lparr>bnext := v\<rparr>) = payload x" "payload (x\<lparr>bprev := v\<rparr>) = payload x"
  by (simp_all add: payload_def)

lemma payload_link [simp]:
  "payload (link_front b bs ! j) = payload (bs ! j)"
  "payload (unlink_buf b bs ! j) = payload (bs ! j)"
  by (simp_all add: link_front_def unlink_buf_def Let_def payload_setb)

lemma ring_range: "ring nx pv x l y \<Longrightarrow> i \<in> set (x # l) \<Longrightarrow> nx i \<in> set (l @ [y])"
  by (induction l arbitrary: x) auto

lemma ring_range_pv: "ring nx pv x l y \<Longrightarrow> i \<in> set (l @ [y]) \<Longrightarrow> pv i \<in> set (x # l)"
  by (induction l arbitrary: x) auto

lemma lru_move_front:
  assumes "lru bs l" "b < NBUF"
  shows "lru (link_front b (unlink_buf b bs)) (b # remove1 b l)"
proof -
  have len: "length bs = Suc NBUF" and dis: "distinct l" and set: "set l = {..<NBUF}"
    and r: "ring (nxf bs) (pvf bs) HEAD l HEAD"
    using assms(1) by (auto simp: lru_def)
  obtain l1 l2 where l: "l = l1 @ b # l2" and b1: "b \<notin> set l1"
    using assms(2) set split_list_first [of b l] by auto
  have rem: "remove1 b l = l1 @ l2" using l b1 by (simp add: remove1_append)
  have H: "HEAD \<notin> set l" using set by auto
  have bl: "b \<in> set l" using assms(2) set by auto
  have rng: "i < length bs" if "i \<in> insert HEAD (set l)" for i
    using that unfolding set len by (simp add: less_Suc_eq) blast
  have nb: "nxf bs b \<in> insert HEAD (set l)"
    using ring_range [OF r, of b] bl by simp
  have pb: "pvf bs b \<in> insert HEAD (set l)"
    using ring_range_pv [OF r, of b] bl by simp
  have "ring (nxf bs) (pvf bs) b l2 HEAD"
    using r unfolding l ring_append by simp
  then have "nxf bs b \<in> set (l2 @ [HEAD])"
    by (rule ring_range) simp
  then have nbb: "nxf bs b \<noteq> b" using dis H l by auto
  let ?bs = "unlink_buf b bs"
  note f = unlink_buf_fields [OF nbb rng rng [OF nb] rng [OF pb]]
  have f1: "nxf ?bs = (nxf bs)(pvf bs b := nxf bs b)" using bl by (intro f) simp
  have f2: "pvf ?bs = (pvf bs)(nxf bs b := pvf bs b)" using bl by (intro f) simp
  have r1: "ring (nxf ?bs) (pvf ?bs) HEAD (l1 @ l2) HEAD"
    unfolding f1 f2 by (rule ring_unlink) (use r dis H l in simp_all)
  have "nxf ?bs HEAD \<in> set ((l1 @ l2) @ [HEAD])"
    using r1 by (rule ring_range) simp
  then have n1: "nxf ?bs HEAD < length ?bs"
    using l by (simp, intro rng) auto
  have b0: "b \<noteq> HEAD" "b < length ?bs" "HEAD < length ?bs"
    using assms(2) len by simp_all
  note g = link_front_fields [OF b0 n1]
  have "ring (nxf (link_front b ?bs)) (pvf (link_front b ?bs)) HEAD (b # l1 @ l2) HEAD"
    unfolding g by (rule ring_link [OF r1]) (use dis H l assms(2) in auto)
  then show ?thesis
    unfolding lru_def rem using len dis set l by auto
qed

text \<open>The ring reads only the links, so other updates keep it.\<close>

lemma lru_setb_payload:
  assumes "\<And>x. bnext (f x) = bnext x" "\<And>x. bprev (f x) = bprev x"
  shows "lru (setb i f bs) l = lru bs l"
proof -
  have "nxf (setb i f bs) = nxf bs" "pvf (setb i f bs) = pvf bs"
    using assms by (auto simp: nxf_def pvf_def nth_setb fun_eq_iff)
  then show ?thesis by (simp add: lru_def)
qed

lemma ring_binit:
  assumes "length bs = Suc NBUF" "n \<le> NBUF" "ring (nxf bs) (pvf bs) HEAD [] HEAD"
  shows "let bs' = fold (\<lambda>b bs. link_front b (setb b (\<lambda>x. x\<lparr>bdev := d\<rparr>) bs)) [0..<n] bs
         in length bs' = Suc NBUF \<and> ring (nxf bs') (pvf bs') HEAD (rev [0..<n]) HEAD"
  using assms(2)
proof (induction n)
  case 0
  then show ?case using assms by simp
next
  case (Suc n)
  let ?f = "\<lambda>b bs. link_front b (setb b (\<lambda>x. x\<lparr>bdev := d\<rparr>) bs)"
  let ?b0 = "fold ?f [0..<n] bs"
  let ?b1 = "setb n (\<lambda>x. x\<lparr>bdev := d\<rparr>) ?b0"
  have ih: "length ?b0 = Suc NBUF" "ring (nxf ?b0) (pvf ?b0) HEAD (rev [0..<n]) HEAD"
    using Suc by (auto simp: Let_def)
  have same: "nxf ?b1 = nxf ?b0" "pvf ?b1 = pvf ?b0"
    using ih(1) Suc.prems by (auto simp: nxf_setb pvf_setb nxf_def pvf_def)
  have "nxf ?b0 HEAD \<in> set (rev [0..<n] @ [HEAD])"
    using ring_range [OF ih(2)] by simp
  then have "nxf ?b1 HEAD < length ?b1" using ih(1) same Suc.prems by auto
  then have g: "nxf (link_front n ?b1) = (nxf ?b1)(n := nxf ?b1 HEAD, HEAD := n)"
      "pvf (link_front n ?b1) = (pvf ?b1)(n := HEAD, nxf ?b1 HEAD := n)"
    using link_front_fields [of n ?b1] ih(1) Suc.prems by auto
  have "ring (nxf (link_front n ?b1)) (pvf (link_front n ?b1)) HEAD (n # rev [0..<n]) HEAD"
    unfolding g same using ih(2) Suc.prems by (intro ring_link) auto
  then show ?case using ih(1) by (simp add: Let_def)
qed

text \<open>A scan of a ring visits its buffers in order and ends.\<close>

lemma scan_ring:
  assumes "ring (nxf bs) pv x l HEAD" "HEAD \<notin> set l" "length l < fuel"
  shows "scan fuel bnext P (nxf bs x) bs = Some (List.find (\<lambda>i. P (bs ! i)) l)"
  using assms
proof (induction l arbitrary: x fuel)
  case Nil
  then show ?case by (cases fuel) auto
next
  case (Cons a l)
  then obtain f where f: "fuel = Suc f" by (cases fuel) auto
  have "nxf bs x = a" using Cons.prems by simp
  moreover have "scan f bnext P (nxf bs a) bs = Some (List.find (\<lambda>i. P (bs ! i)) l)"
    using Cons.prems f by (intro Cons.IH) auto
  ultimately show ?case using Cons.prems f by (auto simp: nxf_def)
qed

lemma ring_rev: "ring nx pv x l y \<Longrightarrow> ring pv nx y (rev l) x"
  by (induction l arbitrary: x) (auto simp: ring_append)

lemma scan_ring_back:
  assumes "ring nx (pvf bs) HEAD l y" "HEAD \<notin> set l" "length l < fuel"
  shows "scan fuel bprev P (pvf bs y) bs = Some (List.find (\<lambda>i. P (bs ! i)) (rev l))"
proof -
  have *: "scan fuel bprev P (pvf bs x) bs = Some (List.find (\<lambda>i. P (bs ! i)) m)"
    if "ring (pvf bs) nx x m HEAD" "HEAD \<notin> set m" "length m < fuel" for x m fuel
    using that
  proof (induction m arbitrary: x fuel)
    case Nil
    then show ?case by (cases fuel) auto
  next
    case (Cons a l)
    then obtain f where f: "fuel = Suc f" by (cases fuel) auto
    have "pvf bs x = a" using Cons.prems by simp
    moreover have "scan f bprev P (pvf bs a) bs = Some (List.find (\<lambda>i. P (bs ! i)) l)"
      using Cons.prems f by (intro Cons.IH) auto
    ultimately show ?case using Cons.prems f by (auto simp: pvf_def)
  qed
  show ?thesis using ring_rev [OF assms(1)] assms(2,3) by (intro *) auto
qed

section \<open>What a client of the cache sees\<close>

definition caches :: "bio \<Rightarrow> nat \<Rightarrow> nat \<Rightarrow> bool" where
  "caches s i b \<longleftrightarrow> i < NBUF \<and> bdev (bufs s ! i) = 1 \<and> blockno (bufs s ! i) = b"

text \<open>The contents of a block: its cached copy if there is a valid one, else the disk's.\<close>

definition view :: "bio \<Rightarrow> nat \<Rightarrow> bytes" where
  "view s b =
     (case first_idx (\<lambda>x. bdev x = 1 \<and> blockno x = b \<and> valid x) (take NBUF (bufs s)) of
        Some i \<Rightarrow> bdata (bufs s ! i)
      | None \<Rightarrow> disk s b)"

definition busy_blocks :: "bio \<Rightarrow> nat set" where
  "busy_blocks s = {b. \<exists>i. caches s i b \<and> busy (bufs s ! i)}"

definition dirty_blocks :: "bio \<Rightarrow> nat set" where
  "dirty_blocks s = {b. \<exists>i. caches s i b \<and> dirty (bufs s ! i)}"

text \<open>\<open>holds s i b\<close>: buffer \<open>i\<close> is block \<open>b\<close>, as \<open>bread\<close> returns it.\<close>

definition holds :: "bio \<Rightarrow> nat \<Rightarrow> nat \<Rightarrow> bool" where
  "holds s i b \<longleftrightarrow> caches s i b \<and> busy (bufs s ! i) \<and> valid (bufs s ! i)"

text \<open>
  The invariant of the cache: the ring is intact, a block has at most one buffer, buffers that
  were never assigned carry no flags, dirty buffers are valid, valid buffers hold a whole block,
  and a buffer nobody uses and nobody pinned agrees with the disk.
\<close>

definition wf_buf :: "nat \<Rightarrow> buf \<Rightarrow> bool" where
  "wf_buf dsz x \<longleftrightarrow>
     (bdev x \<noteq> 1 \<longrightarrow> \<not> busy x \<and> \<not> valid x \<and> \<not> dirty x) \<and>
     (bdev x = 1 \<longrightarrow> blockno x < dsz) \<and>
     (dirty x \<longrightarrow> valid x) \<and> (valid x \<longrightarrow> length (bdata x) = BSIZE)"

definition wf_bio :: "bio \<Rightarrow> bool" where
  "wf_bio s \<longleftrightarrow>
     (\<exists>l. lru (bufs s) l) \<and>
     (\<forall>i j b. caches s i b \<longrightarrow> caches s j b \<longrightarrow> i = j) \<and>
     (\<forall>i < NBUF. wf_buf (disksize s) (bufs s ! i)) \<and>
     (\<forall>b. length (disk s b) = BSIZE) \<and>
     (\<forall>i b. caches s i b \<longrightarrow> valid (bufs s ! i) \<longrightarrow> \<not> dirty (bufs s ! i) \<longrightarrow> \<not> busy (bufs s ! i) \<longrightarrow>
        bdata (bufs s ! i) = disk s b)"

lemma wf_bioD:
  assumes "wf_bio s"
  shows "length (bufs s) = Suc NBUF" "length (disk s b) = BSIZE"
    "caches s i b \<Longrightarrow> caches s j b \<Longrightarrow> i = j"
    "i < NBUF \<Longrightarrow> wf_buf (disksize s) (bufs s ! i)"
    "caches s i b \<Longrightarrow> valid (bufs s ! i) \<Longrightarrow> \<not> dirty (bufs s ! i) \<Longrightarrow> \<not> busy (bufs s ! i) \<Longrightarrow>
        bdata (bufs s ! i) = disk s b"
  using assms by (auto simp: wf_bio_def lru_def)

lemma wf_bioI:
  assumes "\<exists>l. lru (bufs s) l"
    and "\<And>i j b. caches s i b \<Longrightarrow> caches s j b \<Longrightarrow> i = j"
    and "\<And>i. i < NBUF \<Longrightarrow> wf_buf (disksize s) (bufs s ! i)"
    and "\<And>b. length (disk s b) = BSIZE"
    and "\<And>i b. caches s i b \<Longrightarrow> valid (bufs s ! i) \<Longrightarrow> \<not> dirty (bufs s ! i) \<Longrightarrow> \<not> busy (bufs s ! i) \<Longrightarrow>
        bdata (bufs s ! i) = disk s b"
  shows "wf_bio s"
  unfolding wf_bio_def using assms by (intro conjI allI impI)

lemma view_cached:
  assumes "wf_bio s" "caches s i b" "valid (bufs s ! i)"
  shows "view s b = bdata (bufs s ! i)"
proof -
  let ?P = "\<lambda>x. bdev x = 1 \<and> blockno x = b \<and> valid x"
  have len: "length (take NBUF (bufs s)) = NBUF"
    using wf_bioD(1) [OF assms(1)] by simp
  have i: "i < NBUF" "?P (bufs s ! i)" using assms(2,3) by (auto simp: caches_def)
  then have "take NBUF (bufs s) ! i \<in> set (take NBUF (bufs s))"
    using len by (intro nth_mem) simp
  then have "first_idx ?P (take NBUF (bufs s)) \<noteq> None"
    unfolding first_idx_None using i by auto
  then obtain j where j: "first_idx ?P (take NBUF (bufs s)) = Some j" by blast
  then have "j < NBUF" "?P (bufs s ! j)"
    using first_idx_length [OF j] first_idx_sat [OF j] len by auto
  then have "j = i"
    using wf_bioD(3) [OF assms(1), of j b i] assms(2) by (auto simp: caches_def)
  then show ?thesis using j by (simp add: view_def)
qed

lemma view_uncached:
  assumes "\<And>i. caches s i b \<Longrightarrow> \<not> valid (bufs s ! i)"
  shows "view s b = disk s b"
proof -
  have "first_idx (\<lambda>x. bdev x = 1 \<and> blockno x = b \<and> valid x) (take NBUF (bufs s)) = None"
    using assms by (auto simp: first_idx_None in_set_conv_nth caches_def)
  then show ?thesis by (simp add: view_def)
qed

lemma viewI:
  assumes "wf_bio s"
    and "\<And>j. caches s j c \<Longrightarrow> valid (bufs s ! j) \<Longrightarrow> v = bdata (bufs s ! j)"
    and "(\<And>j. caches s j c \<Longrightarrow> \<not> valid (bufs s ! j)) \<Longrightarrow> v = disk s c"
  shows "view s c = v"
  using view_cached [OF assms(1)] view_uncached [of s c] assms(2,3) by metis

lemma view_length: "wf_bio s \<Longrightarrow> length (view s b) = BSIZE"
proof (cases "\<exists>i. caches s i b \<and> valid (bufs s ! i)")
  case True
  assume wf: "wf_bio s"
  from True obtain i where i: "caches s i b" "valid (bufs s ! i)" by blast
  then show ?thesis
    using view_cached [OF wf i] wf_bioD(4) [OF wf, of i] by (auto simp: wf_buf_def caches_def)
next
  case False
  assume "wf_bio s"
  then show ?thesis using False view_uncached [of s b] by (auto dest: wf_bioD(2))
qed

text \<open>A buffer that nobody uses or pins is free for another block: its block's view is the disk's.\<close>

lemma view_clean:
  assumes "wf_bio s" "caches s i b" "\<not> busy (bufs s ! i)" "\<not> dirty (bufs s ! i)"
  shows "view s b = disk s b"
proof (cases "valid (bufs s ! i)")
  case True
  then show ?thesis using view_cached [OF assms(1,2)] wf_bioD(5) [OF assms(1,2)] assms(3,4) by simp
next
  case False
  then show ?thesis using wf_bioD(3) [OF assms(1,2)] by (intro view_uncached) auto
qed

section \<open>Assigning a buffer to a block\<close>

text \<open>
  How \<open>bread\<close> leaves the chosen buffer: the block was in it, or it was free; and no other
  buffer is that block.
\<close>

definition fill :: "nat \<Rightarrow> nat \<Rightarrow> bool \<Rightarrow> bytes \<Rightarrow> bio \<Rightarrow> bio" where
  "fill i b d dat s =
     upd_buf i (\<lambda>x. x\<lparr>bdev := 1, blockno := b, busy := True, valid := True, dirty := d, bdata := dat\<rparr>) s"

lemma upd_buf_simps [simp]:
  "bk (upd_buf i f s) = bk s" "disk (upd_buf i f s) = disk s" "writes (upd_buf i f s) = writes s"
  "disksize (upd_buf i f s) = disksize s" "bufs (upd_buf i f s) = setb i f (bufs s)"
  by (simp_all add: upd_buf_def)

lemma fill_bufs:
  "i < length (bufs s) \<Longrightarrow> bufs (fill i b d dat s) ! j =
     (if j = i then (bufs s ! i)\<lparr>bdev := 1, blockno := b, busy := True, valid := True, dirty := d, bdata := dat\<rparr>
      else bufs s ! j)"
  by (auto simp: fill_def nth_setb)

lemma fill_simps [simp]:
  "bk (fill i b d dat s) = bk s" "disk (fill i b d dat s) = disk s"
  "writes (fill i b d dat s) = writes s" "disksize (fill i b d dat s) = disksize s"
  by (simp_all add: fill_def)

lemma fill_spec:
  assumes wf: "wf_bio s" and i: "i < NBUF" and b: "b < disksize s"
    and nb: "\<not> busy (bufs s ! i)"
    and d: "d = dirty (bufs s ! i)" "d \<Longrightarrow> caches s i b"
    and t: "t = fill i b d (view s b) s"
    and only: "\<And>j. caches s j b \<Longrightarrow> j = i"
  shows "wf_bio t" "view t = view s"
    "busy_blocks t = insert b (busy_blocks s)"
    "dirty_blocks t = dirty_blocks s"
    "holds t i b" "bdata (bufs t ! i) = view s b" "\<And>j c. holds s j c \<Longrightarrow> holds t j c"
proof -
  have len: "i < length (bufs s)" using wf_bioD(1) [OF wf] i by simp
  have bi: "bufs t ! j = (if j = i then (bufs s ! i)\<lparr>bdev := 1, blockno := b, busy := True, valid := True, dirty := d, bdata := view s b\<rparr>
      else bufs s ! j)" for j
    unfolding t using fill_bufs [OF len] .
  have cs: "caches t j c \<longleftrightarrow> (if j = i then c = b else caches s j c)" for j c
    using i by (auto simp: caches_def bi)
  have oldd: "\<not> dirty (bufs s ! i)" if "caches s i c" "c \<noteq> b" for c
    using that d by (auto simp: caches_def)
  have fs: "disk t = disk s" "disksize t = disksize s" by (simp_all add: t)
  show h: "holds t i b" using i by (auto simp: holds_def caches_def bi)
  show "bdata (bufs t ! i) = view s b" by (simp add: bi)
  have "lru (bufs t) l = lru (bufs s) l" for l
    by (simp add: t fill_def lru_setb_payload)
  then have lru_ex: "\<exists>l. lru (bufs t) l" using wf by (auto simp: wf_bio_def)
  have uniq: "j = k" if "caches t j c" "caches t k c" for j k c
    using that wf_bioD(3) [OF wf, of j c k] only unfolding cs by metis
  have coh: "bdata (bufs t ! j) = disk s c" if "caches t j c" "valid (bufs t ! j)"
    "\<not> dirty (bufs t ! j)" "\<not> busy (bufs t ! j)" for j c
    using that wf_bioD(5) [OF wf, of j c] by (cases "j = i") (simp_all add: cs bi)
  have "wf_buf (disksize s) (bufs t ! j)" if "j < NBUF" for j
    using wf_bioD(4) [OF wf that] view_length [OF wf] b by (auto simp: bi wf_buf_def)
  then show wf': "wf_bio t"
    using lru_ex uniq coh wf_bioD(2) [OF wf] by (intro wf_bioI) (simp_all only: fs)
  have "view t c = view s c" for c
  proof (rule viewI [OF wf'])
    fix j
    assume j: "caches t j c" "valid (bufs t ! j)"
    then show "view s c = bdata (bufs t ! j)"
      using view_cached [OF wf, of j c] by (cases "j = i") (simp_all add: cs bi)
  next
    assume none: "\<And>j. caches t j c \<Longrightarrow> \<not> valid (bufs t ! j)"
    then have c: "c \<noteq> b" using none [of i] by (auto simp: cs bi)
    show "view s c = disk t c"
    proof (cases "caches s i c")
      case True
      then show ?thesis using view_clean [OF wf True nb] oldd [OF True c] fs by simp
    next
      case False
      then have "\<not> valid (bufs s ! j)" if "caches s j c" for j
        using that none [of j] by (cases "j = i") (simp_all add: cs bi)
      then show ?thesis by (simp add: view_uncached fs)
    qed
  qed
  then show "view t = view s" by blast
  show "busy_blocks t = insert b (busy_blocks s)"
    using nb by (auto simp: busy_blocks_def cs bi split: if_splits)
  have "caches t j c \<and> dirty (bufs t ! j) \<longleftrightarrow> caches s j c \<and> dirty (bufs s ! j)" for j c
    using d oldd [of c] by (cases "j = i") (auto simp: cs bi)
  then show "dirty_blocks t = dirty_blocks s" by (simp add: dirty_blocks_def)
  show "holds t j c" if "holds s j c" for j c
    using that nb by (cases "j = i") (auto simp: holds_def cs bi)
qed

section \<open>The contract of bread\<close>

lemma view_bk [simp]: "view (s\<lparr>bk := k\<rparr>) = view s"
  by (rule ext) (simp add: view_def split: option.split)

lemma bk_upd_invariants [simp]:
  "caches (s\<lparr>bk := k\<rparr>) = caches s"
  "busy_blocks (s\<lparr>bk := k\<rparr>) = busy_blocks s" "dirty_blocks (s\<lparr>bk := k\<rparr>) = dirty_blocks s"
  "holds (s\<lparr>bk := k\<rparr>) = holds s" "wf_bio (s\<lparr>bk := k\<rparr>) = wf_bio s"
  "fill i b d dat (s\<lparr>bk := k\<rparr>) = (fill i b d dat s)\<lparr>bk := k\<rparr>"
  "upd_buf i f (s\<lparr>bk := k\<rparr>) = (upd_buf i f s)\<lparr>bk := k\<rparr>"
  by (simp_all add: caches_def busy_blocks_def dirty_blocks_def holds_def wf_bio_def
      fill_def upd_buf_def fun_eq_iff)

lemma upd_buf_cong: "f (bufs s ! i) = g (bufs s ! i) \<Longrightarrow> upd_buf i f s = upd_buf i g s"
  by (simp add: setb_def upd_buf_def)

lemma upd_buf_twice:
  "i < length (bufs s) \<Longrightarrow> upd_buf i f (upd_buf i g s) = upd_buf i (\<lambda>x. f (g x)) s"
  by (simp add: upd_buf_def setb_def)

text \<open>A scan from the head finds the first buffer of the ring with the property.\<close>

lemma scan_lru:
  assumes "lru bs l"
  shows "scan (Suc NBUF) bnext P (bnext (bs ! HEAD)) bs = Some (List.find (\<lambda>i. P (bs ! i)) l)"
    and "scan (Suc NBUF) bprev P (bprev (bs ! HEAD)) bs = Some (List.find (\<lambda>i. P (bs ! i)) (rev l))"
proof -
  have r: "ring (nxf bs) (pvf bs) HEAD l HEAD" and h: "HEAD \<notin> set l"
    using assms by (auto simp: lru_def)
  have "length l = NBUF"
    using assms distinct_card [of l] by (simp add: lru_def)
  then show "scan (Suc NBUF) bnext P (bnext (bs ! HEAD)) bs = Some (List.find (\<lambda>i. P (bs ! i)) l)"
    and "scan (Suc NBUF) bprev P (bprev (bs ! HEAD)) bs = Some (List.find (\<lambda>i. P (bs ! i)) (rev l))"
    using scan_ring [OF r h, of "Suc NBUF" P] scan_ring_back [OF r h, of "Suc NBUF" P]
    by (simp_all add: nxf_def pvf_def)
qed

lemma find_Some_sat: "List.find P l = Some i \<Longrightarrow> P i \<and> i \<in> set l"
  by (auto simp: find_Some_iff)

text \<open>There is a buffer to recycle as long as not all of them are busy or dirty.\<close>

lemma free_buffer:
  assumes wf: "wf_bio s" and room: "card (busy_blocks s \<union> dirty_blocks s) < NBUF"
  shows "\<exists>i < NBUF. \<not> busy (bufs s ! i) \<and> \<not> dirty (bufs s ! i)"
proof (rule ccontr)
  let ?f = "\<lambda>i. blockno (bufs s ! i)"
  assume "\<not> ?thesis"
  then have used: "busy (bufs s ! i) \<or> dirty (bufs s ! i)" if "i < NBUF" for i
    using that by blast
  have c: "caches s i (?f i)" if "i < NBUF" for i
    using wf_bioD(4) [OF wf that] used [OF that] that by (auto simp: caches_def wf_buf_def)
  have inj: "inj_on ?f {..<NBUF}"
  proof (rule inj_onI)
    fix i j
    assume "i \<in> {..<NBUF}" "j \<in> {..<NBUF}" and eq: "?f i = ?f j"
    then have "caches s i (?f i)" "caches s j (?f i)" using c [of i] c [of j] by simp_all
    then show "i = j" by (rule wf_bioD(3) [OF wf])
  qed
  have "?f ` {..<NBUF} \<subseteq> busy_blocks s \<union> dirty_blocks s"
    using used c by (auto simp: busy_blocks_def dirty_blocks_def)
  moreover have "busy_blocks s \<union> dirty_blocks s \<subseteq> ?f ` {..<NBUF}"
    by (auto simp: busy_blocks_def dirty_blocks_def caches_def)
  ultimately have "busy_blocks s \<union> dirty_blocks s = ?f ` {..<NBUF}" by blast
  then show False using room card_image [OF inj] by simp
qed

text \<open>What \<open>bget\<close> does to the buffer it returns.\<close>

definition claimed :: "nat \<Rightarrow> nat \<Rightarrow> bio \<Rightarrow> bio" where
  "claimed i b s = (if caches s i b then upd_buf i (\<lambda>x. x\<lparr>busy := True\<rparr>) s
     else upd_buf i (\<lambda>x. x\<lparr>bdev := 1, blockno := b, busy := True, valid := False, dirty := False\<rparr>) s)"

definition only_buf :: "bio \<Rightarrow> nat \<Rightarrow> nat \<Rightarrow> bool" where
  "only_buf s i b \<longleftrightarrow> (\<forall>j. caches s j b \<longrightarrow> j = i)"

lemma only_bufD: "only_buf s i b \<Longrightarrow> caches s j b \<Longrightarrow> j = i"
  unfolding only_buf_def by blast

lemma only_buf_cached: "wf_bio s \<Longrightarrow> caches s i b \<Longrightarrow> only_buf s i b"
  unfolding only_buf_def using wf_bioD(3) by blast

definition claimable :: "nat \<Rightarrow> nat \<Rightarrow> bio \<Rightarrow> bool" where
  "claimable i b s \<longleftrightarrow> i < NBUF \<and> \<not> busy (bufs s ! i) \<and> (dirty (bufs s ! i) \<longrightarrow> caches s i b) \<and>
     only_buf s i b"

lemma bcache_acquire:
  assumes "hasl (km (bk s)) ls" "BCACHE \<notin> set ls"
  shows "wp (on_kern (kacquire BCACHE) s) (\<lambda>_ t. \<exists>k. hasl (km k) (BCACHE # ls) \<and> t = s\<lparr>bk := k\<rparr>)"
  using kacquire_wp [OF assms] by (auto simp: on_kern_def elim: wp_mono)

lemma bcache_release:
  assumes "hasl (km k) (BCACHE # ls)" "\<And>k'. hasl (km k') ls \<Longrightarrow> Q (s\<lparr>bk := k'\<rparr>)"
  shows "wp (on_kern (krelease BCACHE) (s\<lparr>bk := k\<rparr>)) (\<lambda>_. Q)"
  using krelease_wp [OF assms(1), of BCACHE] assms(2) by (auto simp: on_kern_def elim!: wp_mono)

text \<open>
  The ring order decides: the block's buffer if it is in the ring, else the buffer longest
  unused that is neither in use nor pinned.
\<close>

abbreviation lookup_order :: "bio \<Rightarrow> nat \<Rightarrow> nat list \<Rightarrow> nat option" where
  "lookup_order s b l \<equiv> List.find (\<lambda>i. bdev (bufs s ! i) = 1 \<and> blockno (bufs s ! i) = b) l"

abbreviation victim_order :: "bio \<Rightarrow> nat list \<Rightarrow> nat option" where
  "victim_order s l \<equiv> List.find (\<lambda>i. \<not> busy (bufs s ! i) \<and> \<not> dirty (bufs s ! i)) (rev l)"

lemma lookup_order_caches:
  assumes "lru (bufs s) l"
  shows "lookup_order s b l = Some i \<Longrightarrow> caches s i b"
    and "lookup_order s b l = None \<Longrightarrow> \<not> caches s j b"
proof -
  have setl: "set l = {..<NBUF}" using assms by (simp add: lru_def)
  show "lookup_order s b l = Some i \<Longrightarrow> caches s i b"
    using find_Some_sat [of _ l i] setl by (auto simp: caches_def)
  show "lookup_order s b l = None \<Longrightarrow> \<not> caches s j b"
    using setl by (auto simp: find_None_iff caches_def)
qed

lemma bget_hit:
  assumes h: "hasl (km (bk s)) ls" "BCACHE \<notin> set ls"
    and l: "lru (bufs s) l" and hit: "lookup_order s b l = Some i" and free: "\<not> busy (bufs s ! i)"
  shows "wp (bget 1 b s) (\<lambda>j t. j = i \<and> (\<exists>k. hasl (km k) ls \<and> t = (claimed i b s)\<lparr>bk := k\<rparr>))"
proof -
  have c: "caches s i b" using lookup_order_caches(1) [OF l hit] .
  have "wp (on_kern (krelease BCACHE) (upd_buf i (\<lambda>x. x\<lparr>busy := True\<rparr>) (s\<lparr>bk := k\<rparr>)))
      (\<lambda>_ t. \<exists>k. hasl (km k) ls \<and> t = (claimed i b s)\<lparr>bk := k\<rparr>)"
    if "hasl (km k) (BCACHE # ls)" for k
    unfolding bk_upd_invariants using c by (intro bcache_release [OF that]) (auto simp: claimed_def)
  then show ?thesis
    unfolding bget_def wp_bindR using hit free
    by (intro wp_mono [OF bcache_acquire [OF h]]) (clarsimp simp: scan_lru [OF l] simp del: scan.simps)
qed

lemma bget_miss:
  assumes h: "hasl (km (bk s)) ls" "BCACHE \<notin> set ls"
    and l: "lru (bufs s) l" and miss: "lookup_order s b l = None" and vic: "victim_order s l = Some i"
  shows "wp (bget 1 b s) (\<lambda>j t. j = i \<and> (\<exists>k. hasl (km k) ls \<and> t = (claimed i b s)\<lparr>bk := k\<rparr>))"
proof -
  have none: "\<not> caches s i b" using lookup_order_caches(2) [OF l miss] .
  have "wp (on_kern (krelease BCACHE) (upd_buf i (\<lambda>x. x\<lparr>bdev := 1, blockno := b, busy := True,
      valid := False, dirty := False\<rparr>) (s\<lparr>bk := k\<rparr>))) (\<lambda>_ t. \<exists>k. hasl (km k) ls \<and> t = (claimed i b s)\<lparr>bk := k\<rparr>)"
    if "hasl (km k) (BCACHE # ls)" for k
    unfolding bk_upd_invariants using none by (intro bcache_release [OF that]) (auto simp: claimed_def)
  then show ?thesis
    unfolding bget_def wp_bindR using miss vic
    by (intro wp_mono [OF bcache_acquire [OF h]]) (clarsimp simp: scan_lru [OF l] simp del: scan.simps)
qed

lemma bget_result:
  assumes wf: "wf_bio s" and h: "hasl (km (bk s)) ls" "BCACHE \<notin> set ls"
    and nb: "b \<notin> busy_blocks s" and room: "b \<in> dirty_blocks s \<or> card (busy_blocks s \<union> dirty_blocks s) < NBUF"
  shows "wp (bget 1 b s) (\<lambda>i t. claimable i b s \<and> (\<exists>k. hasl (km k) ls \<and> t = (claimed i b s)\<lparr>bk := k\<rparr>))"
proof -
  obtain l where l: "lru (bufs s) l" using wf by (auto simp: wf_bio_def)
  have setl: "set l = {..<NBUF}" using l by (simp add: lru_def)
  show ?thesis
  proof (cases "lookup_order s b l")
    case (Some i)
    have c: "caches s i b" using lookup_order_caches(1) [OF l Some] .
    then have free: "\<not> busy (bufs s ! i)" using nb by (auto simp: busy_blocks_def)
    have "claimable i b s"
      using c free only_buf_cached [OF wf c] by (simp add: claimable_def caches_def)
    then show ?thesis by (intro wp_mono [OF bget_hit [OF h l Some free]]) simp
  next
    case None
    have none: "\<not> caches s j b" for j using lookup_order_caches(2) [OF l None] .
    then have "card (busy_blocks s \<union> dirty_blocks s) < NBUF" using room by (auto simp: dirty_blocks_def)
    from free_buffer [OF wf this] have "victim_order s l \<noteq> None"
      unfolding find_None_iff using setl by auto
    then obtain i where i: "victim_order s l = Some i" by blast
    then have "i < NBUF" "\<not> busy (bufs s ! i)" "\<not> dirty (bufs s ! i)"
      using find_Some_sat [OF i] setl by auto
    then have "claimable i b s" using none by (simp add: claimable_def only_buf_def)
    then show ?thesis by (intro wp_mono [OF bget_miss [OF h l None i]]) simp
  qed
qed

lemma claimed_simps [simp]:
  "disk (claimed i b s) = disk s" "disksize (claimed i b s) = disksize s"
  by (simp_all add: claimed_def)

lemma iderw_read:
  assumes "i < length (bufs s)" "busy (bufs s ! i)" "\<not> valid (bufs s ! i)" "\<not> dirty (bufs s ! i)"
    "bdev (bufs s ! i) = 1" "blockno (bufs s ! i) = b" "b < disksize s"
  shows "iderw i s = Ret () (upd_buf i (\<lambda>x. x\<lparr>valid := True, bdata := disk s b\<rparr>) s)"
  using assms by (simp add: iderw_def upd_buf_twice) (rule upd_buf_cong, simp)

lemma bread_hit:
  assumes wf: "wf_bio s" and c: "caches s i b" and v: "valid (bufs s ! i)"
  shows "claimed i b s = fill i b (dirty (bufs s ! i)) (view s b) s"
proof -
  have "claimed i b s = upd_buf i (\<lambda>x. x\<lparr>busy := True\<rparr>) s" using c by (simp add: claimed_def)
  also have "\<dots> = fill i b (dirty (bufs s ! i)) (view s b) s"
    unfolding fill_def using c v
    by (intro upd_buf_cong buf.equality) (simp_all add: view_cached [OF wf] caches_def)
  finally show ?thesis .
qed

lemma bread_miss:
  assumes wf: "wf_bio s" and c: "claimable i b s" and b: "b < disksize s"
    and v: "\<not> (caches s i b \<and> valid (bufs s ! i))"
  shows "iderw i ((claimed i b s)\<lparr>bk := k\<rparr>) = Ret () ((fill i b (dirty (bufs s ! i)) (view s b) s)\<lparr>bk := k\<rparr>)"
proof -
  let ?c = "(claimed i b s)\<lparr>bk := k\<rparr>"
  have i: "i < NBUF" "i < length (bufs s)" using c wf_bioD(1) [OF wf] by (auto simp: claimable_def)
  have w: "wf_buf (disksize s) (bufs s ! i)" using wf_bioD(4) [OF wf i(1)] .
  have d: "\<not> dirty (bufs s ! i)" using v c w by (auto simp: claimable_def wf_buf_def)
  have view: "view s b = disk s b"
    using v only_bufD [of s i b] c by (intro view_uncached) (metis claimable_def)
  have x: "i < length (bufs ?c)" "busy (bufs ?c ! i)" "\<not> valid (bufs ?c ! i)" "\<not> dirty (bufs ?c ! i)"
    "bdev (bufs ?c ! i) = 1" "blockno (bufs ?c ! i) = b" "b < disksize ?c"
    using i v d b by (auto simp: claimed_def nth_setb caches_def)
  have "upd_buf i (\<lambda>x. x\<lparr>valid := True, bdata := disk s b\<rparr>) (claimed i b s) =
      fill i b (dirty (bufs s ! i)) (view s b) s"
    unfolding fill_def claimed_def using i v d
    by (auto simp: upd_buf_twice view caches_def intro!: upd_buf_cong buf.equality)
  then show ?thesis using iderw_read [OF x] by simp
qed

lemma bread_fill:
  assumes wf: "wf_bio s" and c: "claimable i b s" and b: "b < disksize s"
  shows "(if \<not> valid (bufs (claimed i b s) ! i) then bindR (iderw i ((claimed i b s)\<lparr>bk := k\<rparr>)) (\<lambda>_. Ret i)
          else Ret i ((claimed i b s)\<lparr>bk := k\<rparr>)) =
         Ret i ((fill i b (dirty (bufs s ! i)) (view s b) s)\<lparr>bk := k\<rparr>)"
proof -
  have i: "i < length (bufs s)" using c wf_bioD(1) [OF wf] by (auto simp: claimable_def)
  have "valid (bufs (claimed i b s) ! i) \<longleftrightarrow> caches s i b \<and> valid (bufs s ! i)"
    using i by (simp add: claimed_def nth_setb)
  then show ?thesis
    using bread_hit [OF wf, of i b] bread_miss [OF wf c b] by simp
qed

text \<open>
  The blocks' contents, the disk and the set of pinned blocks are the same before and after
  a change of the cache's bookkeeping.
\<close>

definition same_blocks :: "bio \<Rightarrow> bio \<Rightarrow> bool" where
  "same_blocks s t \<longleftrightarrow> view t = view s \<and> disk t = disk s \<and> writes t = writes s \<and>
     disksize t = disksize s \<and> dirty_blocks t = dirty_blocks s"

lemma bread_wp:
  assumes wf: "wf_bio s" and h: "hasl (km (bk s)) ls" "BCACHE \<notin> set ls"
    and b: "b < disksize s" "b \<notin> busy_blocks s"
    and room: "b \<in> dirty_blocks s \<or> card (busy_blocks s \<union> dirty_blocks s) < NBUF"
  shows "wp (bread 1 b s) (\<lambda>i t. wf_bio t \<and> hasl (km (bk t)) ls \<and> same_blocks s t \<and>
      busy_blocks t = insert b (busy_blocks s) \<and> holds t i b \<and> bdata (bufs t ! i) = view s b \<and>
      (\<forall>j c. holds s j c \<longrightarrow> holds t j c))"
proof -
  have "wf_bio (t\<lparr>bk := k\<rparr>) \<and> same_blocks s (t\<lparr>bk := k\<rparr>) \<and>
      busy_blocks (t\<lparr>bk := k\<rparr>) = insert b (busy_blocks s) \<and> holds (t\<lparr>bk := k\<rparr>) i b \<and>
      bdata (bufs (t\<lparr>bk := k\<rparr>) ! i) = view s b \<and> (\<forall>j c. holds s j c \<longrightarrow> holds (t\<lparr>bk := k\<rparr>) j c)"
    if c: "claimable i b s" and t: "t = fill i b (dirty (bufs s ! i)) (view s b) s" for i t k
  proof -
    have "i < NBUF" "\<not> busy (bufs s ! i)" "dirty (bufs s ! i) \<Longrightarrow> caches s i b" "\<And>j. caches s j b \<Longrightarrow> j = i"
      using c unfolding claimable_def only_buf_def by blast+
    note f = fill_spec [OF wf this(1) b(1) this(2) refl this(3) t this(4)]
    show ?thesis using f by (simp add: same_blocks_def t)
  qed
  note post = this
  show ?thesis
    unfolding bread_def wp_bindR
  proof (rule wp_mono [OF bget_result [OF wf h b(2) room]], elim conjE exE)
    fix i t k
    assume c: "claimable i b s" and k: "hasl (km k) ls" and t: "t = (claimed i b s)\<lparr>bk := k\<rparr>"
    show "wp (if \<not> valid (bufs t ! i) then bindR (iderw i t) (\<lambda>_. Ret i) else Ret i t)
        (\<lambda>i t. wf_bio t \<and> hasl (km (bk t)) ls \<and> same_blocks s t \<and>
          busy_blocks t = insert b (busy_blocks s) \<and> holds t i b \<and> bdata (bufs t ! i) = view s b \<and>
          (\<forall>j c. holds s j c \<longrightarrow> holds t j c))"
    proof -
      have bt: "bufs t = bufs (claimed i b s)" by (simp add: t)
      have "(if \<not> valid (bufs t ! i) then bindR (iderw i t) (\<lambda>_. Ret i) else Ret i t) =
          Ret i ((fill i b (dirty (bufs s ! i)) (view s b) s)\<lparr>bk := k\<rparr>)"
        using bread_fill [OF wf c b(1), of k] unfolding bt unfolding t .
      then show ?thesis using post [OF c refl, of k] k by simp
    qed
  qed
qed

section \<open>Changing a buffer one holds\<close>

text \<open>
  One lemma covers every change a holder makes to its buffer: writing the data, marking it
  dirty, writing it to the disk, giving it back. Only the fields other than the links matter.
\<close>

lemma holdsD:
  assumes "holds s i b"
  shows "caches s i b" "i < NBUF" "busy (bufs s ! i)" "valid (bufs s ! i)"
    "bdev (bufs s ! i) = 1" "blockno (bufs s ! i) = b"
  using assms by (auto simp: holds_def caches_def)

lemma holds_view: "wf_bio s \<Longrightarrow> holds s i b \<Longrightarrow> bdata (bufs s ! i) = view s b"
  by (metis holdsD(1,4) view_cached)

lemma holds_inj: "wf_bio s \<Longrightarrow> holds s i b \<Longrightarrow> holds s j b \<Longrightarrow> j = i"
  by (metis holdsD(1) wf_bioD(3))

lemma holds_busy: "holds s i b \<Longrightarrow> b \<in> busy_blocks s"
  by (auto simp: holds_def busy_blocks_def)

lemma holds_dirty: "wf_bio s \<Longrightarrow> holds s i b \<Longrightarrow> dirty (bufs s ! i) \<longleftrightarrow> b \<in> dirty_blocks s"
  unfolding dirty_blocks_def mem_Collect_eq by (metis holdsD(1) wf_bioD(3))

lemma bufs_bk_swap: "s\<lparr>bk := k, bufs := bs\<rparr> = s\<lparr>bufs := bs, bk := k\<rparr>"
  by simp

lemma holds_range: "wf_bio s \<Longrightarrow> holds s i b \<Longrightarrow> b < disksize s"
  using wf_bioD(4) [of s i] by (auto simp: holds_def caches_def wf_buf_def)

lemma held_step:
  assumes wf: "wf_bio s" and h: "holds s i b" and ring: "\<exists>l. lru (bufs t) l"
    and pl: "\<And>j. payload (bufs t ! j) = (if j = i then (u, True, d, 1, b, dat) else payload (bufs s ! j))"
    and dat: "length dat = BSIZE" and dsz: "disksize t = disksize s"
    and dsk: "\<And>c. c \<noteq> b \<Longrightarrow> disk t c = disk s c" "length (disk t b) = BSIZE"
    and coh: "\<not> u \<Longrightarrow> \<not> d \<Longrightarrow> disk t b = dat"
  shows "wf_bio t" "view t = (view s)(b := dat)"
    "busy_blocks t = (if u then busy_blocks s else busy_blocks s - {b})"
    "dirty_blocks t = (if d then insert b (dirty_blocks s) else dirty_blocks s - {b})"
    "u \<Longrightarrow> holds t i b" "bdata (bufs t ! i) = dat" "\<And>j c. holds s j c \<Longrightarrow> c \<noteq> b \<Longrightarrow> holds t j c"
proof -
  note hD = holdsD [OF h]
  have bi: "busy (bufs t ! j) = (if j = i then u else busy (bufs s ! j))"
    "valid (bufs t ! j) = (if j = i then True else valid (bufs s ! j))"
    "dirty (bufs t ! j) = (if j = i then d else dirty (bufs s ! j))"
    "bdev (bufs t ! j) = (if j = i then 1 else bdev (bufs s ! j))"
    "blockno (bufs t ! j) = (if j = i then b else blockno (bufs s ! j))"
    "bdata (bufs t ! j) = (if j = i then dat else bdata (bufs s ! j))" for j
    using pl [of j] by (auto simp: payload_def)
  have cs: "caches t j c = caches s j c" for j c
    using hD by (auto simp: caches_def bi)
  have only: "j = i \<longleftrightarrow> c = b" if "caches s j c" for j c
    using that hD(1) wf_bioD(3) [OF wf] by (metis caches_def)
  show "wf_bio t"
  proof (rule wf_bioI)
    show "\<exists>l. lru (bufs t) l" by (rule ring)
    show "j = k" if "caches t j c" "caches t k c" for j k c
      using that wf_bioD(3) [OF wf] unfolding cs by blast
    show "wf_buf (disksize t) (bufs t ! j)" if "j < NBUF" for j
      using wf_bioD(4) [OF wf that] holds_range [OF wf h] dat dsz by (simp add: wf_buf_def bi)
    show "length (disk t c) = BSIZE" for c
      using dsk wf_bioD(2) [OF wf, of c] by (cases "c = b") simp_all
    show "bdata (bufs t ! j) = disk t c" if "caches t j c" "valid (bufs t ! j)"
      "\<not> dirty (bufs t ! j)" "\<not> busy (bufs t ! j)" for j c
      using that wf_bioD(5) [OF wf, of j c] only [of j c] dsk(1) [of c] coh
      by (cases "j = i") (simp_all add: cs bi)
  qed
  note wf' = this
  have "view t c = (if c = b then dat else view s c)" for c
  proof (rule viewI [OF wf'])
    fix j
    assume "caches t j c" "valid (bufs t ! j)"
    then show "(if c = b then dat else view s c) = bdata (bufs t ! j)"
      using view_cached [OF wf, of j c] only [of j c] by (cases "j = i") (simp_all add: cs bi)
  next
    assume none: "\<And>j. caches t j c \<Longrightarrow> \<not> valid (bufs t ! j)"
    have c: "c \<noteq> b" using none [of i] hD(1) by (auto simp: cs bi)
    have "\<not> valid (bufs s ! j)" if "caches s j c" for j
      using that none [of j] by (cases "j = i") (simp_all add: cs bi)
    then show "(if c = b then dat else view s c) = disk t c"
      using view_uncached [of s c] c dsk(1) by simp
  qed
  then show "view t = (view s)(b := dat)" by (auto simp: fun_eq_iff)
  have "caches t j c \<and> busy (bufs t ! j) \<longleftrightarrow>
      (if c = b then j = i \<and> u else caches s j c \<and> busy (bufs s ! j))" for j c
    using only [of j c] hD(1) by (cases "caches s j c") (auto simp add: cs bi)
  then show "busy_blocks t = (if u then busy_blocks s else busy_blocks s - {b})"
    using holds_busy [OF h] by (auto simp: busy_blocks_def)
  have "caches t j c \<and> dirty (bufs t ! j) \<longleftrightarrow>
      (if c = b then j = i \<and> d else caches s j c \<and> dirty (bufs s ! j))" for j c
    using only [of j c] hD(1) by (cases "caches s j c") (auto simp add: cs bi)
  then show "dirty_blocks t = (if d then insert b (dirty_blocks s) else dirty_blocks s - {b})"
    by (auto simp: dirty_blocks_def)
  show "u \<Longrightarrow> holds t i b" using hD by (simp add: holds_def cs bi)
  show "bdata (bufs t ! i) = dat" by (simp add: bi)
  show "holds t j c" if "holds s j c" "c \<noteq> b" for j c
    using that hD by (cases "j = i") (auto simp: holds_def cs bi caches_def)
qed

text \<open>Writing to the data of a buffer, as its holders do through \<open>bp->data\<close>.\<close>

definition set_data :: "nat \<Rightarrow> bytes \<Rightarrow> bio \<Rightarrow> bio" where
  "set_data i dat s = upd_buf i (\<lambda>x. x\<lparr>bdata := dat\<rparr>) s"

definition set_dirty :: "nat \<Rightarrow> bio \<Rightarrow> bio" where
  "set_dirty i s = upd_buf i (\<lambda>x. x\<lparr>dirty := True\<rparr>) s"

lemma wf_lru:
  assumes "wf_bio s" "\<And>x. bnext (f x) = bnext x" "\<And>x. bprev (f x) = bprev x"
  shows "\<exists>l. lru (setb i f (bufs s)) l"
  using assms lru_setb_payload [of f] by (auto simp: wf_bio_def)

lemma set_data_spec:
  assumes wf: "wf_bio s" and h: "holds s i b" and dat: "length dat = BSIZE"
  shows "wf_bio (set_data i dat s)" "view (set_data i dat s) = (view s)(b := dat)"
    "busy_blocks (set_data i dat s) = busy_blocks s" "dirty_blocks (set_data i dat s) = dirty_blocks s"
    "holds (set_data i dat s) i b" "bdata (bufs (set_data i dat s) ! i) = dat"
    "disk (set_data i dat s) = disk s" "writes (set_data i dat s) = writes s"
    "disksize (set_data i dat s) = disksize s" "bk (set_data i dat s) = bk s"
    "\<And>j c. holds s j c \<Longrightarrow> holds (set_data i dat s) j c"
proof -
  have i: "i < length (bufs s)" using wf_bioD(1) [OF wf] holdsD(2) [OF h] by simp
  have ring: "\<exists>l. lru (bufs (set_data i dat s)) l" by (simp add: set_data_def wf_lru [OF wf])
  have pl: "payload (bufs (set_data i dat s) ! j) =
      (if j = i then (True, True, b \<in> dirty_blocks s, 1, b, dat) else payload (bufs s ! j))" for j
    using i holdsD [OF h] holds_dirty [OF wf h] by (simp add: set_data_def nth_setb payload_def)
  note st = held_step [OF wf h ring pl dat]
  show "dirty_blocks (set_data i dat s) = dirty_blocks s"
    using st(4) wf_bioD(2) [OF wf] by (auto simp: set_data_def)
  show "wf_bio (set_data i dat s)" "view (set_data i dat s) = (view s)(b := dat)"
    "busy_blocks (set_data i dat s) = busy_blocks s"
    "holds (set_data i dat s) i b" "bdata (bufs (set_data i dat s) ! i) = dat"
    using st wf_bioD(2) [OF wf] by (simp_all add: set_data_def)
  then show "holds (set_data i dat s) j c" if "holds s j c" for j c
    using that st(7) [of j c] wf_bioD(2) [OF wf]
    by (cases "c = b") (auto simp: set_data_def dest: holds_inj [OF wf h])
  show "disk (set_data i dat s) = disk s" "writes (set_data i dat s) = writes s"
    "disksize (set_data i dat s) = disksize s" "bk (set_data i dat s) = bk s"
    by (simp_all add: set_data_def)
qed

lemma set_dirty_spec:
  assumes wf: "wf_bio s" and h: "holds s i b"
  shows "wf_bio (set_dirty i s)" "view (set_dirty i s) = view s"
    "busy_blocks (set_dirty i s) = busy_blocks s" "dirty_blocks (set_dirty i s) = insert b (dirty_blocks s)"
    "holds (set_dirty i s) i b" "disk (set_dirty i s) = disk s" "writes (set_dirty i s) = writes s"
    "disksize (set_dirty i s) = disksize s" "bk (set_dirty i s) = bk s"
    "\<And>j c. holds s j c \<Longrightarrow> holds (set_dirty i s) j c"
proof -
  have i: "i < length (bufs s)" using wf_bioD(1) [OF wf] holdsD(2) [OF h] by simp
  have ring: "\<exists>l. lru (bufs (set_dirty i s)) l" by (simp add: set_dirty_def wf_lru [OF wf])
  have pl: "payload (bufs (set_dirty i s) ! j) =
      (if j = i then (True, True, True, 1, b, view s b) else payload (bufs s ! j))" for j
    using i holdsD [OF h] holds_view [OF wf h] by (simp add: set_dirty_def nth_setb payload_def)
  note st = held_step [OF wf h ring pl view_length [OF wf]]
  show "wf_bio (set_dirty i s)" "view (set_dirty i s) = view s"
    "busy_blocks (set_dirty i s) = busy_blocks s" "dirty_blocks (set_dirty i s) = insert b (dirty_blocks s)"
    "holds (set_dirty i s) i b"
    using st wf_bioD(2) [OF wf] by (simp_all add: set_dirty_def)
  then show "holds (set_dirty i s) j c" if "holds s j c" for j c
    using that st(7) [of j c] wf_bioD(2) [OF wf]
    by (cases "c = b") (auto simp: set_dirty_def dest: holds_inj [OF wf h])
  show "disk (set_dirty i s) = disk s" "writes (set_dirty i s) = writes s"
    "disksize (set_dirty i s) = disksize s" "bk (set_dirty i s) = bk s"
    by (simp_all add: set_dirty_def)
qed

lemma bwrite_wp:
  assumes wf: "wf_bio s" and h: "holds s i b"
  shows "wp (bwrite i s) (\<lambda>_ t. wf_bio t \<and> bk t = bk s \<and> view t = view s \<and>
      disk t = (disk s)(b := view s b) \<and> writes t = writes s @ [(b, view s b)] \<and> disksize t = disksize s \<and>
      busy_blocks t = busy_blocks s \<and> dirty_blocks t = dirty_blocks s - {b} \<and> (\<forall>j c. holds s j c \<longrightarrow> holds t j c))"
proof -
  have i: "i < length (bufs s)" using wf_bioD(1) [OF wf] holdsD(2) [OF h] by simp
  note v = holds_view [OF wf h]
  define t where "t = s\<lparr>disk := (disk s)(b := view s b), writes := writes s @ [(b, view s b)],
    bufs := setb i (\<lambda>x. x\<lparr>dirty := False, valid := True\<rparr>) (bufs s)\<rparr>"
  have ring: "\<exists>l. lru (bufs t) l" by (simp add: t_def wf_lru [OF wf])
  have pl: "payload (bufs t ! j) =
      (if j = i then (True, True, False, 1, b, view s b) else payload (bufs s ! j))" for j
    using i holdsD [OF h] v by (simp add: t_def nth_setb payload_def upd_buf_def)
  have t: "disksize t = disksize s" "disk t = (disk s)(b := view s b)" by (simp_all add: t_def)
  note st = held_step [OF wf h ring pl view_length [OF wf] t(1)]
  have "bwrite i s = Ret () t"
    using i holdsD [OF h] v holds_range [OF wf h]
    by (simp add: bwrite_def iderw_def nth_setb t_def upd_buf_def setb_def)
  moreover have "wf_bio t \<and> view t = view s \<and> busy_blocks t = busy_blocks s \<and>
      dirty_blocks t = dirty_blocks s - {b} \<and> holds t i b"
    using st t(2) view_length [OF wf] wf_bioD(2) [OF wf] by simp
  moreover have "holds t j c" if "holds s j c" for j c
    using that st(5,7) t(2) view_length [OF wf] holds_inj [OF wf h, of j]
    by (cases "c = b") auto
  moreover have "bk t = bk s" "writes t = writes s @ [(b, view s b)]" by (simp_all add: t_def)
  ultimately show ?thesis using t by simp
qed

text \<open>
  A buffer is given back with its contents on the disk or pinned by its dirty flag; the
  processes that wait for it become runnable.
\<close>

lemma brelse_lru_wp:
  assumes wf: "wf_bio s" and h: "holds s i b" and r: "lru (bufs s) order" and l: "hasl (km (bk s)) ls" "BCACHE \<notin> set ls" "PTABLE \<notin> set ls"
    and c: "b \<in> dirty_blocks s \<or> disk s b = view s b"
  shows "wp (brelse i s) (\<lambda>_ t. wf_bio t \<and> hasl (km (bk t)) ls \<and> same_blocks s t \<and>
      busy_blocks t = busy_blocks s - {b} \<and> lru (bufs t) (i # remove1 i order) \<and> (\<forall>j c. holds s j c \<longrightarrow> c \<noteq> b \<longrightarrow> holds t j c))"
proof -
  have i: "i < length (bufs s)" using wf_bioD(1) [OF wf] holdsD(2) [OF h] by simp
  define bs where "bs = setb i (\<lambda>x. x\<lparr>busy := False\<rparr>) (link_front i (unlink_buf i (bufs s)))"
  have post: "wf_bio t \<and> same_blocks s t \<and> busy_blocks t = busy_blocks s - {b} \<and>
      lru (bufs t) (i # remove1 i order) \<and>
      (\<forall>j c. holds s j c \<longrightarrow> c \<noteq> b \<longrightarrow> holds t j c)"
    if t: "t = s\<lparr>bufs := bs, bk := k\<rparr>" for k t
  proof -
    have mv: "lru (bufs t) (i # remove1 i order)"
      using lru_move_front [OF r holdsD(2) [OF h]] by (auto simp: t bs_def lru_setb_payload)
    then have ring: "\<exists>l. lru (bufs t) l" by blast
    have len: "i < length (link_front i (unlink_buf i (bufs s)))"
      using lru_move_front [OF r holdsD(2) [OF h]] holdsD(2) [OF h] by (simp add: lru_def)
    have d: "dirty (bufs s ! i) \<longleftrightarrow> b \<in> dirty_blocks s"
      by (rule holds_dirty [OF wf h])
    have pb: "payload (x\<lparr>busy := False\<rparr>) = (False, snd (payload x))" for x by (simp add: payload_def)
    have pl: "payload (bufs t ! j) =
        (if j = i then (False, True, b \<in> dirty_blocks s, 1, b, view s b) else payload (bufs s ! j))" for j
      using len by (simp add: t bs_def nth_setb pb)
        (simp add: payload_def holdsD [OF h] holds_view [OF wf h] d)
    note st = held_step [OF wf h ring pl view_length [OF wf]]
    show ?thesis
      using st c mv wf_bioD(2) [OF wf] by (auto simp: t same_blocks_def split: if_splits)
  qed
  have rel: "wp (on_kern (krelease BCACHE) (s\<lparr>bufs := bs, bk := k\<rparr>)) (\<lambda>_ t. wf_bio t \<and> hasl (km (bk t)) ls \<and>
      same_blocks s t \<and> busy_blocks t = busy_blocks s - {b} \<and>
      lru (bufs t) (i # remove1 i order) \<and>
      (\<forall>j c. holds s j c \<longrightarrow> c \<noteq> b \<longrightarrow> holds t j c))" if "hasl (km k) (BCACHE # ls)" for k
    using krelease_wp [OF that, of BCACHE] post by (auto simp: on_kern_def elim!: wp_mono)
  have wake: "wp (on_kern (wakeup (ChBuf i)) (s\<lparr>bufs := bs, bk := k\<rparr>))
      (\<lambda>_ t. \<exists>k'. hasl (km k') (BCACHE # ls) \<and> t = s\<lparr>bufs := bs, bk := k'\<rparr>)" if "hasl (km k) (BCACHE # ls)" for k
    using wakeup_wp [OF that, of "ChBuf i"] l(3) by (auto simp: on_kern_def elim!: wp_mono)
  have acq: "wp (on_kern (kacquire BCACHE) s) (\<lambda>_ t. \<exists>k. hasl (km k) (BCACHE # ls) \<and> t = s\<lparr>bk := k\<rparr>)"
    using kacquire_wp [OF l(1,2)] by (auto simp: on_kern_def elim: wp_mono)
  have rest: "wp (on_kern (wakeup (ChBuf i)) (s\<lparr>bufs := bs, bk := k\<rparr>)) (\<lambda>_ u. wp (on_kern (krelease BCACHE) u)
      (\<lambda>_ t. wf_bio t \<and> hasl (km (bk t)) ls \<and> same_blocks s t \<and> busy_blocks t = busy_blocks s - {b} \<and>
      lru (bufs t) (i # remove1 i order) \<and>
        (\<forall>j c. holds s j c \<longrightarrow> c \<noteq> b \<longrightarrow> holds t j c)))"
    if "hasl (km k) (BCACHE # ls)" for k
    by (rule wp_mono [OF wake [OF that]]) (auto intro: rel)
  show ?thesis
    using holdsD(3) [OF h] unfolding brelse_def Let_def
    by (simp add: upd_buf_def bs_def [symmetric] bufs_bk_swap) (rule wp_mono [OF acq], auto simp: bufs_bk_swap bs_def [symmetric] intro: rest)
qed

lemma brelse_wp:
  assumes wf: "wf_bio s" and h: "holds s i b" and l: "hasl (km (bk s)) ls" "BCACHE \<notin> set ls" "PTABLE \<notin> set ls"
    and c: "b \<in> dirty_blocks s \<or> disk s b = view s b"
  shows "wp (brelse i s) (\<lambda>_ t. wf_bio t \<and> hasl (km (bk t)) ls \<and> same_blocks s t \<and>
      busy_blocks t = busy_blocks s - {b} \<and> (\<forall>j c. holds s j c \<longrightarrow> c \<noteq> b \<longrightarrow> holds t j c))"
proof -
  obtain order where "lru (bufs s) order" using wf by (auto simp: wf_bio_def)
  from brelse_lru_wp [OF wf h this l c] show ?thesis by (rule wp_mono) blast
qed

section \<open>Boot\<close>

text \<open>The cache as the loader leaves it: zeroed memory.\<close>

definition zero_buf :: buf where
  "zero_buf = \<lparr>busy = False, valid = False, dirty = False, bdev = 0, blockno = 0, bprev = 0, bnext = 0,
     bdata = replicate BSIZE 0\<rparr>"

lemma payload_bdev:
  "payload (x\<lparr>bdev := d\<rparr>) = (case payload x of (a, b, c, _, e, f) \<Rightarrow> (a, b, c, d, e, f))"
  by (simp add: payload_def)

lemma payload_binit:
  assumes "length bs = Suc NBUF" "n \<le> NBUF" "j < NBUF"
  shows "length (fold (\<lambda>b bs. link_front b (setb b (\<lambda>x. x\<lparr>bdev := d\<rparr>) bs)) [0..<n] bs) = Suc NBUF"
    and "payload (fold (\<lambda>b bs. link_front b (setb b (\<lambda>x. x\<lparr>bdev := d\<rparr>) bs)) [0..<n] bs ! j) =
      (if j < n then payload ((bs ! j)\<lparr>bdev := d\<rparr>) else payload (bs ! j))"
  using assms(2)
proof (induction n)
  case 0
  case 1
  then show ?case using assms by simp
  case 2
  then show ?case by simp
next
  case (Suc n)
  case 1
  then show ?case using Suc by simp
  case 2
  define r where "r = fold (\<lambda>b bs. link_front b (setb b (\<lambda>x. x\<lparr>bdev := d\<rparr>) bs)) [0..<n] bs"
  have r: "length r = Suc NBUF" "payload (r ! j) = (if j < n then payload ((bs ! j)\<lparr>bdev := d\<rparr>) else payload (bs ! j))"
    using Suc.IH 2 by (simp_all add: r_def)
  have "payload (link_front n (setb n (\<lambda>x. x\<lparr>bdev := d\<rparr>) r) ! j) =
      (if n = j then payload ((r ! j)\<lparr>bdev := d\<rparr>) else payload (r ! j))"
    using r(1) assms(3) by (simp add: nth_setb)
  then show ?case using r(2) by (simp add: r_def less_Suc_eq payload_bdev split: if_splits)
qed

lemma binit_lru:
  assumes "length (bufs s) = Suc NBUF"
  shows "lru (bufs (binit s)) (rev [0..<NBUF])"
proof -
  let ?h = "setb HEAD (\<lambda>h. h\<lparr>bprev := HEAD, bnext := HEAD\<rparr>) (bufs s)"
  have len: "length ?h = Suc NBUF" using assms by simp
  have ring: "ring (nxf ?h) (pvf ?h) HEAD [] HEAD" using assms by (simp add: nxf_def pvf_def nth_setb)
  show ?thesis
    using ring_binit [OF len order.refl ring, of "2 ^ 32 - 1"] unfolding binit_def lru_def Let_def by auto
qed

lemma binit_wf:
  assumes bs: "bufs s = replicate (Suc NBUF) zero_buf" and dsk: "\<And>b. length (disk s b) = BSIZE"
  shows "wf_bio (binit s)" "busy_blocks (binit s) = {}" "dirty_blocks (binit s) = {}"
    "view (binit s) = disk s" "disk (binit s) = disk s" "disksize (binit s) = disksize s"
    "writes (binit s) = writes s" "\<not> caches (binit s) j c"
    "j < NBUF \<Longrightarrow> \<not> busy (bufs (binit s) ! j) \<and> \<not> dirty (bufs (binit s) ! j)"
proof -
  let ?h = "setb HEAD (\<lambda>h. h\<lparr>bprev := HEAD, bnext := HEAD\<rparr>) (bufs s)"
  let ?bs = "fold (\<lambda>b bs. link_front b (setb b (\<lambda>x. x\<lparr>bdev := 2 ^ 32 - 1\<rparr>) bs)) [0..<NBUF] ?h"
  have z: "bufs s ! j = zero_buf" if "j < Suc NBUF" for j
    using that unfolding bs by (rule nth_replicate)
  have lb: "length (bufs s) = Suc NBUF" unfolding bs by (rule length_replicate)
  have b: "bufs (binit s) = ?bs" by (simp add: binit_def Let_def)
  have len: "length ?h = Suc NBUF" by (simp add: lb)
  have lru: "\<exists>l. lru (bufs (binit s)) l" using binit_lru [OF lb] by blast
  have pl: "payload (bufs (binit s) ! j) = (False, False, False, 2 ^ 32 - 1, 0, replicate BSIZE 0)" if "j < NBUF" for j
    using payload_binit(2) [OF len order.refl that, of "2 ^ 32 - 1"] that z [of j] unfolding b
    by (simp only: nth_setb payload_bdev) (simp add: payload_def zero_buf_def)
  have fl: "\<not> busy (bufs (binit s) ! j)" "\<not> valid (bufs (binit s) ! j)" "\<not> dirty (bufs (binit s) ! j)"
    "bdev (bufs (binit s) ! j) \<noteq> 1" if "j < NBUF" for j
    using pl [OF that] by (simp_all add: payload_def)
  then have nc: "\<not> caches (binit s) j c" for j c by (auto simp: caches_def)
  show "\<not> caches (binit s) j c" by (rule nc)
  show "j < NBUF \<Longrightarrow> \<not> busy (bufs (binit s) ! j) \<and> \<not> dirty (bufs (binit s) ! j)" using fl by blast
  show d: "disk (binit s) = disk s" "disksize (binit s) = disksize s" "writes (binit s) = writes s"
    by (simp_all add: binit_def Let_def)
  show "wf_bio (binit s)"
    by (rule wf_bioI [OF lru]) (use nc fl dsk d in \<open>simp_all add: wf_buf_def\<close>)
  show "busy_blocks (binit s) = {}" "dirty_blocks (binit s) = {}"
    using nc by (simp_all add: busy_blocks_def dirty_blocks_def)
  show "view (binit s) = disk s"
    using view_uncached [of "binit s"] nc d(1) by (simp add: fun_eq_iff)
qed

text \<open>A block nobody holds and nobody pinned reads as the disk has it.\<close>

lemma view_disk:
  assumes wf: "wf_bio s" and "b \<notin> busy_blocks s" "b \<notin> dirty_blocks s"
  shows "view s b = disk s b"
proof (rule viewI [OF wf])
  fix j
  assume j: "caches s j b" "valid (bufs s ! j)"
  then have "\<not> busy (bufs s ! j)" "\<not> dirty (bufs s ! j)"
    using assms(2,3) by (auto simp: busy_blocks_def dirty_blocks_def)
  then show "disk s b = bdata (bufs s ! j)"
    using wf_bioD(5) [OF wf j] by simp
qed simp

section \<open>The interface of a block layer\<close>

text \<open>
  What code above the cache relies on: reading a block yields a buffer with its contents,
  nobody else has the block meanwhile, and after the buffer was changed and saved it can be
  given back. \<open>sv\<close> is how a layer makes a change stick: \<open>bwrite\<close> for the cache itself,
  \<open>log_write\<close> for the log. \<open>keeps\<close> lists what an operation on one block leaves alone.
\<close>

locale block_layer =
  fixes inv :: "'s \<Rightarrow> bool" and blocks busyb pins :: "'s \<Rightarrow> nat set"
    and contents :: "'s \<Rightarrow> nat \<Rightarrow> bytes" and held :: "'s \<Rightarrow> nat \<Rightarrow> nat \<Rightarrow> bool"
    and dat :: "'s \<Rightarrow> nat \<Rightarrow> bytes" and settled savable :: "'s \<Rightarrow> nat \<Rightarrow> bool"
    and rd :: "nat \<Rightarrow> 's \<Rightarrow> (nat, 's) outcome" and wr :: "nat \<Rightarrow> bytes \<Rightarrow> 's \<Rightarrow> 's"
    and sv rl :: "nat \<Rightarrow> 's \<Rightarrow> (unit, 's) outcome"
  assumes rd: "inv s \<Longrightarrow> b \<in> blocks s \<Longrightarrow> b \<notin> busyb s \<Longrightarrow>
      b \<in> pins s \<or> card (busyb s \<union> pins s) < NBUF \<Longrightarrow>
      wp (rd b s) (\<lambda>i t. inv t \<and> blocks t = blocks s \<and> contents t = contents s \<and> pins t = pins s \<and>
        busyb t = insert b (busyb s) \<and> held t i b \<and> settled t b \<and> (savable s b \<longrightarrow> savable t b) \<and>
        (\<forall>j c. held s j c \<longrightarrow> held t j c))"
    and wr: "inv s \<Longrightarrow> held s i b \<Longrightarrow> length d = BSIZE \<Longrightarrow>
      inv (wr i d s) \<and> blocks (wr i d s) = blocks s \<and> contents (wr i d s) = (contents s)(b := d) \<and>
      pins (wr i d s) = pins s \<and> busyb (wr i d s) = busyb s \<and> (savable s b \<longrightarrow> savable (wr i d s) b) \<and>
      (\<forall>j c. held s j c \<longrightarrow> held (wr i d s) j c)"
    and sv: "inv s \<Longrightarrow> held s i b \<Longrightarrow> savable s b \<Longrightarrow>
      wp (sv i s) (\<lambda>_ t. inv t \<and> blocks t = blocks s \<and> contents t = contents s \<and>
        pins t \<subseteq> insert b (pins s) \<and> busyb t = busyb s \<and> settled t b \<and> (\<forall>j c. held s j c \<longrightarrow> held t j c))"
    and rl: "inv s \<Longrightarrow> held s i b \<Longrightarrow> settled s b \<Longrightarrow>
      wp (rl i s) (\<lambda>_ t. inv t \<and> blocks t = blocks s \<and> contents t = contents s \<and> pins t = pins s \<and>
        busyb t = busyb s - {b} \<and> (\<forall>j c. held s j c \<longrightarrow> c \<noteq> b \<longrightarrow> held t j c))"
    and dat: "inv s \<Longrightarrow> held s i b \<Longrightarrow> dat s i = contents s b"
begin

text \<open>Reading from a block: \<open>bread\<close>, look at the data, \<open>brelse\<close>.\<close>

lemma read_block:
  assumes "inv s" "b \<in> blocks s" "b \<notin> busyb s" "b \<in> pins s \<or> card (busyb s \<union> pins s) < NBUF"
  shows "wp (bindR (rd b s) (\<lambda>i s. bindR (rl i s) (\<lambda>_. Ret (f (dat s i)))))
    (\<lambda>x t. x = f (contents s b) \<and> inv t \<and> blocks t = blocks s \<and> contents t = contents s \<and> pins t = pins s \<and>
      busyb t = busyb s \<and> (\<forall>j c. held s j c \<longrightarrow> c \<noteq> b \<longrightarrow> held t j c))"
  unfolding wp_bindR
proof (rule wp_mono [OF rd [OF assms]], elim conjE)
  fix i t
  assume t: "inv t" "blocks t = blocks s" "contents t = contents s" "pins t = pins s"
    "busyb t = insert b (busyb s)" "held t i b" "settled t b" "\<forall>j c. held s j c \<longrightarrow> held t j c"
  have "dat t i = contents s b" using dat [OF t(1,6)] t(3) by simp
  then show "wp (rl i t) (\<lambda>_ u. wp (Ret (f (dat t i)) u) (\<lambda>x t. x = f (contents s b) \<and> inv t \<and> blocks t = blocks s \<and>
      contents t = contents s \<and> pins t = pins s \<and> busyb t = busyb s \<and> (\<forall>j c. held s j c \<longrightarrow> c \<noteq> b \<longrightarrow> held t j c)))"
    using t assms(3) by (intro wp_mono [OF rl [OF t(1,6,7)]]) auto
qed

text \<open>Changing a block: \<open>bread\<close>, change the data, save, \<open>brelse\<close>.\<close>

lemma update_block:
  assumes "inv s" "b \<in> blocks s" "b \<notin> busyb s" "b \<in> pins s \<or> card (busyb s \<union> pins s) < NBUF"
    and "savable s b" and f: "\<And>d. length d = BSIZE \<Longrightarrow> length (f d) = BSIZE" "length (contents s b) = BSIZE"
  shows "wp (bindR (rd b s) (\<lambda>i s. bindR (sv i (wr i (f (dat s i)) s)) (\<lambda>_. rl i)))
    (\<lambda>_ t. inv t \<and> blocks t = blocks s \<and> contents t = (contents s)(b := f (contents s b)) \<and>
      pins t \<subseteq> insert b (pins s) \<and> busyb t = busyb s \<and> (\<forall>j c. held s j c \<longrightarrow> c \<noteq> b \<longrightarrow> held t j c))"
    (is "wp _ ?Q")
  unfolding wp_bindR
proof (rule wp_mono [OF rd [OF assms(1-4)]], elim conjE)
  fix i t
  assume t: "inv t" "blocks t = blocks s" "contents t = contents s" "pins t = pins s"
    "busyb t = insert b (busyb s)" "held t i b" "settled t b" "savable s b \<longrightarrow> savable t b"
    "\<forall>j c. held s j c \<longrightarrow> held t j c"
  define u where "u = wr i (f (dat t i)) t"
  have d: "dat t i = contents s b" using dat [OF t(1,6)] t(3) by simp
  then have "length (f (dat t i)) = BSIZE" using f by simp
  from wr [OF t(1,6) this] have u: "inv u" "blocks u = blocks s" "contents u = (contents s)(b := f (contents s b))"
    "pins u = pins s" "busyb u = insert b (busyb s)" "held u i b" "savable u b" "\<forall>j c. held s j c \<longrightarrow> held u j c"
    using t assms(5) d by (simp_all add: u_def)
  have "wp (rl i v) ?Q" if v: "inv v" "blocks v = blocks u" "contents v = contents u"
    "pins v \<subseteq> insert b (pins u)" "busyb v = busyb u" "settled v b" "\<forall>j c. held u j c \<longrightarrow> held v j c" for v
  proof (rule wp_mono [OF rl [OF v(1) _ v(6)]])
    show "held v i b" using u(6) v(7) by blast
  qed (use u v assms(3) in auto)
  then show "wp (sv i (wr i (f (dat t i)) t)) (\<lambda>_ t. wp (rl i t) ?Q)"
    unfolding u_def [symmetric] by (intro wp_mono [OF sv [OF u(1,6,7)]]) auto
qed

end

text \<open>The cache itself is such a layer, with \<open>bwrite\<close> to make a change stick.\<close>

definition bio_ok :: "lockid list \<Rightarrow> bio \<Rightarrow> bool" where
  "bio_ok ls s \<longleftrightarrow> wf_bio s \<and> hasl (km (bk s)) ls \<and> BCACHE \<notin> set ls \<and> PTABLE \<notin> set ls"

lemma bio_ok_view_length: "bio_ok ls s \<Longrightarrow> length (view s b) = BSIZE"
  by (simp add: bio_ok_def view_length)

interpretation cache: block_layer "bio_ok ls" "\<lambda>s. {..<disksize s}" busy_blocks dirty_blocks view holds
  "\<lambda>s i. bdata (bufs s ! i)" "\<lambda>s b. b \<in> dirty_blocks s \<or> disk s b = view s b" "\<lambda>s b. True"
  "bread 1" set_data bwrite brelse for ls
proof
  fix s b
  assume s: "bio_ok ls s" "b \<in> {..<disksize s}" "b \<notin> busy_blocks s"
    "b \<in> dirty_blocks s \<or> card (busy_blocks s \<union> dirty_blocks s) < NBUF"
  then have "b \<in> dirty_blocks s \<or> disk s b = view s b"
    by (cases "b \<in> dirty_blocks s") (simp_all add: bio_ok_def view_disk)
  then show "wp (bread 1 b s) (\<lambda>i t. bio_ok ls t \<and> {..<disksize t} = {..<disksize s} \<and> view t = view s \<and>
      dirty_blocks t = dirty_blocks s \<and> busy_blocks t = insert b (busy_blocks s) \<and> holds t i b \<and>
      (b \<in> dirty_blocks t \<or> disk t b = view t b) \<and> (True \<longrightarrow> True) \<and> (\<forall>j c. holds s j c \<longrightarrow> holds t j c))"
    using s by (intro wp_mono [OF bread_wp [of s ls b]]) (auto simp: bio_ok_def same_blocks_def)
next
  fix s i b d
  assume "bio_ok ls s" "holds s i b" "length (d :: bytes) = BSIZE"
  then show "bio_ok ls (set_data i d s) \<and> {..<disksize (set_data i d s)} = {..<disksize s} \<and>
      view (set_data i d s) = (view s)(b := d) \<and> dirty_blocks (set_data i d s) = dirty_blocks s \<and>
      busy_blocks (set_data i d s) = busy_blocks s \<and> (True \<longrightarrow> True) \<and> (\<forall>j c. holds s j c \<longrightarrow> holds (set_data i d s) j c)"
    by (simp add: bio_ok_def set_data_spec)
next
  fix s i b
  assume "bio_ok ls s" "holds s i b"
  then show "wp (bwrite i s) (\<lambda>_ t. bio_ok ls t \<and> {..<disksize t} = {..<disksize s} \<and> view t = view s \<and>
      dirty_blocks t \<subseteq> insert b (dirty_blocks s) \<and> busy_blocks t = busy_blocks s \<and>
      (b \<in> dirty_blocks t \<or> disk t b = view t b) \<and> (\<forall>j c. holds s j c \<longrightarrow> holds t j c))"
    by (intro wp_mono [OF bwrite_wp [of s i b]]) (auto simp: bio_ok_def)
next
  fix s i b
  assume "bio_ok ls s" "holds s i b" "b \<in> dirty_blocks s \<or> disk s b = view s b"
  then show "wp (brelse i s) (\<lambda>_ t. bio_ok ls t \<and> {..<disksize t} = {..<disksize s} \<and> view t = view s \<and>
      dirty_blocks t = dirty_blocks s \<and> busy_blocks t = busy_blocks s - {b} \<and>
      (\<forall>j c. holds s j c \<longrightarrow> c \<noteq> b \<longrightarrow> holds t j c))"
    by (intro wp_mono [OF brelse_wp [of s i b ls]]) (auto simp: bio_ok_def same_blocks_def)
next
  fix s i b
  assume "bio_ok ls s" "holds s i b"
  then show "bdata (bufs s ! i) = view s b" by (simp add: bio_ok_def holds_view)
qed

section \<open>Properties\<close>

lemma find_skip: "(\<And>x. x \<in> set xs \<Longrightarrow> \<not> P x) \<Longrightarrow> P y \<Longrightarrow> List.find P (xs @ y # ys) = Some y"
  by (induction xs) auto

lemma ring_cong:
  "ring nx pv x l y \<Longrightarrow> (\<And>i. i \<in> set (x # l) \<Longrightarrow> nx' i = nx i) \<Longrightarrow> (\<And>i. i \<in> set (l @ [y]) \<Longrightarrow> pv' i = pv i) \<Longrightarrow>
     ring nx' pv' x l y"
  by (induction l arbitrary: x) auto

text \<open>A freshly booted machine with an all-zero disk, for the examples.\<close>

definition bio0 :: "nat \<Rightarrow> bio" where
  "bio0 n = binit \<lparr>bk = kern0, bufs = replicate (Suc NBUF) zero_buf, disk = (\<lambda>_. replicate BSIZE 0),
     disksize = n, writes = []\<rparr>"

lemma bio0_facts:
  "wf_bio (bio0 n)" "busy_blocks (bio0 n) = {}" "dirty_blocks (bio0 n) = {}"
  "view (bio0 n) = (\<lambda>_. replicate BSIZE 0)" "disk (bio0 n) = (\<lambda>_. replicate BSIZE 0)"
  "disksize (bio0 n) = n" "writes (bio0 n) = []" "hasl (km (bk (bio0 n))) []" "\<not> caches (bio0 n) j b"
  "j < NBUF \<Longrightarrow> \<not> busy (bufs (bio0 n) ! j) \<and> \<not> dirty (bufs (bio0 n) ! j)"
proof -
  let ?s = "\<lparr>bk = kern0, bufs = replicate (Suc NBUF) zero_buf, disk = (\<lambda>_. replicate BSIZE 0),
     disksize = n, writes = []\<rparr>"
  have "bufs ?s = replicate (Suc NBUF) zero_buf" "\<And>b. length (disk ?s b) = BSIZE"
    by (simp_all del: replicate.simps)
  note b = binit_wf [OF this]
  then show "wf_bio (bio0 n)" "busy_blocks (bio0 n) = {}" "dirty_blocks (bio0 n) = {}"
    "view (bio0 n) = (\<lambda>_. replicate BSIZE 0)" "disk (bio0 n) = (\<lambda>_. replicate BSIZE 0)"
    "disksize (bio0 n) = n" "writes (bio0 n) = []" "\<not> caches (bio0 n) j b"
    "j < NBUF \<Longrightarrow> \<not> busy (bufs (bio0 n) ! j) \<and> \<not> dirty (bufs (bio0 n) ! j)"
    unfolding bio0_def by simp_all
  show "hasl (km (bk (bio0 n))) []"
    using kern0_hasl
    by (simp add: bio0_def binit_def Let_def hasl_def initlock_def mach_defs)
qed

lemma bio0_lru: "lru (bufs (bio0 n)) (rev [0..<NBUF])"
  unfolding bio0_def by (rule binit_lru) (simp del: replicate.simps)

text \<open>
  C7. \<open>bread\<close> returns. The buffer it returns is locked for the caller and holds the current
  contents of the block; contents of all blocks, the disk and the set of pinned blocks are
  unchanged, and the cache invariant (intact ring, at most one buffer per block, idle buffers
  agree with the disk) is kept. It needs one buffer that is neither locked nor pinned, unless
  the block is pinned itself.
\<close>

theorem bread_returns_block:
  assumes "wf_bio s" "hasl (km (bk s)) ls" "BCACHE \<notin> set ls" "b < disksize s" "b \<notin> busy_blocks s"
    and "b \<in> dirty_blocks s \<or> card (busy_blocks s \<union> dirty_blocks s) < NBUF"
  shows "\<exists>i t. bread 1 b s = Ret i t \<and> wf_bio t \<and> hasl (km (bk t)) ls \<and> holds t i b \<and>
    bdata (bufs t ! i) = view s b \<and> view t = view s \<and> disk t = disk s \<and> writes t = writes s \<and>
    busy_blocks t = insert b (busy_blocks s) \<and> dirty_blocks t = dirty_blocks s"
  using bread_wp [OF assms] unfolding wp_iff same_blocks_def by blast

theorem bread_returns_block_witness:
  "\<exists>i t. bread 1 7 (bio0 20) = Ret i t \<and> wf_bio t \<and> holds t i 7 \<and> bdata (bufs t ! i) = replicate BSIZE 0 \<and>
     busy_blocks t = {7}"
  using bread_returns_block [of "bio0 20" "[]" 7] by (auto simp: bio0_facts NBUF_def)

text \<open>
  C22. On a miss \<open>bget\<close> recycles the buffer that has been unused for longest among those that
  are neither locked nor pinned: the last such one in the ring's order of use.
\<close>

theorem bget_recycles_lru:
  assumes "wf_bio s" "hasl (km (bk s)) ls" "BCACHE \<notin> set ls" "lru (bufs s) (newer @ i # older)"
    and "\<And>j. \<not> caches s j b" and "\<not> busy (bufs s ! i)" "\<not> dirty (bufs s ! i)"
    and "\<And>j. j \<in> set older \<Longrightarrow> busy (bufs s ! j) \<or> dirty (bufs s ! j)"
  shows "\<exists>t. bget 1 b s = Ret i t \<and> caches t i b \<and> busy (bufs t ! i) \<and> lru (bufs t) (newer @ i # older)"
proof -
  let ?l = "newer @ i # older"
  have i: "i < NBUF" "i < length (bufs s)" using assms(4) by (auto simp: lru_def)
  have miss: "lookup_order s b ?l = None"
    using assms(4,5) by (auto simp: find_None_iff caches_def lru_def)
  have vic: "victim_order s ?l = Some i"
    using assms(6-8) by (simp, intro find_skip) auto
  have "caches (claimed i b s) i b \<and> busy (bufs (claimed i b s) ! i) \<and> lru (bufs (claimed i b s)) ?l"
    using i assms(4) by (auto simp: claimed_def nth_setb caches_def lru_setb_payload)
  then show ?thesis
    using bget_miss [OF assms(2-4) miss vic] unfolding wp_iff by auto
qed

theorem bget_recycles_lru_witness:
  "\<exists>t. bget 1 7 (bio0 20) = Ret 0 t \<and> caches t 0 7 \<and> busy (bufs t ! 0) \<and>
     lru (bufs t) (rev [1..<NBUF] @ [0])"
proof -
  have l: "lru (bufs (bio0 20)) (rev [1..<NBUF] @ 0 # [])"
    using bio0_lru [of 20] by (simp add: upt_conv_Cons NBUF_def del: upt_Suc)
  have "(0 :: nat) < NBUF" by (simp add: NBUF_def)
  then show ?thesis
    using bget_recycles_lru [OF bio0_facts(1,8) _ l, of 7] bio0_facts(9) [of 20 _ 7] bio0_facts(10) [of 0 20] by simp
qed

text \<open>
  C23. \<open>brelse\<close> returns and moves the buffer to the front of the ring, so that the ring keeps
  the order of last use; the buffer is no longer locked, every other lock and all contents
  stay. A buffer with a change that is neither written nor pinned must not be given back.
\<close>

theorem brelse_keeps_order:
  assumes "wf_bio s" "holds s i b" "lru (bufs s) order" "hasl (km (bk s)) ls" "BCACHE \<notin> set ls" "PTABLE \<notin> set ls"
    and "b \<in> dirty_blocks s \<or> disk s b = view s b"
  shows "\<exists>t. brelse i s = Ret () t \<and> wf_bio t \<and> hasl (km (bk t)) ls \<and> lru (bufs t) (i # remove1 i order) \<and>
    busy_blocks t = busy_blocks s - {b} \<and> view t = view s \<and> disk t = disk s \<and> dirty_blocks t = dirty_blocks s"
  using brelse_lru_wp [OF assms] unfolding wp_iff same_blocks_def by auto

theorem brelse_keeps_order_witness:
  "\<exists>i s t. bread 1 7 (bio0 20) = Ret i s \<and> brelse i s = Ret () t \<and> wf_bio t \<and> busy_blocks t = {}"
proof -
  have "wp (bread 1 7 (bio0 20)) (\<lambda>i t. wf_bio t \<and> hasl (km (bk t)) [] \<and> same_blocks (bio0 20) t \<and>
      busy_blocks t = {7} \<and> holds t i 7)"
    using bread_wp [of "bio0 20" "[]" 7] by (auto simp: bio0_facts NBUF_def elim: wp_mono)
  then obtain i s where s: "bread 1 7 (bio0 20) = Ret i s" "wf_bio s" "hasl (km (bk s)) []"
    "same_blocks (bio0 20) s" "busy_blocks s = {7}" "holds s i 7"
    unfolding wp_iff by blast
  obtain order where "lru (bufs s) order" using s(2) by (auto simp: wf_bio_def)
  from brelse_keeps_order [OF s(2,6) this s(3)] s show ?thesis
    by (auto simp: same_blocks_def bio0_facts)
qed


definition all_busy :: bio where
  "all_busy = (bio0 20)\<lparr>bufs := map (\<lambda>x. x\<lparr>busy := True\<rparr>) (bufs (bio0 20))\<rparr>"


end
