(* ===== verification/Log.thy ===== *)
theory Log
  imports Bio
begin

text \<open>
  The redo log (\<open>src/log.c\<close>), with \<open>readsb\<close> of \<open>src/fs.c\<close>, which it calls. \<open>log.lh.n\<close>
  and \<open>log.outstanding\<close> are signed in the source and integers here; block numbers are
  naturals. \<open>begin_op\<close> ends in \<open>Asleep\<close> when it must wait, and runs \<open>begin_op_loop\<close>
  again when it is resumed with the lock held.
  The lemmas give the exact sequence of disk writes of a commit and of a recovery, and show
  that a crash between any two of them leaves the file system with all of the transaction or
  none of it; that recovery can itself be interrupted; the bookkeeping of \<open>begin_op\<close>,
  \<open>log_write\<close> and \<open>end_op\<close>; and that the log is a block layer in the sense of \<open>Bio\<close>.
\<close>

section \<open>State\<close>

definition MAXOPBLOCKS :: nat where "MAXOPBLOCKS = 10"
definition LOGSIZE :: nat where "LOGSIZE = MAXOPBLOCKS * 3"

record superblock =
  sb_size :: nat
  sb_nblocks :: nat
  sb_ninodes :: nat
  sb_nlog :: nat
  sb_logstart :: nat
  sb_inodestart :: nat
  sb_bmapstart :: nat

record log =
  lb :: bio
  lstart :: nat
  lsize :: nat
  outstanding :: int
  committing :: bool
  ldev :: nat
  lhn :: int
  lhblock :: "nat list"

definition on_bio :: "(bio \<Rightarrow> ('a, bio) outcome) \<Rightarrow> log \<Rightarrow> ('a, log) outcome" where
  "on_bio = zoom lb (\<lambda>b s. s\<lparr>lb := b\<rparr>)"

definition on_lkern :: "(kern \<Rightarrow> ('a, kern) outcome) \<Rightarrow> log \<Rightarrow> ('a, log) outcome" where
  "on_lkern f = on_bio (on_kern f)"

text \<open>The data of buffer \<open>i\<close>, and storing into it.\<close>

definition ldata :: "log \<Rightarrow> nat \<Rightarrow> bytes" where
  "ldata s i = bdata (bufs (lb s) ! i)"

definition lset_data :: "nat \<Rightarrow> bytes \<Rightarrow> log \<Rightarrow> log" where
  "lset_data i d s = s\<lparr>lb := set_data i d (lb s)\<rparr>"

section \<open>log.c\<close>

definition sb_of :: "bytes \<Rightarrow> superblock" where
  "sb_of d = \<lparr>sb_size = get32 0 d, sb_nblocks = get32 4 d, sb_ninodes = get32 8 d, sb_nlog = get32 12 d,
     sb_logstart = get32 16 d, sb_inodestart = get32 20 d, sb_bmapstart = get32 24 d\<rparr>"

definition readsb :: "nat \<Rightarrow> bio \<Rightarrow> (superblock, bio) outcome" where
  "readsb dev s = bindR (bread dev 1 s) (\<lambda>bp s. bindR (brelse bp s) (\<lambda>_. Ret (sb_of (bdata (bufs s ! bp)))))"

definition install_block :: "nat \<Rightarrow> log \<Rightarrow> (unit, log) outcome" where
  "install_block tail s =
     bindR (on_bio (bread (ldev s) (lstart s + tail + 1)) s) (\<lambda>lbuf s.
     bindR (on_bio (bread (ldev s) (lhblock s ! tail)) s) (\<lambda>dbuf s.
     bindR (on_bio (bwrite dbuf) (lset_data dbuf (ldata s lbuf) s)) (\<lambda>_ s.
     bindR (on_bio (brelse lbuf) s) (\<lambda>_.
     on_bio (brelse dbuf)))))"

definition install_trans :: "log \<Rightarrow> (unit, log) outcome" where
  "install_trans s = foreach install_block [0..<nat (lhn s)] s"

text \<open>An \<open>int\<close> in memory.\<close>

definition int32 :: "nat \<Rightarrow> int" where
  "int32 v = (if v < 2 ^ 31 then int v else int v - 2 ^ 32)"

text \<open>
  A header that claims more blocks than \<open>log.lh.block\<close> has room for overruns the array; the
  model stops there.
\<close>

definition read_head :: "log \<Rightarrow> (unit, log) outcome" where
  "read_head s =
     bindR (on_bio (bread (ldev s) (lstart s)) s) (\<lambda>b s.
     let lh = ldata s b; n = int32 (get32 0 lh) in
     if n > int LOGSIZE then Panic ''read_head: log.lh.block overrun''
     else on_bio (brelse b)
       (s\<lparr>lhn := n,
          lhblock := fold (\<lambda>i bl. bl[i := get32 (4 + 4 * i) lh]) [0..<nat n] (lhblock s)\<rparr>))"

definition write_head :: "log \<Rightarrow> (unit, log) outcome" where
  "write_head s =
     bindR (on_bio (bread (ldev s) (lstart s)) s) (\<lambda>b s.
     let hb = put32 0 (nat (lhn s mod 2 ^ 32)) (ldata s b);
         hb = put_fields 4 4 (\<lambda>i. lhblock s ! i) (nat (lhn s)) hb in
     bindR (on_bio (bwrite b) (lset_data b hb s)) (\<lambda>_.
     on_bio (brelse b)))"

definition recover_from_log :: "log \<Rightarrow> (unit, log) outcome" where
  "recover_from_log s =
     bindR (read_head s) (\<lambda>_ s.
     bindR (install_trans s) (\<lambda>_ s.
     write_head (s\<lparr>lhn := 0\<rparr>)))"

definition initlog :: "nat \<Rightarrow> log \<Rightarrow> (unit, log) outcome" where
  "initlog dev s =
     (if 4 + 4 * LOGSIZE \<ge> BSIZE then Panic ''initlog: too big logheader''
      else let b = lb s; k = bk b;
               s = s\<lparr>lb := b\<lparr>bk := k\<lparr>km := initlock LOGLK ''log'' (km k)\<rparr>\<rparr>\<rparr>
      in bindR (on_bio (readsb dev) s) (\<lambda>sb s.
         recover_from_log (s\<lparr>lstart := sb_logstart sb, lsize := sb_nlog sb, ldev := dev\<rparr>)))"

definition begin_op_loop :: "log \<Rightarrow> (unit, log) outcome" where
  "begin_op_loop s =
     (if committing s then bindR (on_lkern (sleep ChLog (Some LOGLK)) s) (\<lambda>_ s. Asleep s)
      else if lhn s + (outstanding s + 1) * int MAXOPBLOCKS > int LOGSIZE
      then bindR (on_lkern (sleep ChLog (Some LOGLK)) s) (\<lambda>_ s. Asleep s)
      else on_lkern (krelease LOGLK) (s\<lparr>outstanding := outstanding s + 1\<rparr>))"

definition begin_op :: "log \<Rightarrow> (unit, log) outcome" where
  "begin_op s = bindR (on_lkern (kacquire LOGLK) s) (\<lambda>_. begin_op_loop)"

definition log_block :: "nat \<Rightarrow> log \<Rightarrow> (unit, log) outcome" where
  "log_block tail s =
     bindR (on_bio (bread (ldev s) (lstart s + tail + 1)) s) (\<lambda>to s.
     bindR (on_bio (bread (ldev s) (lhblock s ! tail)) s) (\<lambda>from s.
     bindR (on_bio (bwrite to) (lset_data to (ldata s from) s)) (\<lambda>_ s.
     bindR (on_bio (brelse from) s) (\<lambda>_.
     on_bio (brelse to)))))"

definition write_log :: "log \<Rightarrow> (unit, log) outcome" where
  "write_log s = foreach log_block [0..<nat (lhn s)] s"

definition commit :: "log \<Rightarrow> (unit, log) outcome" where
  "commit s =
     (if lhn s > 0
      then bindR (write_log s) (\<lambda>_ s.
           bindR (write_head s) (\<lambda>_ s.
           bindR (install_trans s) (\<lambda>_ s.
           write_head (s\<lparr>lhn := 0\<rparr>))))
      else Ret () s)"

definition end_op :: "log \<Rightarrow> (unit, log) outcome" where
  "end_op s =
     bindR (on_lkern (kacquire LOGLK) s) (\<lambda>_ s.
     let s = s\<lparr>outstanding := outstanding s - 1\<rparr> in
     if committing s then Panic ''log.committing''
     else if outstanding s = 0
     then bindR (on_lkern (krelease LOGLK) (s\<lparr>committing := True\<rparr>)) (\<lambda>_ s.
          bindR (commit s) (\<lambda>_ s.
          bindR (on_lkern (kacquire LOGLK) s) (\<lambda>_ s.
          bindR (on_lkern (wakeup ChLog) (s\<lparr>committing := False\<rparr>)) (\<lambda>_.
          on_lkern (krelease LOGLK)))))
     else bindR (on_lkern (wakeup ChLog) s) (\<lambda>_.
          on_lkern (krelease LOGLK)))"

text \<open>The blocks of the running transaction: the used part of \<open>log.lh.block\<close>.\<close>

definition logged :: "log \<Rightarrow> nat list" where
  "logged s = take (nat (lhn s)) (lhblock s)"

definition log_write :: "nat \<Rightarrow> log \<Rightarrow> (unit, log) outcome" where
  "log_write b s =
     (if lhn s \<ge> int LOGSIZE \<or> lhn s \<ge> int (lsize s) - 1 then Panic ''too big a transaction''
      else if outstanding s < 1 then Panic ''log_write outside of trans''
      else bindR (on_lkern (kacquire LOGLK) s) (\<lambda>_ s.
        let bno = blockno (bufs (lb s) ! b);
            i = (case first_idx (\<lambda>x. x = bno) (logged s) of Some i \<Rightarrow> i | None \<Rightarrow> nat (lhn s));
            s = s\<lparr>lhblock := (lhblock s)[i := bno],
                  lhn := if int i = lhn s then lhn s + 1 else lhn s,
                  lb := set_dirty b (lb s)\<rparr>
        in on_lkern (krelease LOGLK) s))"

section \<open>Disk writes\<close>

fun apply_writes :: "(nat \<times> bytes) list \<Rightarrow> (nat \<Rightarrow> bytes) \<Rightarrow> nat \<Rightarrow> bytes" where
  "apply_writes [] d = d"
| "apply_writes ((b, v) # ws) d = apply_writes ws (d(b := v))"

lemma apply_writes_append [simp]: "apply_writes (ws @ vs) d = apply_writes vs (apply_writes ws d)"
  by (induction ws arbitrary: d) auto

lemma apply_writes_notin: "c \<notin> fst ` set ws \<Longrightarrow> apply_writes ws d c = d c"
  by (induction ws arbitrary: d) (auto split: prod.splits)

lemma apply_writes_in:
  "distinct (map fst ws) \<Longrightarrow> (c, v) \<in> set ws \<Longrightarrow> apply_writes ws d c = v"
proof (induction ws arbitrary: d)
  case Nil
  then show ?case by simp
next
  case (Cons w ws)
  obtain a x where w: "w = (a, x)" by (cases w)
  show ?case
  proof (cases "(c, v) \<in> set ws")
    case True
    then show ?thesis using Cons w by simp
  next
    case False
    then have "c = a" "v = x" using Cons.prems w by auto
    then show ?thesis using Cons.prems w apply_writes_notin [of c ws] by auto
  qed
qed

text \<open>Writing a value that is already there changes nothing.\<close>

lemma apply_writes_same: "(\<And>c v. (c, v) \<in> set ws \<Longrightarrow> d c = v) \<Longrightarrow> apply_writes ws d = d"
proof (induction ws)
  case Nil
  then show ?case by simp
next
  case (Cons w ws)
  obtain a x where w: "w = (a, x)" by (cases w)
  have "d(a := x) = d" using Cons.prems [of a x] w by auto
  then show ?case using Cons w by simp
qed

text \<open>
  \<open>bio_wrote s t ws\<close>: from \<open>s\<close> to \<open>t\<close> the disk writes \<open>ws\<close> happened, in that order, and
  the cached contents changed in the same way.
\<close>

definition bio_wrote :: "bio \<Rightarrow> bio \<Rightarrow> (nat \<times> bytes) list \<Rightarrow> bool" where
  "bio_wrote s t ws \<longleftrightarrow> bio_ok [] t \<and> view t = apply_writes ws (view s) \<and>
     disk t = apply_writes ws (disk s) \<and> writes t = writes s @ ws \<and> disksize t = disksize s \<and>
     busy_blocks t = busy_blocks s \<and> dirty_blocks t = dirty_blocks s - fst ` set ws"

lemma bio_wrote_refl: "bio_ok [] s \<Longrightarrow> bio_wrote s s []"
  by (simp add: bio_wrote_def)

lemma bio_wrote_trans: "bio_wrote s t ws \<Longrightarrow> bio_wrote t u vs \<Longrightarrow> bio_wrote s u (ws @ vs)"
  by (auto simp: bio_wrote_def image_Un)

text \<open>Copying the data of one held buffer into another, writing that one and releasing both.\<close>

lemma copy_held:
  assumes s: "bio_ok [] s" and i: "holds s i a" and j: "holds s j b" and ab: "a \<noteq> b"
    and a: "a \<in> dirty_blocks s \<or> disk s a = view s a"
  shows "wp (bindR (bwrite j (set_data j (bdata (bufs s ! i)) s)) (\<lambda>_ s. bindR (brelse i s) (\<lambda>_. brelse j)))
    (\<lambda>_ t. bio_ok [] t \<and> view t = (view s)(b := view s a) \<and> disk t = (disk s)(b := view s a) \<and>
      writes t = writes s @ [(b, view s a)] \<and> disksize t = disksize s \<and>
      busy_blocks t = busy_blocks s - {a, b} \<and> dirty_blocks t = dirty_blocks s - {b})"
    (is "wp _ ?Q")
proof -
  have ok: "wf_bio s" "hasl (km (bk s)) []" using s by (simp_all add: bio_ok_def)
  define s1 where "s1 = set_data j (view s a) s"
  have d: "bdata (bufs s ! i) = view s a" using holds_view [OF ok(1) i] .
  note S = set_data_spec [OF ok(1) j, of "view s a", OF view_length [OF ok(1)], folded s1_def]
  have hi: "holds s1 i a" and hj: "holds s1 j b" using S(11) i j by blast+
  have "wp (brelse j u) ?Q"
    if u: "wf_bio u" "hasl (km (bk u)) []" "view u = view s1" "disk u = (disk s)(b := view s a)"
      "writes u = writes s @ [(b, view s a)]" "disksize u = disksize s" "busy_blocks u = busy_blocks s - {a}"
      "dirty_blocks u = dirty_blocks s - {b}" "holds u j b" for u
    using u S(1-10) ab by (intro wp_mono [OF brelse_wp [of u j b "[]"]]) (auto simp: bio_ok_def same_blocks_def)
  then have "wp (brelse i t) (\<lambda>_ u. wp (brelse j u) ?Q)"
    if t: "wf_bio t" "bk t = bk s1" "view t = view s1" "disk t = (disk s1)(b := view s1 b)"
      "writes t = writes s1 @ [(b, view s1 b)]" "disksize t = disksize s1" "busy_blocks t = busy_blocks s1"
      "dirty_blocks t = dirty_blocks s1 - {b}" "\<forall>j c. holds s1 j c \<longrightarrow> holds t j c" for t
    using t(1-8) S(1-10) hi hj ab a ok t(9) [rule_format, OF hi] t(9) [rule_format, OF hj]
    by (intro wp_mono [OF brelse_wp [of t i a "[]"]]) (auto simp: same_blocks_def)
  then show ?thesis
    unfolding wp_bindR d s1_def [symmetric]
    by (intro wp_mono [OF bwrite_wp [OF S(1,5)]]) auto
qed

lemma same_blocks_trans: "same_blocks s t \<Longrightarrow> same_blocks t u \<Longrightarrow> same_blocks s u"
  by (simp add: same_blocks_def)

text \<open>Reading two blocks, the second of which may be pinned.\<close>

lemma bread_two:
  assumes s: "bio_ok [] s" "busy_blocks s = {}" and xy: "x < disksize s" "y < disksize s" "x \<noteq> y"
    and room: "card (dirty_blocks s) < NBUF" "y \<in> dirty_blocks s \<or> dirty_blocks s = {}"
  shows "wp (bread 1 x s) (\<lambda>i t. wp (bread 1 y t) (\<lambda>j u.
    bio_ok [] u \<and> same_blocks s u \<and> busy_blocks u = {x, y} \<and> holds u i x \<and> holds u j y))"
proof -
  have "wp (bread 1 y t) (\<lambda>j u. bio_ok [] u \<and> same_blocks s u \<and> busy_blocks u = {x, y} \<and> holds u i x \<and> holds u j y)"
    if t: "wf_bio t" "hasl (km (bk t)) []" "same_blocks s t" "busy_blocks t = {x}" "holds t i x" for i t
  proof (rule wp_mono [OF bread_wp [of t "[]" y]])
    show "y \<in> dirty_blocks t \<or> card (busy_blocks t \<union> dirty_blocks t) < NBUF"
      using t room(2) by (auto simp: same_blocks_def NBUF_def)
  qed (use t xy same_blocks_trans in \<open>auto simp: bio_ok_def same_blocks_def\<close>)
  then show ?thesis
    using s xy(1) room(1) by (intro wp_mono [OF bread_wp [of s "[]" x]]) (auto simp: bio_ok_def)
qed

text \<open>The same at the level of the log, whose other fields do not change.\<close>

definition lwrote :: "log \<Rightarrow> log \<Rightarrow> (nat \<times> bytes) list \<Rightarrow> bool" where
  "lwrote s t ws \<longleftrightarrow> bio_wrote (lb s) (lb t) ws \<and> t = s\<lparr>lb := lb t\<rparr>"

lemma lwrote_fields:
  assumes "lwrote s t ws"
  shows "lstart t = lstart s" "lsize t = lsize s" "outstanding t = outstanding s" "committing t = committing s"
    "ldev t = ldev s" "lhn t = lhn s" "lhblock t = lhblock s" "logged t = logged s"
proof -
  from assms obtain b where "t = s\<lparr>lb := b\<rparr>" unfolding lwrote_def by blast
  then show "lstart t = lstart s" "lsize t = lsize s" "outstanding t = outstanding s" "committing t = committing s"
    "ldev t = ldev s" "lhn t = lhn s" "lhblock t = lhblock s" "logged t = logged s"
    by (simp_all add: logged_def)
qed

lemma lwroteI: "bio_wrote (lb s) b ws \<Longrightarrow> lwrote s (s\<lparr>lb := b\<rparr>) ws"
  by (simp add: lwrote_def)

lemma lwrote_trans:
  assumes "lwrote s t ws" "lwrote t u vs"
  shows "lwrote s u (ws @ vs)"
proof -
  obtain b c where "t = s\<lparr>lb := b\<rparr>" "u = t\<lparr>lb := c\<rparr>" using assms unfolding lwrote_def by blast
  then show ?thesis using assms bio_wrote_trans by (auto simp: lwrote_def)
qed

lemma on_bio_wp [simp]: "wp (on_bio f s) Q \<longleftrightarrow> wp (f (lb s)) (\<lambda>x b. Q x (s\<lparr>lb := b\<rparr>))"
  by (simp add: on_bio_def)

lemma lset_data_lb [simp]: "lset_data i d (s\<lparr>lb := b\<rparr>) = s\<lparr>lb := set_data i d b\<rparr>"
  by (simp add: lset_data_def)

lemma ldata_lb [simp]: "ldata (s\<lparr>lb := b\<rparr>) i = bdata (bufs b ! i)"
  by (simp add: ldata_def)

text \<open>
  A transaction that can be written out: no buffer in use, distinct home blocks outside the
  log area, which are pinned in the cache (or, during recovery, nothing is), and that fit.
\<close>

definition home :: "log \<Rightarrow> nat \<Rightarrow> bool" where
  "home s b \<longleftrightarrow> b < disksize (lb s) \<and> (b < lstart s \<or> lstart s + lsize s \<le> b)"

definition txn_ok :: "log \<Rightarrow> bool" where
  "txn_ok s \<longleftrightarrow> ldev s = 1 \<and> bio_ok [] (lb s) \<and> busy_blocks (lb s) = {} \<and> length (lhblock s) = LOGSIZE \<and>
     0 < lsize s \<and> lhn s < int (lsize s) \<and> lsize s \<le> LOGSIZE \<and> lstart s + lsize s \<le> disksize (lb s) \<and>
     distinct (logged s) \<and> (\<forall>b \<in> set (logged s). home s b) \<and>
     (dirty_blocks (lb s) = set (logged s) \<or> dirty_blocks (lb s) = {})"

lemma txn_okD:
  assumes "txn_ok s"
  shows "ldev s = 1" "bio_ok [] (lb s)" "busy_blocks (lb s) = {}" "length (logged s) = nat (lhn s)"
    "nat (lhn s) < NBUF" "nat (lhn s) < lsize s" "lstart s + lsize s \<le> disksize (lb s)" "distinct (logged s)"
    "i < nat (lhn s) \<Longrightarrow> home s (lhblock s ! i)" "i < nat (lhn s) \<Longrightarrow> logged s ! i = lhblock s ! i"
    "dirty_blocks (lb s) = set (logged s) \<or> dirty_blocks (lb s) = {}" "card (dirty_blocks (lb s)) < NBUF"
    "i < nat (lhn s) \<Longrightarrow> lhblock s ! i \<in> set (logged s)"
proof -
  have len: "length (lhblock s) = LOGSIZE" "lhn s < int (lsize s)" "lsize s \<le> LOGSIZE" "0 < lsize s"
    using assms by (auto simp: txn_ok_def)
  have sz: "LOGSIZE = NBUF" by (simp add: LOGSIZE_def MAXOPBLOCKS_def NBUF_def)
  show n: "nat (lhn s) < NBUF" "nat (lhn s) < lsize s" using len(2-4) sz by arith+
  show l: "length (logged s) = nat (lhn s)" using len n(1) sz by (simp add: logged_def)
  show "distinct (logged s)" "dirty_blocks (lb s) = set (logged s) \<or> dirty_blocks (lb s) = {}"
    "ldev s = 1" "bio_ok [] (lb s)" "busy_blocks (lb s) = {}" "lstart s + lsize s \<le> disksize (lb s)"
    using assms by (auto simp: txn_ok_def)
  then show "card (dirty_blocks (lb s)) < NBUF"
    using card_length [of "logged s"] l n by auto
  show nth: "i < nat (lhn s) \<Longrightarrow> logged s ! i = lhblock s ! i" for i by (simp add: logged_def)
  show mem: "i < nat (lhn s) \<Longrightarrow> lhblock s ! i \<in> set (logged s)" for i
    using nth [of i] l nth_mem [of i "logged s"] by simp
  show "i < nat (lhn s) \<Longrightarrow> home s (lhblock s ! i)" for i
    using mem [of i] assms by (simp add: txn_ok_def)
qed

text \<open>The writes of the three phases.\<close>

definition log_writes :: "log \<Rightarrow> nat \<Rightarrow> nat \<times> bytes" where
  "log_writes s i = (lstart s + i + 1, view (lb s) (lhblock s ! i))"

definition home_writes :: "log \<Rightarrow> nat \<Rightarrow> nat \<times> bytes" where
  "home_writes s i = (lhblock s ! i, view (lb s) (lstart s + i + 1))"

lemma log_writes_keys: "fst ` set (map (log_writes s) [0..<k]) = {lstart s + 1..<lstart s + 1 + k}"
proof -
  have "fst ` set (map (log_writes s) [0..<k]) = (\<lambda>i. i + (lstart s + 1)) ` {0..<k}"
    by (simp add: log_writes_def image_image add.commute)
  also have "\<dots> = {0 + (lstart s + 1)..<k + (lstart s + 1)}" by (rule image_add_atLeastLessThan')
  finally show ?thesis by (simp add: add.commute)
qed

lemma home_writes_keys:
  assumes "k \<le> length (logged s)"
  shows "fst ` set (map (home_writes s) [0..<k]) = set (take k (logged s))"
proof -
  have "map fst (map (home_writes s) [0..<k]) = take k (logged s)"
    using assms by (intro nth_equalityI) (auto simp: home_writes_def logged_def)
  then show ?thesis by (metis list.set_map)
qed

section \<open>The phases of a commit\<close>

lemma copy_wrote:
  assumes u: "bio_ok [] u" "same_blocks s u" "busy_blocks u = {x, y}" "holds u i x" "holds u j y" "x \<noteq> y"
    and s: "busy_blocks s = {}" "x \<notin> dirty_blocks s" "y \<in> dirty_blocks s \<or> dirty_blocks s = {}" "bio_ok [] s"
  shows "wp (bindR (bwrite i (set_data i (bdata (bufs u ! j)) u)) (\<lambda>_ v. bindR (brelse j v) (\<lambda>_. brelse i)))
      (\<lambda>_ t. bio_wrote s t [(x, view s y)])"
    and "wp (bindR (bwrite j (set_data j (bdata (bufs u ! i)) u)) (\<lambda>_ v. bindR (brelse i v) (\<lambda>_. brelse j)))
      (\<lambda>_ t. bio_wrote s t [(y, view s x)])"
proof -
  have sv: "view u = view s" "disk u = disk s" "writes u = writes s" "disksize u = disksize s"
    "dirty_blocks u = dirty_blocks s"
    using u(2) by (simp_all add: same_blocks_def)
  have wf: "wf_bio s" using s(4) by (simp add: bio_ok_def)
  have x: "disk u x = view u x" using view_disk [OF wf, of x] s sv by simp
  have y: "y \<in> dirty_blocks u \<or> disk u y = view u y" using view_disk [OF wf, of y] s sv by auto
  show "wp (bindR (bwrite i (set_data i (bdata (bufs u ! j)) u)) (\<lambda>_ v. bindR (brelse j v) (\<lambda>_. brelse i)))
      (\<lambda>_ t. bio_wrote s t [(x, view s y)])"
    by (rule wp_mono [OF copy_held [OF u(1,5,4) u(6) [symmetric] y]])
      (use u(3) s sv in \<open>auto simp: bio_wrote_def\<close>)
  show "wp (bindR (bwrite j (set_data j (bdata (bufs u ! i)) u)) (\<lambda>_ v. bindR (brelse i v) (\<lambda>_. brelse j)))
      (\<lambda>_ t. bio_wrote s t [(y, view s x)])"
    by (rule wp_mono [OF copy_held [OF u(1,4,5,6) disjI2 [OF x]]])
      (use u(3) s sv in \<open>auto simp: bio_wrote_def\<close>)
qed

lemma log_block_wp:
  assumes t: "bio_ok [] (lb t)" "busy_blocks (lb t) = {}" "ldev t = 1"
    and xy: "x = lstart t + k + 1" "y = lhblock t ! k" "x < disksize (lb t)" "y < disksize (lb t)" "x \<noteq> y"
    and d: "card (dirty_blocks (lb t)) < NBUF" "x \<notin> dirty_blocks (lb t)" "y \<in> dirty_blocks (lb t) \<or> dirty_blocks (lb t) = {}"
  shows "wp (log_block k t) (\<lambda>_ u. lwrote t u [(x, view (lb t) y)])"
    and "wp (install_block k t) (\<lambda>_ u. lwrote t u [(y, view (lb t) x)])"
proof -
  define R where "R i j u \<longleftrightarrow> bio_ok [] u \<and> same_blocks (lb t) u \<and> busy_blocks u = {x, y} \<and> holds u i x \<and> holds u j y"
    for i j u
  have two: "wp (bread 1 x (lb t)) (\<lambda>i b. wp (bread 1 y b) (\<lambda>j u. R i j u))"
    unfolding R_def by (rule bread_two [OF t(1,2) xy(3,4,5) d(1,3)])
  have copy: "wp (bindR (bwrite i (set_data i (bdata (bufs u ! j)) u)) (\<lambda>_ v. bindR (brelse j v) (\<lambda>_. brelse i)))
      (\<lambda>_ b. lwrote t (t\<lparr>lb := b\<rparr>) [(x, view (lb t) y)])"
    "wp (bindR (bwrite j (set_data j (bdata (bufs u ! i)) u)) (\<lambda>_ v. bindR (brelse i v) (\<lambda>_. brelse j)))
      (\<lambda>_ b. lwrote t (t\<lparr>lb := b\<rparr>) [(y, view (lb t) x)])" if "R i j u" for i j u
    using that copy_wrote [of u "lb t" x y i j] t xy(5) d(2,3) unfolding R_def by (auto simp: lwrote_def)
  have eq: "wp (log_block k t) (\<lambda>_ u. lwrote t u [(x, view (lb t) y)]) \<longleftrightarrow>
      wp (bread 1 x (lb t)) (\<lambda>i b. wp (bread 1 y b) (\<lambda>j u.
        wp (bindR (bwrite i (set_data i (bdata (bufs u ! j)) u)) (\<lambda>_ v. bindR (brelse j v) (\<lambda>_. brelse i)))
          (\<lambda>_ b. lwrote t (t\<lparr>lb := b\<rparr>) [(x, view (lb t) y)])))"
    "wp (install_block k t) (\<lambda>_ u. lwrote t u [(y, view (lb t) x)]) \<longleftrightarrow>
      wp (bread 1 x (lb t)) (\<lambda>i b. wp (bread 1 y b) (\<lambda>j u.
        wp (bindR (bwrite j (set_data j (bdata (bufs u ! i)) u)) (\<lambda>_ v. bindR (brelse i v) (\<lambda>_. brelse j)))
          (\<lambda>_ b. lwrote t (t\<lparr>lb := b\<rparr>) [(y, view (lb t) x)])))"
    by (simp_all add: log_block_def install_block_def t(3) xy(1,2))
  show "wp (log_block k t) (\<lambda>_ u. lwrote t u [(x, view (lb t) y)])"
    "wp (install_block k t) (\<lambda>_ u. lwrote t u [(y, view (lb t) x)])"
    unfolding eq by (rule wp_mono [OF two], erule wp_mono, erule copy)+
qed

lemma upt_split: "[0..<n] = done @ x # rest \<Longrightarrow> done = [0..<x] \<and> x < n"
proof -
  assume eq: "[0..<n] = done @ x # rest"
  then have len: "length done < n" by (metis length_append length_Cons length_upt diff_zero add_Suc_right less_add_Suc1)
  have "x = [0..<n] ! length done" using eq by simp
  then have x: "x = length done" using len by simp
  have "done = take (length done) [0..<n]" using eq by simp
  then show ?thesis using len x by (simp add: take_upt)
qed

text \<open>What a state reached by disk writes in the log area keeps.\<close>

lemma lwrote_bio:
  assumes "lwrote s t ws"
  shows "bio_ok [] (lb t)" "busy_blocks (lb t) = busy_blocks (lb s)" "disksize (lb t) = disksize (lb s)"
    "dirty_blocks (lb t) = dirty_blocks (lb s) - fst ` set ws"
    "view (lb t) = apply_writes ws (view (lb s))" "disk (lb t) = apply_writes ws (disk (lb s))"
    "writes (lb t) = writes (lb s) @ ws"
  using assms by (auto simp: lwrote_def bio_wrote_def)

lemma home_lwrote: "lwrote s t ws \<Longrightarrow> home t b = home s b"
  by (simp add: home_def lwrote_fields lwrote_bio)

lemma txn_dirty_home: "txn_ok s \<Longrightarrow> b \<in> dirty_blocks (lb s) \<Longrightarrow> home s b"
  by (auto simp: txn_ok_def)

lemma log_area_not_home:
  assumes "txn_ok s" "k < lsize s"
  shows "\<not> home s (lstart s + k)" "lstart s + k < disksize (lb s)" "lstart s + k \<notin> dirty_blocks (lb s)"
  using assms(2) txn_dirty_home [OF assms(1), of "lstart s + k"] txn_okD(7) [OF assms(1)] by (auto simp: home_def)

lemma txn_ok_lwrote:
  assumes s: "txn_ok s" and w: "lwrote s t ws" and log: "\<And>k. k \<in> fst ` set ws \<Longrightarrow> \<not> home s k"
  shows "txn_ok t"
proof -
  have "dirty_blocks (lb t) = dirty_blocks (lb s)"
    using lwrote_bio(4) [OF w] log txn_dirty_home [OF s] by auto
  then show ?thesis
    using s lwrote_fields [OF w] lwrote_bio(1-3) [OF w] home_lwrote [OF w] by (simp add: txn_ok_def)
qed

lemma write_log_wp:
  assumes s: "txn_ok s"
  shows "wp (write_log s) (\<lambda>_ t. lwrote s t (map (log_writes s) [0..<nat (lhn s)]))"
  unfolding write_log_def
proof (rule wp_foreach [where I = "\<lambda>done t. lwrote s t (map (log_writes s) done)"])
  show "lwrote s s (map (log_writes s) [])"
    using txn_okD(2) [OF s] by (simp add: lwrote_def bio_wrote_refl)
next
  fix don k rest t
  assume "[0..<nat (lhn s)] = don @ k # rest" and I: "lwrote s t (map (log_writes s) don)"
  then have don: "don = [0..<k]" and k: "k < nat (lhn s)" using upt_split by auto
  have lk: "k + 1 < lsize s" "k < lsize s" using k txn_okD(6) [OF s] by simp_all
  have nh: "\<not> home s j" if "j \<in> fst ` set (map (log_writes s) [0..<k])" for j
    using that lk unfolding log_writes_keys by (auto simp: home_def)
  note F = lwrote_fields [OF I] and B = lwrote_bio [OF I]
  have tt: "txn_ok t" using txn_ok_lwrote [OF s I] nh don by blast
  let ?x = "lstart s + k + 1" and ?y = "lhblock s ! k"
  have hy: "home s ?y" using txn_okD(9) [OF s k] .
  have "view (lb t) ?y = view (lb s) ?y"
    unfolding B(5) don using nh hy by (intro apply_writes_notin) blast
  moreover have "wp (log_block k t) (\<lambda>_ u. lwrote t u [(?x, view (lb t) ?y)])"
  proof (rule log_block_wp(1))
    show "?x < disksize (lb t)" "?x \<notin> dirty_blocks (lb t)"
      using log_area_not_home [OF tt, of "k + 1"] lk F by simp_all
    show "?y < disksize (lb t)" "?x \<noteq> ?y"
      using hy lk by (auto simp: home_def B(3))
    show "?y \<in> dirty_blocks (lb t) \<or> dirty_blocks (lb t) = {}"
      using txn_okD(11) [OF tt] txn_okD(13) [OF s k] F by auto
  qed (use txn_okD [OF tt] F in simp_all)
  ultimately show "wp (log_block k t) (\<lambda>_ u. lwrote s u (map (log_writes s) (don @ [k])))"
    using lwrote_trans [OF I] by (auto simp: log_writes_def elim!: wp_mono)
qed

lemma install_trans_wp:
  assumes s: "txn_ok s"
  shows "wp (install_trans s) (\<lambda>_ t. lwrote s t (map (home_writes s) [0..<nat (lhn s)]))"
  unfolding install_trans_def
proof (rule wp_foreach [where I = "\<lambda>done t. lwrote s t (map (home_writes s) done)"])
  show "lwrote s s (map (home_writes s) [])"
    using txn_okD(2) [OF s] by (simp add: lwrote_def bio_wrote_refl)
next
  fix don k rest t
  assume "[0..<nat (lhn s)] = don @ k # rest" and I: "lwrote s t (map (home_writes s) don)"
  then have don: "don = [0..<k]" and k: "k < nat (lhn s)" using upt_split by auto
  have lk: "k + 1 < lsize s" using k txn_okD(6) [OF s] by simp
  have keys: "fst ` set (map (home_writes s) don) = set (take k (logged s))"
    using home_writes_keys [of k s] k txn_okD(4) [OF s] unfolding don by simp
  note F = lwrote_fields [OF I] and B = lwrote_bio [OF I]
  let ?x = "lstart s + k + 1" and ?y = "lhblock s ! k"
  note X = log_area_not_home [OF s lk, simplified]
  have hy: "home s ?y" using txn_okD(9) [OF s k] .
  have "home s b" if "b \<in> set (take k (logged s))" for b
    using that s set_take_subset [of k "logged s"] unfolding txn_ok_def by blast
  then have x: "?x \<notin> fst ` set (map (home_writes s) don)" using X(1) unfolding keys by auto
  then have "view (lb t) ?x = view (lb s) ?x" unfolding B(5) by (rule apply_writes_notin)
  moreover have "wp (install_block k t) (\<lambda>_ u. lwrote t u [(?y, view (lb t) ?x)])"
  proof (rule log_block_wp(2))
    show "?x < disksize (lb t)" "?x \<notin> dirty_blocks (lb t)" using X(2,3) B by simp_all
    show "?y < disksize (lb t)" "?x \<noteq> ?y"
      using hy X(1) by (auto simp: home_def B(3))
    have "?y = logged s ! k" "k < length (logged s)" using txn_okD(4,10) [OF s] k by simp_all
    then have "?y \<notin> set (take k (logged s))"
      using txn_okD(8) [OF s] by (auto simp: in_set_conv_nth nth_eq_iff_index_eq)
    then show "?y \<in> dirty_blocks (lb t) \<or> dirty_blocks (lb t) = {}"
      using txn_okD(11) [OF s] txn_okD(13) [OF s k] keys B(4) by auto
    have "finite (dirty_blocks (lb s))" using txn_okD(11) [OF s] by auto
    then show "card (dirty_blocks (lb t)) < NBUF"
      using txn_okD(12) [OF s] B(4) card_mono [of "dirty_blocks (lb s)" "dirty_blocks (lb t)"] by auto
  qed (use txn_okD(1,3) [OF s] B F in simp_all)
  ultimately show "wp (install_block k t) (\<lambda>_ u. lwrote s u (map (home_writes s) (don @ [k])))"
    using lwrote_trans [OF I] by (auto simp: home_writes_def elim!: wp_mono)
qed

text \<open>Overwriting a held buffer, writing and releasing it.\<close>

lemma write_held:
  assumes s: "bio_ok [] s" and h: "holds s i b" and d: "length d = BSIZE"
  shows "wp (bindR (bwrite i (set_data i d s)) (\<lambda>_. brelse i))
    (\<lambda>_ t. bio_ok [] t \<and> view t = (view s)(b := d) \<and> disk t = (disk s)(b := d) \<and>
      writes t = writes s @ [(b, d)] \<and> disksize t = disksize s \<and>
      busy_blocks t = busy_blocks s - {b} \<and> dirty_blocks t = dirty_blocks s - {b})"
    (is "wp _ ?Q")
proof -
  have ok: "wf_bio s" "hasl (km (bk s)) []" using s by (simp_all add: bio_ok_def)
  define s1 where "s1 = set_data i d s"
  note S = set_data_spec [OF ok(1) h d, folded s1_def]
  have "wp (brelse i t) ?Q"
    if t: "wf_bio t" "bk t = bk s1" "view t = view s1" "disk t = (disk s1)(b := view s1 b)"
      "writes t = writes s1 @ [(b, view s1 b)]" "disksize t = disksize s1" "busy_blocks t = busy_blocks s1"
      "dirty_blocks t = dirty_blocks s1 - {b}" "\<forall>j c. holds s1 j c \<longrightarrow> holds t j c" for t
    using t(1-8) S(1-10) t(9) [rule_format, OF S(5)] ok
    by (intro wp_mono [OF brelse_wp [of t i b "[]"]]) (auto simp: same_blocks_def bio_ok_def)
  then show ?thesis
    unfolding wp_bindR s1_def [symmetric]
    by (intro wp_mono [OF bwrite_wp [OF S(1,5)]]) auto
qed

definition hdr_image :: "log \<Rightarrow> bytes \<Rightarrow> bytes" where
  "hdr_image s d = put_fields 4 4 (\<lambda>i. lhblock s ! i) (nat (lhn s)) (put32 0 (nat (lhn s mod 2 ^ 32)) d)"

lemma hdr_image:
  assumes "length d = BSIZE" "0 \<le> lhn s" "lhn s \<le> int LOGSIZE"
  shows "length (hdr_image s d) = BSIZE" "get32 0 (hdr_image s d) = nat (lhn s)"
    "i < nat (lhn s) \<Longrightarrow> get32 (4 + 4 * i) (hdr_image s d) = lhblock s ! i mod 2 ^ 32"
proof -
  have "(4 :: nat) + 4 * LOGSIZE \<le> BSIZE" by (simp add: LOGSIZE_def MAXOPBLOCKS_def BSIZE_def)
  moreover have n: "nat (lhn s) \<le> LOGSIZE" "nat (lhn s mod 2 ^ 32) = nat (lhn s)" "nat (lhn s) < 2 ^ 32"
    using assms(2,3) by (auto simp: LOGSIZE_def MAXOPBLOCKS_def)
  ultimately have fits: "4 + 4 * nat (lhn s) \<le> length (put32 0 (nat (lhn s mod 2 ^ 32)) d)" "0 + 4 \<le> length d"
    using assms(1) by (auto simp: BSIZE_def)
  note P = put_fields [OF fits(1), where f = "\<lambda>i. lhblock s ! i"]
  show "length (hdr_image s d) = BSIZE" using P(1) assms(1) fits(2) by (simp add: hdr_image_def)
  show "get32 0 (hdr_image s d) = nat (lhn s)"
    using P(3) [where o' = 0 and m = 4] get_put_field_same [OF fits(2), of "nat (lhn s mod 2 ^ 32)"] n by (simp add: hdr_image_def)
  show "i < nat (lhn s) \<Longrightarrow> get32 (4 + 4 * i) (hdr_image s d) = lhblock s ! i mod 2 ^ 32"
    using P(2) by (simp add: hdr_image_def)
qed

lemma write_head_wp:
  assumes s: "bio_ok [] (lb s)" "busy_blocks (lb s) = {}" "ldev s = 1" "lstart s < disksize (lb s)"
    "lstart s \<notin> dirty_blocks (lb s)" "card (dirty_blocks (lb s)) < NBUF" "0 \<le> lhn s" "lhn s \<le> int LOGSIZE"
  shows "wp (write_head s) (\<lambda>_ t. lwrote s t [(lstart s, hdr_image s (view (lb s) (lstart s)))])"
proof -
  let ?h = "hdr_image s (view (lb s) (lstart s))"
  have ok: "wf_bio (lb s)" "hasl (km (bk (lb s))) []" using s(1) by (simp_all add: bio_ok_def)
  have h: "length ?h = BSIZE" using hdr_image(1) [OF view_length [OF ok(1)] s(7,8)] .
  have st: "wp (bindR (bwrite i (set_data i ?h u)) (\<lambda>_. brelse i)) (\<lambda>_ b. lwrote s (s\<lparr>lb := b\<rparr>) [(lstart s, ?h)])"
    if u: "wf_bio u" "hasl (km (bk u)) []" "same_blocks (lb s) u" "busy_blocks u = {lstart s}" "holds u i (lstart s)" for i u
    using u s by (intro wp_mono [OF write_held [OF _ u(5) h]])
      (auto simp: bio_ok_def same_blocks_def lwrote_def bio_wrote_def)
  have eq: "wp (write_head s) (\<lambda>_ t. lwrote s t [(lstart s, ?h)]) \<longleftrightarrow>
      wp (bread 1 (lstart s) (lb s)) (\<lambda>i u. wp (bindR (bwrite i (set_data i (hdr_image s (bdata (bufs u ! i))) u))
          (\<lambda>_. brelse i)) (\<lambda>_ b. lwrote s (s\<lparr>lb := b\<rparr>) [(lstart s, ?h)]))"
    using s(3) by (simp add: write_head_def Let_def hdr_image_def)
  have rd: "wp (bread 1 (lstart s) (lb s)) (\<lambda>i u. wf_bio u \<and> hasl (km (bk u)) [] \<and> same_blocks (lb s) u \<and>
      busy_blocks u = insert (lstart s) (busy_blocks (lb s)) \<and> holds u i (lstart s) \<and>
      bdata (bufs u ! i) = view (lb s) (lstart s) \<and> (\<forall>j c. holds (lb s) j c \<longrightarrow> holds u j c))"
    using s by (intro bread_wp [OF ok]) simp_all
  show ?thesis
    unfolding eq
  proof (rule wp_mono [OF rd], elim conjE)
    fix i u
    assume u: "wf_bio u" "hasl (km (bk u)) []" "same_blocks (lb s) u"
      "busy_blocks u = insert (lstart s) (busy_blocks (lb s))" "holds u i (lstart s)"
      and d: "bdata (bufs u ! i) = view (lb s) (lstart s)"
    show "wp (bindR (bwrite i (set_data i (hdr_image s (bdata (bufs u ! i))) u)) (\<lambda>_. brelse i))
        (\<lambda>_ b. lwrote s (s\<lparr>lb := b\<rparr>) [(lstart s, ?h)])"
      unfolding d by (rule st) (use u s(2) in simp_all)
  qed
qed

definition commit_hdr :: "log \<Rightarrow> bytes" where
  "commit_hdr s = hdr_image s (view (lb s) (lstart s))"

definition final_writes :: "log \<Rightarrow> nat \<Rightarrow> nat \<times> bytes" where
  "final_writes s i = (lhblock s ! i, view (lb s) (lhblock s ! i))"

text \<open>All disk writes of a commit, in order.\<close>

definition commit_writes :: "log \<Rightarrow> (nat \<times> bytes) list" where
  "commit_writes s =
     map (log_writes s) [0..<nat (lhn s)] @ [(lstart s, commit_hdr s)] @
     map (final_writes s) [0..<nat (lhn s)] @ [(lstart s, hdr_image (s\<lparr>lhn := 0\<rparr>) (commit_hdr s))]"

lemma hdr_image_cong:
  "lhn t = lhn s \<Longrightarrow> lhblock t = lhblock s \<Longrightarrow> hdr_image t d = hdr_image s d"
  by (simp add: hdr_image_def)

lemma map_log_writes_in:
  assumes "i < k"
  shows "apply_writes (map (log_writes s) [0..<k]) d (lstart s + i + 1) = view (lb s) (lhblock s ! i)"
proof (rule apply_writes_in)
  show "distinct (map fst (map (log_writes s) [0..<k]))"
    by (auto simp: distinct_map log_writes_def inj_on_def)
  show "(lstart s + i + 1, view (lb s) (lhblock s ! i)) \<in> set (map (log_writes s) [0..<k])"
    using assms by (force simp: log_writes_def)
qed

lemma log_writes_start: "apply_writes (map (log_writes s) [0..<k]) d (lstart s) = d (lstart s)"
  by (rule apply_writes_notin) (unfold log_writes_keys, simp)

lemma commit_wp:
  assumes s: "txn_ok s" and pos: "0 < lhn s"
  shows "wp (commit s) (\<lambda>_ t. bio_wrote (lb s) (lb t) (commit_writes s) \<and> t = s\<lparr>lb := lb t, lhn := 0\<rparr>)"
    (is "wp _ ?Q")
proof -
  let ?n = "nat (lhn s)" and ?W = "map (log_writes s) [0..<nat (lhn s)]"
  have bnd: "0 \<le> lhn s" "lhn s \<le> int LOGSIZE" "0 < lsize s" using s pos by (auto simp: txn_ok_def)
  have nhW: "\<not> home s k" if "k \<in> fst ` set ?W" for k
    using that txn_okD(6) [OF s] unfolding log_writes_keys by (auto simp: home_def)
  have nhs: "\<not> home s (lstart s)" using bnd(3) by (simp add: home_def)
  have last: "wp (write_head (t3\<lparr>lhn := 0\<rparr>)) ?Q"
    if t2: "lwrote s t2 (?W @ [(lstart s, commit_hdr s)])" and t3: "lwrote t2 t3 (map (home_writes t2) [0..<?n])" for t2 t3
  proof -
    note F = lwrote_fields [OF t2] and F3 = lwrote_fields [OF t3] and B3 = lwrote_bio [OF t3]
    have vlog: "view (lb t2) (lstart s + i + 1) = view (lb s) (lhblock s ! i)" if "i < ?n" for i
      unfolding lwrote_bio(5) [OF t2] using map_log_writes_in [OF that] by simp
    then have hw: "map (home_writes t2) [0..<?n] = map (final_writes s) [0..<?n]"
      using F by (simp add: home_writes_def final_writes_def)
    have keys: "fst ` set (map (home_writes t2) [0..<?n]) = set (logged s)"
      using home_writes_keys [of ?n t2] txn_okD(4) [OF s] F by simp
    have nk: "lstart s \<notin> set (logged s)" using nhs s by (auto simp: txn_ok_def)
    have v3: "view (lb t3) (lstart s) = commit_hdr s"
      unfolding B3(5) using nk keys apply_writes_notin [of "lstart s" "map (home_writes t2) [0..<?n]"]
      by (simp add: lwrote_bio(5) [OF t2])
    have dirty: "dirty_blocks (lb t3) = {}"
      using B3(4) lwrote_bio(4) [OF t2] txn_okD(11) [OF s] keys by auto
    have "wp (write_head (t3\<lparr>lhn := 0\<rparr>)) (\<lambda>_ t. lwrote (t3\<lparr>lhn := 0\<rparr>) t
        [(lstart s, hdr_image (t3\<lparr>lhn := 0\<rparr>) (view (lb (t3\<lparr>lhn := 0\<rparr>)) (lstart s)))])"
      using write_head_wp [of "t3\<lparr>lhn := 0\<rparr>"] B3(1-3) lwrote_bio(2,3) [OF t2] F F3 dirty txn_okD(1,3,7) [OF s] bnd(3)
      by (simp add: NBUF_def)
    moreover have "hdr_image (t3\<lparr>lhn := 0\<rparr>) d = hdr_image (s\<lparr>lhn := 0\<rparr>) d" for d
      using F F3 by (intro hdr_image_cong) simp_all
    moreover have "?Q () t" if w: "lwrote (t3\<lparr>lhn := 0\<rparr>) t [(lstart s, hdr_image (s\<lparr>lhn := 0\<rparr>) (commit_hdr s))]" for t
    proof -
      have "bio_wrote (lb s) (lb t) ((?W @ [(lstart s, commit_hdr s)]) @ map (home_writes t2) [0..<?n] @
          [(lstart s, hdr_image (s\<lparr>lhn := 0\<rparr>) (commit_hdr s))])"
        using w t2 t3 unfolding lwrote_def
        by (elim conjE) (rule bio_wrote_trans [OF _ bio_wrote_trans], assumption+, simp)
      then have "bio_wrote (lb s) (lb t) (commit_writes s)" unfolding commit_writes_def hw by simp
      moreover obtain b2 b3 b4 where "t2 = s\<lparr>lb := b2\<rparr>" "t3 = t2\<lparr>lb := b3\<rparr>" "t = t3\<lparr>lhn := 0, lb := b4\<rparr>"
        using w t2 t3 unfolding lwrote_def by blast
      ultimately show ?thesis by simp
    qed
    ultimately show ?thesis using v3 by (auto elim!: wp_mono)
  qed
  have inst: "wp (install_trans t2) (\<lambda>_ t3. wp (write_head (t3\<lparr>lhn := 0\<rparr>)) ?Q)"
    if t2: "lwrote s t2 (?W @ [(lstart s, commit_hdr s)])" for t2
  proof -
    have "txn_ok t2" using txn_ok_lwrote [OF s t2] nhW nhs by auto
    from install_trans_wp [OF this] show ?thesis
      using lwrote_fields(6) [OF t2] last [OF t2] by (auto elim!: wp_mono)
  qed
  have hd: "wp (write_head t1) (\<lambda>_ t2. wp (install_trans t2) (\<lambda>_ t3. wp (write_head (t3\<lparr>lhn := 0\<rparr>)) ?Q))"
    if t1: "lwrote s t1 ?W" for t1
  proof -
    have tt: "txn_ok t1" using txn_ok_lwrote [OF s t1] nhW by auto
    note F = lwrote_fields [OF t1]
    have "hdr_image t1 (view (lb t1) (lstart t1)) = commit_hdr s"
      using F log_writes_start hdr_image_cong [of t1 s] lwrote_bio(5) [OF t1] by (simp add: commit_hdr_def)
    moreover have "wp (write_head t1) (\<lambda>_ t2. lwrote t1 t2 [(lstart t1, hdr_image t1 (view (lb t1) (lstart t1)))])"
      using txn_okD [OF tt] log_area_not_home [OF tt, of 0] bnd F by (intro write_head_wp) simp_all
    ultimately show ?thesis
      using F lwrote_trans [OF t1] inst by (auto elim!: wp_mono)
  qed
  show ?thesis
    using pos write_log_wp [OF s] hd by (auto simp: commit_def elim!: wp_mono)
qed

section \<open>Recovery\<close>

definition hdr_n :: "bytes \<Rightarrow> nat" where
  "hdr_n d = nat (int32 (get32 0 d))"

definition hdr_blk :: "bytes \<Rightarrow> nat \<Rightarrow> nat" where
  "hdr_blk d i = get32 (4 + 4 * i) d"

text \<open>A disk whose log, \<open>nl\<close> blocks from block \<open>st\<close> on, can be replayed.\<close>

definition log_valid :: "nat \<Rightarrow> nat \<Rightarrow> nat \<Rightarrow> (nat \<Rightarrow> bytes) \<Rightarrow> bool" where
  "log_valid st nl N d \<longleftrightarrow> (\<forall>b. length (d b) = BSIZE) \<and> 0 < nl \<and> nl \<le> LOGSIZE \<and> st + nl \<le> N \<and>
     hdr_n (d st) < nl \<and> distinct (map (hdr_blk (d st)) [0..<hdr_n (d st)]) \<and>
     (\<forall>i < hdr_n (d st). hdr_blk (d st) i < N \<and> (hdr_blk (d st) i < st \<or> st + nl \<le> hdr_blk (d st) i))"

definition recover_writes :: "nat \<Rightarrow> (nat \<Rightarrow> bytes) \<Rightarrow> (nat \<times> bytes) list" where
  "recover_writes st d =
     map (\<lambda>i. (hdr_blk (d st) i, d (st + i + 1))) [0..<hdr_n (d st)] @ [(st, put32 0 0 (d st))]"

lemma fold_update_take:
  assumes "n \<le> length xs"
  shows "length (fold (\<lambda>i l. l[i := f i]) [0..<n] xs) = length xs"
    and "take n (fold (\<lambda>i l. l[i := f i]) [0..<n] xs) = map f [0..<n]"
  using assms
proof (induction n)
  case 0
  case 1
  show ?case by simp
  case 2
  show ?case by simp
next
  case (Suc n)
  case 1
  then show ?case using Suc.IH by simp
  case 2
  then show ?case using Suc.IH by (simp add: take_update_snoc take_Suc_conv_app_nth)
qed

lemma read_head_wp:
  assumes s: "bio_ok [] (lb s)" "busy_blocks (lb s) = {}" "dirty_blocks (lb s) = {}" "ldev s = 1"
    "length (lhblock s) = LOGSIZE" and v: "log_valid (lstart s) (lsize s) (disksize (lb s)) (disk (lb s))"
  shows "wp (read_head s) (\<lambda>_ t. txn_ok t \<and> bio_wrote (lb s) (lb t) [] \<and> dirty_blocks (lb t) = {} \<and>
    nat (lhn t) = hdr_n (disk (lb s) (lstart s)) \<and>
    logged t = map (hdr_blk (disk (lb s) (lstart s))) [0..<hdr_n (disk (lb s) (lstart s))] \<and>
    lstart t = lstart s \<and> lsize t = lsize s \<and> length (lhblock t) = LOGSIZE \<and> ldev t = 1 \<and>
    outstanding t = outstanding s \<and> committing t = committing s)"
    (is "wp _ ?Q")
proof -
  let ?d = "disk (lb s) (lstart s)" and ?b = "lstart s"
  define n where "n = int32 (get32 0 ?d)"
  define bl where "bl = fold (\<lambda>i bl. bl[i := hdr_blk ?d i]) [0..<nat n] (lhblock s)"
  have ok: "wf_bio (lb s)" "hasl (km (bk (lb s))) []" using s(1) by (simp_all add: bio_ok_def)
  have view: "view (lb s) c = disk (lb s) c" for c using view_disk [OF ok(1)] s(2,3) by simp
  have hn: "hdr_n ?d = nat n" by (simp add: hdr_n_def n_def)
  have V: "nat n < lsize s" "lsize s \<le> LOGSIZE" "lstart s + lsize s \<le> disksize (lb s)" "0 < lsize s"
    "distinct (map (hdr_blk ?d) [0..<nat n])"
    "\<And>i. i < nat n \<Longrightarrow> hdr_blk ?d i < disksize (lb s) \<and> (hdr_blk ?d i < lstart s \<or> lstart s + lsize s \<le> hdr_blk ?d i)"
    using v unfolding log_valid_def hn by blast+
  have n: "\<not> int LOGSIZE < n" "nat n \<le> length (lhblock s)" using V(1,2) s(5) by auto
  note bl = fold_update_take [OF n(2), of "hdr_blk ?d", folded bl_def]
  have post: "?Q () (s\<lparr>lhn := n, lhblock := bl, lb := b\<rparr>)"
    if b: "wf_bio b" "hasl (km (bk b)) []" "same_blocks (lb s) b" "busy_blocks b = {}" for b
  proof -
    have lg: "logged (s\<lparr>lhn := n, lhblock := bl, lb := b\<rparr>) = map (hdr_blk ?d) [0..<nat n]"
      using bl(2) by (simp add: logged_def)
    show ?thesis
      unfolding txn_ok_def lg hn
      using b s V bl(1) lg by (auto simp: bio_ok_def same_blocks_def bio_wrote_def home_def)
  qed
  have eq: "wp (read_head s) ?Q \<longleftrightarrow> wp (bread 1 ?b (lb s)) (\<lambda>i u.
      wp (let lh = bdata (bufs u ! i); m = int32 (get32 0 lh) in
          if m > int LOGSIZE then Panic ''read_head: log.lh.block overrun''
          else on_bio (brelse i) (s\<lparr>lb := u, lhn := m,
            lhblock := fold (\<lambda>i bl. bl[i := get32 (4 + 4 * i) lh]) [0..<nat m] (lhblock s)\<rparr>)) ?Q)"
    using s(4) by (simp add: read_head_def Let_def)
  have rd: "wp (bread 1 ?b (lb s)) (\<lambda>i u. wf_bio u \<and> hasl (km (bk u)) [] \<and> same_blocks (lb s) u \<and>
      busy_blocks u = insert ?b (busy_blocks (lb s)) \<and> holds u i ?b \<and>
      bdata (bufs u ! i) = view (lb s) ?b \<and> (\<forall>j c. holds (lb s) j c \<longrightarrow> holds u j c))"
    using s V by (intro bread_wp [OF ok]) (simp_all add: NBUF_def)
  show ?thesis
    unfolding eq
  proof (rule wp_mono [OF rd], elim conjE)
    fix i u
    assume u: "wf_bio u" "hasl (km (bk u)) []" "same_blocks (lb s) u" "busy_blocks u = insert ?b (busy_blocks (lb s))"
      "holds u i ?b" and d: "bdata (bufs u ! i) = view (lb s) ?b"
    have "wp (brelse i u) (\<lambda>_ b. ?Q () (s\<lparr>lhn := n, lhblock := bl, lb := b\<rparr>))"
    proof (rule wp_mono [OF brelse_wp [OF u(1,5,2)]])
      show "?b \<in> dirty_blocks u \<or> disk u ?b = view u ?b" using u(3) view by (simp add: same_blocks_def)
      show "?Q () (s\<lparr>lhn := n, lhblock := bl, lb := b\<rparr>)"
        if "wf_bio b \<and> hasl (km (bk b)) [] \<and> same_blocks u b \<and> busy_blocks b = busy_blocks u - {?b} \<and>
          (\<forall>j c. holds u j c \<longrightarrow> c \<noteq> ?b \<longrightarrow> holds b j c)" for b
        by (rule post) (use that u s(2) same_blocks_trans [OF u(3)] in auto)
    qed simp_all
    then show "wp (let lh = bdata (bufs u ! i); m = int32 (get32 0 lh) in
          if m > int LOGSIZE then Panic ''read_head: log.lh.block overrun''
          else on_bio (brelse i) (s\<lparr>lb := u, lhn := m,
            lhblock := fold (\<lambda>i bl. bl[i := get32 (4 + 4 * i) lh]) [0..<nat m] (lhblock s)\<rparr>)) ?Q"
      using n(1) unfolding d view Let_def n_def [symmetric] hdr_blk_def [symmetric] bl_def [symmetric]
      by simp
  qed
qed

lemma hdr_image_zero: "hdr_image (s\<lparr>lhn := 0\<rparr>) d = put32 0 0 d"
  by (simp add: hdr_image_def put_fields_def)

lemma recover_wp:
  assumes s: "bio_ok [] (lb s)" "busy_blocks (lb s) = {}" "dirty_blocks (lb s) = {}" "ldev s = 1"
    "length (lhblock s) = LOGSIZE" and v: "log_valid (lstart s) (lsize s) (disksize (lb s)) (disk (lb s))"
  shows "wp (recover_from_log s) (\<lambda>_ t. bio_wrote (lb s) (lb t) (recover_writes (lstart s) (disk (lb s))) \<and>
    lhn t = 0 \<and> lstart t = lstart s \<and> lsize t = lsize s \<and> length (lhblock t) = LOGSIZE \<and> ldev t = 1 \<and>
    outstanding t = outstanding s \<and> committing t = committing s)"
    (is "wp _ ?Q")
proof -
  let ?d = "disk (lb s) (lstart s)" and ?st = "lstart s"
  let ?W = "map (\<lambda>i. (hdr_blk ?d i, disk (lb s) (?st + i + 1))) [0..<hdr_n ?d]"
  have wf: "wf_bio (lb s)" using s(1) by (simp add: bio_ok_def)
  have view: "view (lb s) c = disk (lb s) c" for c using view_disk [OF wf] s(2,3) by simp
  have "wp (install_trans t) (\<lambda>_ u. wp (write_head (u\<lparr>lhn := 0\<rparr>)) ?Q)"
    if t: "txn_ok t" "bio_wrote (lb s) (lb t) []" "dirty_blocks (lb t) = {}" "nat (lhn t) = hdr_n ?d"
      "logged t = map (hdr_blk ?d) [0..<hdr_n ?d]" "lstart t = ?st" "lsize t = lsize s"
      "length (lhblock t) = LOGSIZE" "ldev t = 1" "outstanding t = outstanding s" "committing t = committing s" for t
  proof -
    have vt: "view (lb t) = view (lb s)" "disksize (lb t) = disksize (lb s)" "busy_blocks (lb t) = {}"
      using t(2) s(2) by (simp_all add: bio_wrote_def)
    have blk: "lhblock t ! i = hdr_blk ?d i" if "i < hdr_n ?d" for i
      using txn_okD(10) [OF t(1), of i] t(4,5) that by simp
    have W: "map (home_writes t) [0..<nat (lhn t)] = ?W"
      using t(4,6) vt view blk by (simp add: home_writes_def)
    have "wp (write_head (u\<lparr>lhn := 0\<rparr>)) ?Q" if u: "lwrote t u ?W" for u
    proof -
      note F = lwrote_fields [OF u] and B = lwrote_bio [OF u]
      have "?st \<notin> fst ` set ?W" using v by (auto simp: log_valid_def)
      then have "view (lb u) ?st = view (lb t) ?st" unfolding B(5) by (rule apply_writes_notin)
      then have vu: "view (lb u) ?st = ?d" using vt view by simp
      have du: "dirty_blocks (lb u) = {}" using B(4) t(3) by simp
      have "wp (write_head (u\<lparr>lhn := 0\<rparr>)) (\<lambda>_ w. lwrote (u\<lparr>lhn := 0\<rparr>) w [(?st, put32 0 0 ?d)])"
        using write_head_wp [of "u\<lparr>lhn := 0\<rparr>"] B(1-3) F(1,5) t(6,9) vt(2,3) vu du v
        by (simp add: hdr_image_zero NBUF_def log_valid_def)
      then show ?thesis
      proof (rule wp_mono)
        fix r w
        assume w: "lwrote (u\<lparr>lhn := 0\<rparr>) w [(?st, put32 0 0 ?d)]"
        have "bio_wrote (lb s) (lb w) ([] @ ?W @ [(?st, put32 0 0 ?d)])"
          using t(2) u w unfolding lwrote_def
          by (elim conjE) (rule bio_wrote_trans [OF _ bio_wrote_trans], assumption+, simp)
        then show "?Q r w"
          using lwrote_fields [OF w] F t by (simp add: recover_writes_def)
      qed
    qed
    then show ?thesis using install_trans_wp [OF t(1)] unfolding W by (auto elim!: wp_mono)
  qed
  then show ?thesis
    unfolding recover_from_log_def wp_bindR by (intro wp_mono [OF read_head_wp [OF assms]]) blast
qed

text \<open>Reading a block and giving it back.\<close>

lemma bread_brelse:
  assumes s: "bio_ok ls s" "b < disksize s" "b \<notin> busy_blocks s"
    "b \<in> dirty_blocks s \<or> card (busy_blocks s \<union> dirty_blocks s) < NBUF"
  shows "wp (bindR (bread 1 b s) (\<lambda>i s. bindR (brelse i s) (\<lambda>_. Ret (f (bdata (bufs s ! i))))))
    (\<lambda>x t. x = f (view s b) \<and> bio_ok ls t \<and> same_blocks s t \<and> busy_blocks t = busy_blocks s)"
    (is "wp _ ?Q")
proof -
  have ok: "wf_bio s" "hasl (km (bk s)) ls" "BCACHE \<notin> set ls" "PTABLE \<notin> set ls" using s(1) by (simp_all add: bio_ok_def)
  have "wp (brelse i t) (\<lambda>_. ?Q (f (bdata (bufs t ! i))))"
    if t: "wf_bio t" "hasl (km (bk t)) ls" "same_blocks s t" "busy_blocks t = insert b (busy_blocks s)"
      "holds t i b" "bdata (bufs t ! i) = view s b" for i t
  proof -
    have "b \<notin> dirty_blocks s \<Longrightarrow> view s b = disk s b" using view_disk [OF ok(1) s(3)] .
    then have "b \<in> dirty_blocks t \<or> disk t b = view t b"
      using t(3) by (cases "b \<in> dirty_blocks s") (simp_all add: same_blocks_def)
    from brelse_wp [OF t(1,5,2) ok(3,4) this] show ?thesis
      by (rule wp_mono) (use ok t s(3) in \<open>auto simp: bio_ok_def same_blocks_def\<close>)
  qed
  then show ?thesis
    unfolding wp_bindR wp_simps by (intro wp_mono [OF bread_wp [OF ok(1-3) s(2-4)]]) blast
qed

lemma initlock_hasl: "hasl m ls \<Longrightarrow> lk \<notin> set ls \<Longrightarrow> hasl (initlock lk nm m) ls"
  by (auto simp: hasl_def initlock_def mach_defs)

text \<open>The machine after a reboot: an empty cache over the disk the crash left.\<close>

definition reboot :: "nat \<Rightarrow> (nat \<Rightarrow> bytes) \<Rightarrow> log" where
  "reboot N d =
     \<lparr>lb = binit \<lparr>bk = kern0, bufs = replicate (Suc NBUF) zero_buf, disk = d, disksize = N, writes = []\<rparr>,
      lstart = 0, lsize = 0, outstanding = 0, committing = False, ldev = 0, lhn = 0, lhblock = replicate LOGSIZE 0\<rparr>"

definition recovered :: "nat \<Rightarrow> (nat \<Rightarrow> bytes) \<Rightarrow> nat \<Rightarrow> bytes" where
  "recovered st d = apply_writes (recover_writes st d) d"

lemma reboot_bio:
  assumes "\<And>b. length (d b) = BSIZE"
  shows "bio_ok [] (lb (reboot N d))" "busy_blocks (lb (reboot N d)) = {}" "dirty_blocks (lb (reboot N d)) = {}"
    "disk (lb (reboot N d)) = d" "view (lb (reboot N d)) = d" "disksize (lb (reboot N d)) = N" "writes (lb (reboot N d)) = []"
proof -
  let ?s = "\<lparr>bk = kern0, bufs = replicate (Suc NBUF) zero_buf, disk = d, disksize = N, writes = []\<rparr>"
  have "bufs ?s = replicate (Suc NBUF) zero_buf" "\<And>b. length (disk ?s b) = BSIZE"
    using assms by (simp_all del: replicate.simps)
  note b = binit_wf [OF this]
  have "hasl (km (bk (binit ?s))) []"
    using initlock_hasl [OF kern0_hasl] by (simp add: binit_def Let_def)
  then show "bio_ok [] (lb (reboot N d))" using b(1) by (simp add: reboot_def bio_ok_def)
  show "busy_blocks (lb (reboot N d)) = {}" "dirty_blocks (lb (reboot N d)) = {}" "disk (lb (reboot N d)) = d"
    "view (lb (reboot N d)) = d" "disksize (lb (reboot N d)) = N" "writes (lb (reboot N d)) = []"
    using b by (simp_all add: reboot_def)
qed

lemma initlog_wp:
  assumes v: "log_valid st nl N d" and sb: "sb_logstart (sb_of (d 1)) = st" "sb_nlog (sb_of (d 1)) = nl" "1 < N"
  shows "wp (initlog 1 (reboot N d)) (\<lambda>_ t. disk (lb t) = recovered st d \<and> writes (lb t) = recover_writes st d \<and>
    view (lb t) = recovered st d \<and> bio_ok [] (lb t) \<and> busy_blocks (lb t) = {} \<and> dirty_blocks (lb t) = {} \<and>
    lhn t = 0 \<and> lstart t = st \<and> lsize t = nl \<and> length (lhblock t) = LOGSIZE \<and> ldev t = 1 \<and>
    disksize (lb t) = N \<and> outstanding t = 0 \<and> \<not> committing t)" (is "wp _ ?Q")
proof -
  have len: "\<And>b. length (d b) = BSIZE" using v by (simp add: log_valid_def)
  note R = reboot_bio [OF len]
  let ?r = "reboot N d"
  let ?b = "(lb ?r)\<lparr>bk := (bk (lb ?r))\<lparr>km := initlock LOGLK ''log'' (km (bk (lb ?r)))\<rparr>\<rparr>"
  have b: "bio_ok [] ?b" "busy_blocks ?b = {}" "dirty_blocks ?b = {}" "disk ?b = d" "view ?b = d" "disksize ?b = N" "writes ?b = []"
    using R [of N] initlock_hasl [of "km (bk (lb ?r))" "[]" LOGLK "''log''"] by (auto simp: bio_ok_def)
  have rs: "wp (readsb 1 ?b) (\<lambda>x t. x = sb_of (d 1) \<and> bio_ok [] t \<and> same_blocks ?b t \<and> busy_blocks t = {})"
    unfolding readsb_def by (rule wp_mono [OF bread_brelse]) (use b sb(3) in \<open>simp_all add: NBUF_def\<close>)
  have "wp (recover_from_log (?r\<lparr>lb := t, lstart := st, lsize := nl, ldev := 1\<rparr>)) ?Q"
    if t: "bio_ok [] t" "same_blocks ?b t" "busy_blocks t = {}" for t
  proof -
    have tt: "disk t = d" "disksize t = N" "dirty_blocks t = {}" "view t = d" "writes t = []"
      using t(2) b by (simp_all add: same_blocks_def)
    have l: "length (lhblock ?r) = LOGSIZE" "outstanding ?r = 0" "\<not> committing ?r" by (simp_all add: reboot_def)
    show ?thesis
      using recover_wp [of "?r\<lparr>lb := t, lstart := st, lsize := nl, ldev := 1\<rparr>"] t tt v l
      by (auto simp: recovered_def bio_wrote_def elim!: wp_mono)
  qed
  then show ?thesis
    using rs sb(1,2) by (auto simp: initlog_def LOGSIZE_def MAXOPBLOCKS_def BSIZE_def Let_def elim!: wp_mono)
qed

text \<open>What recovery does to a block outside the log area.\<close>

lemma recovered_home:
  assumes v: "log_valid st nl N d" and c: "c < st \<or> st + nl \<le> c"
  shows "recovered st d c = (case first_idx (\<lambda>i. hdr_blk (d st) i = c) [0..<hdr_n (d st)] of
    Some i \<Rightarrow> d (st + i + 1) | None \<Rightarrow> d c)"
proof -
  let ?W = "map (\<lambda>i. (hdr_blk (d st) i, d (st + i + 1))) [0..<hdr_n (d st)]"
  have cs: "c \<noteq> st" using c v by (auto simp: log_valid_def)
  have r: "recovered st d c = apply_writes ?W d c"
    unfolding recovered_def recover_writes_def using cs by simp
  have dist: "distinct (map fst ?W)" using v by (simp add: log_valid_def comp_def)
  show ?thesis
  proof (cases "first_idx (\<lambda>i. hdr_blk (d st) i = c) [0..<hdr_n (d st)]")
    case None
    then have "c \<notin> fst ` set ?W" by (auto simp: first_idx_None)
    then show ?thesis using r None apply_writes_notin by simp
  next
    case (Some i)
    then have "i < hdr_n (d st)" "hdr_blk (d st) i = c"
      using first_idx_length [OF Some] first_idx_sat [OF Some] by auto
    then have "(c, d (st + i + 1)) \<in> set ?W" by force
    then show ?thesis using r Some apply_writes_in [OF dist] by simp
  qed
qed

lemma recovered_none: "log_valid st nl N d \<Longrightarrow> hdr_n (d st) = 0 \<Longrightarrow> c < st \<or> st + nl \<le> c \<Longrightarrow> recovered st d c = d c"
  by (simp add: recovered_home)

lemma recovered_all:
  assumes v: "log_valid st nl N d" and c: "c < st \<or> st + nl \<le> c"
    and f: "\<And>i. i < hdr_n (d st) \<Longrightarrow> d (st + i + 1) = f (hdr_blk (d st) i)"
    and o: "(\<And>i. i < hdr_n (d st) \<Longrightarrow> hdr_blk (d st) i \<noteq> c) \<Longrightarrow> d c = f c"
  shows "recovered st d c = f c"
proof (cases "first_idx (\<lambda>i. hdr_blk (d st) i = c) [0..<hdr_n (d st)]")
  case None
  then have "hdr_blk (d st) i \<noteq> c" if "i < hdr_n (d st)" for i using that by (auto simp: first_idx_None)
  then show ?thesis using recovered_home [OF v c] o unfolding None by simp
next
  case (Some i)
  then have "i < hdr_n (d st)" "hdr_blk (d st) i = c"
    using first_idx_length [OF Some] first_idx_sat [OF Some] by auto
  then show ?thesis using recovered_home [OF v c] Some f by auto
qed

section \<open>Crash safety\<close>

text \<open>
  Between transactions the header on the disk is clear, the superblock describes the log, and
  the blocks of the transaction are exactly the pinned ones.
\<close>

definition log_inv :: "log \<Rightarrow> bool" where
  "log_inv s \<longleftrightarrow> ldev s = 1 \<and> bio_ok [] (lb s) \<and> length (lhblock s) = LOGSIZE \<and>
     0 \<le> lhn s \<and> lhn s < int (lsize s) \<and> lsize s \<le> LOGSIZE \<and> lstart s + lsize s \<le> disksize (lb s) \<and>
     distinct (logged s) \<and> (\<forall>b \<in> set (logged s). home s b) \<and> dirty_blocks (lb s) = set (logged s) \<and>
     get32 0 (disk (lb s) (lstart s)) = 0 \<and> sb_logstart (sb_of (disk (lb s) 1)) = lstart s \<and>
     sb_nlog (sb_of (disk (lb s) 1)) = lsize s \<and> home s 1 \<and> 1 \<notin> set (logged s) \<and> disksize (lb s) \<le> 2 ^ 32"

definition log_wf :: "log \<Rightarrow> bool" where
  "log_wf s \<longleftrightarrow> log_inv s \<and> busy_blocks (lb s) = {}"

lemma log_wfD:
  assumes "log_wf s"
  shows "txn_ok s" "0 \<le> lhn s" "dirty_blocks (lb s) = set (logged s)" "disksize (lb s) \<le> 2 ^ 32"
    "get32 0 (disk (lb s) (lstart s)) = 0" "sb_logstart (sb_of (disk (lb s) 1)) = lstart s"
    "sb_nlog (sb_of (disk (lb s) 1)) = lsize s" "home s 1" "1 \<notin> set (logged s)"
  using assms by (auto simp: log_wf_def log_inv_def txn_ok_def)

lemma apply_writes_length:
  assumes "\<And>b v. (b, v) \<in> set ws \<Longrightarrow> length v = n" "\<And>b. length (d b) = n"
  shows "length (apply_writes ws d c) = n"
  using assms
proof (induction ws arbitrary: d)
  case Nil
  then show ?case by simp
next
  case (Cons w ws)
  obtain a x where w: "w = (a, x)" by (cases w)
  have "length ((d(a := x)) b) = n" for b using Cons.prems w by auto
  moreover have "length v = n" if "(b, v) \<in> set ws" for b v using Cons.prems(1) that by auto
  ultimately have "length (apply_writes ws (d(a := x)) c) = n" by (intro Cons.IH)
  then show ?case using w by simp
qed

lemma commit_hdr_facts:
  assumes w: "log_wf s"
  shows "length (commit_hdr s) = BSIZE" "hdr_n (commit_hdr s) = nat (lhn s)"
    "i < nat (lhn s) \<Longrightarrow> hdr_blk (commit_hdr s) i = lhblock s ! i"
    "hdr_image (s\<lparr>lhn := 0\<rparr>) (commit_hdr s) = put32 0 0 (commit_hdr s)"
    "length (put32 0 0 (commit_hdr s)) = BSIZE" "hdr_n (put32 0 0 (commit_hdr s)) = 0"
proof -
  have s: "txn_ok s" "0 \<le> lhn s" "disksize (lb s) \<le> 2 ^ 32" using log_wfD [OF w] by simp_all
  have n: "lhn s \<le> int LOGSIZE" using s(1) by (auto simp: txn_ok_def)
  have len: "length (view (lb s) (lstart s)) = BSIZE" using txn_okD(2) [OF s(1)] by (simp add: bio_ok_view_length)
  note H = hdr_image [OF len s(2) n, folded commit_hdr_def]
  show l: "length (commit_hdr s) = BSIZE" by (rule H(1))
  have "LOGSIZE < 2 ^ 31" by (simp add: LOGSIZE_def MAXOPBLOCKS_def)
  then show "hdr_n (commit_hdr s) = nat (lhn s)" using H(2) n s(2) by (simp add: hdr_n_def int32_def nat_less_iff)
  show "hdr_blk (commit_hdr s) i = lhblock s ! i" if "i < nat (lhn s)"
    using H(3) [OF that] txn_okD(9) [OF s(1) that] s(3) by (simp add: hdr_blk_def home_def)
  show "hdr_image (s\<lparr>lhn := 0\<rparr>) (commit_hdr s) = put32 0 0 (commit_hdr s)" by (rule hdr_image_zero)
  have fits: "0 + 4 \<le> length (commit_hdr s)" using l by (simp add: BSIZE_def)
  then show "length (put32 0 0 (commit_hdr s)) = BSIZE" using l by simp
  show "hdr_n (put32 0 0 (commit_hdr s)) = 0"
    using get_put_field_same [OF fits, of 0] by (simp add: hdr_n_def int32_def)
qed

text \<open>The disk a crash after the first \<open>k\<close> writes of a commit leaves behind.\<close>

definition crashed :: "log \<Rightarrow> nat \<Rightarrow> nat \<Rightarrow> bytes" where
  "crashed s k = apply_writes (take k (commit_writes s)) (disk (lb s))"

lemma crashed_length:
  assumes w: "log_wf s"
  shows "length (crashed s k c) = BSIZE"
  unfolding crashed_def
proof (rule apply_writes_length)
  have ok: "bio_ok [] (lb s)" "wf_bio (lb s)" using txn_okD(2) [OF log_wfD(1) [OF w]] by (auto simp: bio_ok_def)
  show "length v = BSIZE" if "(b, v) \<in> set (take k (commit_writes s))" for b v
    using in_set_takeD [OF that] commit_hdr_facts [OF w] bio_ok_view_length [OF ok(1)]
    by (auto simp: commit_writes_def log_writes_def final_writes_def)
  show "length (disk (lb s) b) = BSIZE" for b using wf_bioD(2) [OF ok(2)] .
qed

text \<open>Before the header is written, the header is clear and no home block has changed.\<close>

lemma crashed_before:
  assumes w: "log_wf s" and k: "k \<le> nat (lhn s)"
  shows "crashed s k (lstart s) = disk (lb s) (lstart s)" "home s c \<Longrightarrow> crashed s k c = disk (lb s) c"
proof -
  have s: "txn_ok s" using log_wfD [OF w] by simp
  have t: "take k (commit_writes s) = map (log_writes s) [0..<k]"
    using k by (simp add: commit_writes_def take_map)
  show "crashed s k (lstart s) = disk (lb s) (lstart s)"
    unfolding crashed_def t by (rule log_writes_start)
  show "crashed s k c = disk (lb s) c" if "home s c"
    unfolding crashed_def t
  proof (rule apply_writes_notin)
    show "c \<notin> fst ` set (map (log_writes s) [0..<k])"
      unfolding log_writes_keys using that k txn_okD(6) [OF s] by (auto simp: home_def)
  qed
qed

text \<open>After it, the log holds the transaction, whatever has been installed already.\<close>

lemma final_writes_keys:
  assumes "txn_ok s" "j \<le> nat (lhn s)"
  shows "fst ` set (map (final_writes s) [0..<j]) \<subseteq> set (logged s)" "distinct (map fst (map (final_writes s) [0..<j]))"
proof -
  have "map fst (map (final_writes s) [0..<j]) = take j (logged s)"
    using assms txn_okD(4) [OF assms(1)] by (intro nth_equalityI) (auto simp: final_writes_def logged_def)
  then show "fst ` set (map (final_writes s) [0..<j]) \<subseteq> set (logged s)" "distinct (map fst (map (final_writes s) [0..<j]))"
    using txn_okD(8) [OF assms(1)] set_take_subset [of j "logged s"] by (metis list.set_map, simp)
qed

lemma crashed_after:
  assumes w: "log_wf s" and j: "j \<le> nat (lhn s)"
  defines "d \<equiv> apply_writes (map (log_writes s) [0..<nat (lhn s)] @ [(lstart s, commit_hdr s)] @ map (final_writes s) [0..<j]) (disk (lb s))"
  shows "d (lstart s) = commit_hdr s" "i < nat (lhn s) \<Longrightarrow> d (lstart s + i + 1) = view (lb s) (lhblock s ! i)"
    "home s c \<Longrightarrow> c \<notin> set (logged s) \<Longrightarrow> d c = view (lb s) c"
    "j = nat (lhn s) \<Longrightarrow> home s c \<Longrightarrow> d c = view (lb s) c"
proof -
  have s: "txn_ok s" "dirty_blocks (lb s) = set (logged s)" using log_wfD [OF w] by simp_all
  note K = final_writes_keys [OF s(1) j]
  have logh: "\<not> home s (lstart s + i)" if "i < lsize s" for i using log_area_not_home(1) [OF s(1) that] .
  have lk: "b \<in> set (logged s) \<Longrightarrow> home s b" for b using s(1) by (auto simp: txn_ok_def)
  let ?d0 = "apply_writes (map (log_writes s) [0..<nat (lhn s)]) (disk (lb s))"
  have d: "d = apply_writes (map (final_writes s) [0..<j]) (?d0(lstart s := commit_hdr s))" by (simp add: d_def)
  have nf: "d b = (?d0(lstart s := commit_hdr s)) b" if "\<not> home s b \<or> b \<notin> set (logged s)" for b
    unfolding d using that K(1) lk by (intro apply_writes_notin) blast
  show "d (lstart s) = commit_hdr s" using nf [of "lstart s"] logh [of 0] txn_okD(6) [OF s(1)] by simp
  show "d (lstart s + i + 1) = view (lb s) (lhblock s ! i)" if "i < nat (lhn s)"
    using nf [of "lstart s + i + 1"] logh [of "i + 1"] txn_okD(6) [OF s(1)] that map_log_writes_in [OF that] by simp
  show un: "d c = view (lb s) c" if "home s c" "c \<notin> set (logged s)" for c
  proof -
    have "c \<notin> fst ` set (map (log_writes s) [0..<nat (lhn s)])" "c \<noteq> lstart s"
      unfolding log_writes_keys using that txn_okD(6) [OF s(1)] by (auto simp: home_def)
    then have "d c = disk (lb s) c" using nf [of c] that apply_writes_notin by simp
    moreover have "view (lb s) c = disk (lb s) c"
      using txn_okD(2,3) [OF s(1)] s(2) that(2) by (intro view_disk) (simp_all add: bio_ok_def)
    ultimately show ?thesis by simp
  qed
  show "d c = view (lb s) c" if jn: "j = nat (lhn s)" and h: "home s c"
  proof (cases "c \<in> set (logged s)")
    case True
    then obtain i where "i < length (logged s)" "logged s ! i = c" by (auto simp: in_set_conv_nth)
    then have i: "i < nat (lhn s)" "lhblock s ! i = c" using txn_okD(4,10) [OF s(1)] by auto
    have "(c, view (lb s) c) \<in> set (map (final_writes s) [0..<j])" using i jn by (force simp: final_writes_def)
    then show ?thesis unfolding d using apply_writes_in [OF K(2)] by simp
  next
    case False
    then show ?thesis using un [OF h] by simp
  qed
qed

text \<open>Before the header write a crash recovers to the old state, after it to the new one.\<close>

lemma log_valid_crashed:
  assumes w: "log_wf s" and n: "hdr_n (d (lstart s)) = 0 \<or> d (lstart s) = commit_hdr s"
    and len: "\<And>c. length (d c) = BSIZE"
  shows "log_valid (lstart s) (lsize s) (disksize (lb s)) d"
proof -
  have s: "txn_ok s" using log_wfD [OF w] by simp
  note T = txn_okD [OF s] and H = commit_hdr_facts [OF w]
  have z: "0 < lsize s" "lsize s \<le> LOGSIZE" using s by (simp_all add: txn_ok_def)
  show ?thesis
  proof (cases "hdr_n (d (lstart s)) = 0")
    case True
    then show ?thesis using T(7) z len by (simp add: log_valid_def)
  next
    case False
    then have d: "d (lstart s) = commit_hdr s" using n by simp
    have "map (hdr_blk (commit_hdr s)) [0..<nat (lhn s)] = logged s"
      using H(3) T(4,10) by (intro nth_equalityI) auto
    then show ?thesis
      using T(6,7,8,9) z len H(2,3) unfolding log_valid_def d by (auto simp: home_def)
  qed
qed

lemma crash_recovers:
  assumes w: "log_wf s" and k: "k \<le> length (commit_writes s)"
  shows "log_valid (lstart s) (lsize s) (disksize (lb s)) (crashed s k)"
    and "home s b \<Longrightarrow> recovered (lstart s) (crashed s k) b = (if k \<le> nat (lhn s) then disk (lb s) b else view (lb s) b)"
proof -
  let ?n = "nat (lhn s)"
  have s: "txn_ok s" using log_wfD [OF w] by simp
  note H = commit_hdr_facts [OF w] and len = crashed_length [OF w]
  have clear: "hdr_n (disk (lb s) (lstart s)) = 0" using log_wfD(5) [OF w] by (simp add: hdr_n_def int32_def)
  have hb: "b < lstart s \<or> lstart s + lsize s \<le> b" if "home s b" for b using that by (simp add: home_def)
  have "log_valid (lstart s) (lsize s) (disksize (lb s)) (crashed s k) \<and>
    (home s b \<longrightarrow> recovered (lstart s) (crashed s k) b = (if k \<le> ?n then disk (lb s) b else view (lb s) b))"
  proof (cases "k \<le> ?n")
    case True
    note B = crashed_before [OF w True]
    have v: "log_valid (lstart s) (lsize s) (disksize (lb s)) (crashed s k)"
      using B(1) clear len by (intro log_valid_crashed [OF w]) simp_all
    then show ?thesis using recovered_none [OF v] B clear hb True by simp
  next
    case False
    define j where "j = k - Suc ?n"
    let ?F = "\<lambda>j. map (log_writes s) [0..<?n] @ [(lstart s, commit_hdr s)] @ map (final_writes s) [0..<j]"
    show ?thesis
    proof (cases "j \<le> ?n")
      case j: True
      have "take k (commit_writes s) = ?F j"
        using False j by (simp add: commit_writes_def j_def take_map) (simp add: take_Cons' take_map)
      then have c: "crashed s k = apply_writes (?F j) (disk (lb s))" by (simp add: crashed_def)
      note A = crashed_after [OF w j, folded c]
      have v: "log_valid (lstart s) (lsize s) (disksize (lb s)) (crashed s k)"
        using A(1) len by (intro log_valid_crashed [OF w]) simp_all
      have hn: "hdr_n (crashed s k (lstart s)) = ?n" using A(1) H(2) by simp
      have "recovered (lstart s) (crashed s k) b = view (lb s) b" if "home s b"
      proof (rule recovered_all [OF v hb [OF that]])
        show "crashed s k (lstart s + i + 1) = view (lb s) (hdr_blk (crashed s k (lstart s)) i)"
          if "i < hdr_n (crashed s k (lstart s))" for i
          using that A(1,2) H(3) hn by simp
        assume no: "\<And>i. i < hdr_n (crashed s k (lstart s)) \<Longrightarrow> hdr_blk (crashed s k (lstart s)) i \<noteq> b"
        have "b \<noteq> logged s ! i" if "i < length (logged s)" for i
          using no [of i] that A(1) H(3) hn txn_okD(4,10) [OF s] by simp
        then have "b \<notin> set (logged s)" by (auto simp: in_set_conv_nth)
        then show "crashed s k b = view (lb s) b" using A(3) \<open>home s b\<close> by simp
      qed
      then show ?thesis using v False by simp
    next
      case j: False
      have "take k (commit_writes s) = ?F ?n @ [(lstart s, put32 0 0 (commit_hdr s))]"
        using k False j H(4) by (simp add: commit_writes_def j_def)
      then have c: "crashed s k = (apply_writes (?F ?n) (disk (lb s)))(lstart s := put32 0 0 (commit_hdr s))"
        by (simp add: crashed_def)
      note A = crashed_after [OF w order.refl]
      have z: "hdr_n (crashed s k (lstart s)) = 0" using c H(6) by simp
      have v: "log_valid (lstart s) (lsize s) (disksize (lb s)) (crashed s k)"
        using z len by (intro log_valid_crashed [OF w]) simp_all
      have "crashed s k b = view (lb s) b" if "home s b"
        using A(4) [OF refl that] that c txn_okD(6) [OF s] by (auto simp: home_def)
      then show ?thesis using recovered_none [OF v z] hb v False by auto
    qed
  qed
  then show "log_valid (lstart s) (lsize s) (disksize (lb s)) (crashed s k)"
    "home s b \<Longrightarrow> recovered (lstart s) (crashed s k) b = (if k \<le> ?n then disk (lb s) b else view (lb s) b)"
    by blast+
qed

lemma crashed_superblock:
  assumes w: "log_wf s" and k: "k \<le> length (commit_writes s)"
  shows "crashed s k 1 = disk (lb s) 1"
  unfolding crashed_def
proof (rule apply_writes_notin)
  have s: "txn_ok s" using log_wfD [OF w] by simp
  have "1 \<notin> fst ` set (commit_writes s)"
    using log_wfD(8,9) [OF w] final_writes_keys(1) [OF s order.refl] txn_okD(6) [OF s]
    unfolding commit_writes_def set_append image_Un log_writes_keys by (auto simp: home_def)
  then show "1 \<notin> fst ` set (take k (commit_writes s))" using set_take_subset [of k "commit_writes s"] by blast
qed

section \<open>Operations of a transaction\<close>

lemma on_lkern_wp:
  "wp (on_lkern f s) Q \<longleftrightarrow> wp (f (bk (lb s))) (\<lambda>x k. Q x (s\<lparr>lb := (lb s)\<lparr>bk := k\<rparr>\<rparr>))"
  by (simp add: on_lkern_def on_kern_def)

lemma log_acquire:
  assumes "hasl (km (bk (lb s))) []"
  shows "wp (on_lkern (kacquire LOGLK) s) (\<lambda>_ t. \<exists>k. hasl (km k) [LOGLK] \<and> t = s\<lparr>lb := (lb s)\<lparr>bk := k\<rparr>\<rparr>)"
  using kacquire_wp [OF assms, of LOGLK] by (auto simp: on_lkern_wp elim: wp_mono)

lemma log_release:
  assumes "hasl (km (bk (lb s))) [LOGLK]" "\<And>k. hasl (km k) [] \<Longrightarrow> Q (s\<lparr>lb := (lb s)\<lparr>bk := k\<rparr>\<rparr>)"
  shows "wp (on_lkern (krelease LOGLK) s) (\<lambda>_. Q)"
  using krelease_wp [OF assms(1), of LOGLK] assms(2) by (auto simp: on_lkern_wp elim!: wp_mono)

lemma log_wake_release:
  assumes "hasl (km (bk (lb s))) [LOGLK]" "\<And>k. hasl (km k) [] \<Longrightarrow> Q (s\<lparr>lb := (lb s)\<lparr>bk := k\<rparr>\<rparr>)"
  shows "wp (bindR (on_lkern (wakeup ChLog) s) (\<lambda>_. on_lkern (krelease LOGLK))) (\<lambda>_. Q)"
  unfolding wp_bindR on_lkern_wp [of "wakeup ChLog"]
  by (rule wp_mono [OF wakeup_wp [OF assms(1)]]) (use assms(2) in \<open>auto intro!: log_release\<close>)

text \<open>Fields of the log that do not matter to the invariant.\<close>

lemma log_inv_bk:
  assumes "log_inv s" "hasl (km k) []"
  shows "log_inv (s\<lparr>lb := (lb s)\<lparr>bk := k\<rparr>\<rparr>)"
  using assms by (simp add: log_inv_def bio_ok_def logged_def home_def)

lemma log_inv_counters [simp]:
  "log_inv (s\<lparr>outstanding := n\<rparr>) = log_inv s" "log_inv (s\<lparr>committing := c\<rparr>) = log_inv s"
  by (simp_all add: log_inv_def logged_def home_def)

definition log_add :: "nat \<Rightarrow> nat list \<Rightarrow> nat list" where
  "log_add b l = (if b \<in> set l then l else l @ [b])"

lemma first_idx_eq_None: "first_idx (\<lambda>x. x = b) l = None \<longleftrightarrow> b \<notin> set l"
  by (auto simp: first_idx_None)

text \<open>What \<open>log_write\<close> does to the header: a block is listed once (absorption).\<close>

lemma log_write_logged:
  assumes l: "length (lhblock s) = LOGSIZE" "0 \<le> lhn s" "lhn s < int LOGSIZE"
    and i: "i = (case first_idx (\<lambda>x. x = b) (logged s) of Some i \<Rightarrow> i | None \<Rightarrow> nat (lhn s))"
  defines "t \<equiv> s\<lparr>lhblock := (lhblock s)[i := b], lhn := if int i = lhn s then lhn s + 1 else lhn s\<rparr>"
  shows "logged t = log_add b (logged s)" "length (lhblock t) = LOGSIZE" "lhn t = int (length (logged t))"
proof -
  have len: "length (logged s) = nat (lhn s)" "nat (lhn s) < length (lhblock s)" using l by (auto simp: logged_def)
  show lb: "length (lhblock t) = LOGSIZE" using l by (simp add: t_def)
  show lg: "logged t = log_add b (logged s)"
  proof (cases "first_idx (\<lambda>x. x = b) (logged s)")
    case None
    have "i = nat (lhn s)" unfolding i None by simp
    moreover have "b \<notin> set (logged s)" using None by (simp add: first_idx_eq_None)
    ultimately show ?thesis
      using l len by (simp add: t_def logged_def log_add_def nat_add_distrib take_update_snoc)
  next
    case (Some k)
    then have k: "i = k" "k < length (logged s)" "logged s ! k = b"
      using i first_idx_length [OF Some] first_idx_sat [OF Some] by auto
    then have "b \<in> set (logged s)" by (auto simp: in_set_conv_nth)
    moreover have "(lhblock s)[k := b] = lhblock s"
      using k len by (intro list_update_noop) (simp add: logged_def)
    ultimately show ?thesis using k len by (auto simp: t_def logged_def log_add_def)
  qed
  have "0 \<le> lhn t" "lhn t \<le> int LOGSIZE" using l by (auto simp: t_def)
  then show "lhn t = int (length (logged t))" using lb by (simp add: logged_def)
qed

lemma log_write_wp:
  assumes s: "log_inv s" and h: "holds (lb s) j b" and b: "home s b" "b \<noteq> 1"
    and room: "lhn s < int (lsize s) - 1" "1 \<le> outstanding s"
  shows "wp (log_write j s) (\<lambda>_ t. log_inv t \<and> view (lb t) = view (lb s) \<and> disk (lb t) = disk (lb s) \<and>
    writes (lb t) = writes (lb s) \<and> busy_blocks (lb t) = busy_blocks (lb s) \<and> logged t = log_add b (logged s) \<and>
    disksize (lb t) = disksize (lb s) \<and> lstart t = lstart s \<and> lsize t = lsize s \<and> outstanding t = outstanding s \<and>
    committing t = committing s \<and> (\<forall>i c. holds (lb s) i c \<longrightarrow> holds (lb t) i c))" (is "wp _ ?Q")
proof -
  have S: "wf_bio (lb s)" "hasl (km (bk (lb s))) []" "length (lhblock s) = LOGSIZE" "0 \<le> lhn s" "lsize s \<le> LOGSIZE"
    using s by (simp_all add: log_inv_def bio_ok_def)
  then have n: "lhn s < int LOGSIZE" using room by linarith
  have bno: "blockno (bufs (lb s) ! j) = b" using holdsD(6) [OF h] .
  define i where "i = (case first_idx (\<lambda>x. x = b) (logged s) of Some i \<Rightarrow> i | None \<Rightarrow> nat (lhn s))"
  define n' where "n' = (if int i = lhn s then lhn s + 1 else lhn s)"
  define bl where "bl = (lhblock s)[i := b]"
  have L: "logged (s\<lparr>lhblock := bl, lhn := n'\<rparr>) = log_add b (logged s)"
    "length bl = LOGSIZE" "n' = int (length (log_add b (logged s)))"
    using log_write_logged [OF S(3,4) n i_def] by (simp_all add: bl_def n'_def)
  have ll: "length (logged s) = nat (lhn s)" using S(3,4) n by (simp add: logged_def)
  then have n'b: "n' < int (lsize s)" "0 \<le> n'" using L(3) room S(4) by (auto simp: log_add_def)
  note D = set_dirty_spec [OF S(1) h]
  have post: "?Q () (s\<lparr>lhblock := bl, lhn := n', lb := (set_dirty j (lb s))\<lparr>bk := k\<rparr>\<rparr>)" if "hasl (km k) []" for k
  proof -
    let ?t = "s\<lparr>lhblock := bl, lhn := n', lb := (set_dirty j (lb s))\<lparr>bk := k\<rparr>\<rparr>"
    have lg: "logged ?t = log_add b (logged s)" using L(1) by (simp add: logged_def)
    have hm: "home ?t c = home s c" for c using D by (simp add: home_def)
    have "set (log_add b (logged s)) = insert b (set (logged s))" "distinct (log_add b (logged s))"
      using s by (auto simp: log_add_def log_inv_def)
    then have "log_inv ?t"
      using s b n'b L(2) D that unfolding log_inv_def lg hm by (simp add: bio_ok_def)
    then show ?thesis using D lg by simp
  qed
  have "wp (on_lkern (krelease LOGLK) (s\<lparr>lhblock := bl, lhn := n', lb := (set_dirty j (lb s))\<lparr>bk := k\<rparr>\<rparr>)) ?Q"
    if "hasl (km k) [LOGLK]" for k
    by (rule log_release) (use that post in simp_all)
  moreover have "set_dirty j ((lb s)\<lparr>bk := k\<rparr>) = (set_dirty j (lb s))\<lparr>bk := k\<rparr>" for k by (simp add: set_dirty_def)
  moreover have "logged (s\<lparr>lb := x\<rparr>) = logged s" for x by (simp add: logged_def)
  ultimately have "wp (let bno = blockno (bufs (lb t) ! j);
            i = (case first_idx (\<lambda>x. x = bno) (logged t) of Some i \<Rightarrow> i | None \<Rightarrow> nat (lhn t));
            s = t\<lparr>lhblock := (lhblock t)[i := bno],
                  lhn := if int i = lhn t then lhn t + 1 else lhn t,
                  lb := set_dirty j (lb t)\<rparr>
        in on_lkern (krelease LOGLK) s) ?Q" if "hasl (km k) [LOGLK]" "t = s\<lparr>lb := (lb s)\<lparr>bk := k\<rparr>\<rparr>" for k t
    using that unfolding Let_def that(2)
    by (cases "int i = lhn s")
      (simp_all add: bno i_def [symmetric] n'_def bl_def [symmetric] cong: option.case_cong)
  then show ?thesis
    using room n unfolding log_write_def wp_if wp_bindR
    by (auto intro!: wp_mono [OF log_acquire [OF S(2)]])
qed

lemma begin_op_wp:
  assumes s: "hasl (km (bk (lb s))) []" "\<not> committing s" "lhn s + (outstanding s + 1) * int MAXOPBLOCKS \<le> int LOGSIZE"
  shows "wp (begin_op s) (\<lambda>_ t. \<exists>k. hasl (km k) [] \<and> t = s\<lparr>lb := (lb s)\<lparr>bk := k\<rparr>, outstanding := outstanding s + 1\<rparr>)"
proof -
  have "wp (begin_op_loop (s\<lparr>lb := (lb s)\<lparr>bk := k\<rparr>\<rparr>)) (\<lambda>_ t. \<exists>k. hasl (km k) [] \<and>
      t = s\<lparr>lb := (lb s)\<lparr>bk := k\<rparr>, outstanding := outstanding s + 1\<rparr>)" if "hasl (km k) [LOGLK]" for k
    unfolding begin_op_loop_def using s(2,3) that by (auto intro!: log_release exI)
  then show ?thesis using log_acquire [OF s(1)] by (auto simp: begin_op_def elim!: wp_mono)
qed

text \<open>A commit leaves the log empty and every block outside the log area on the disk.\<close>

lemma commit_log_wf:
  assumes w: "log_wf s" and pos: "0 < lhn s"
  shows "wp (commit s) (\<lambda>_ t. log_wf t \<and> lhn t = 0 \<and> writes (lb t) = writes (lb s) @ commit_writes s \<and>
    disk (lb t) = crashed s (length (commit_writes s)) \<and> lstart t = lstart s \<and> lsize t = lsize s \<and>
    (\<forall>b. home s b \<longrightarrow> disk (lb t) b = view (lb s) b \<and> view (lb t) b = view (lb s) b) \<and>
    disksize (lb t) = disksize (lb s) \<and> outstanding t = outstanding s \<and> committing t = committing s)"
proof (rule wp_mono [OF commit_wp [OF log_wfD(1) [OF w] pos]], elim conjE)
  fix t
  let ?k = "length (commit_writes s)"
  assume b: "bio_wrote (lb s) (lb t) (commit_writes s)" and t: "t = s\<lparr>lb := lb t, lhn := 0\<rparr>"
  have f: "lhn t = 0" "lstart t = lstart s" "lsize t = lsize s" "outstanding t = outstanding s" "committing t = committing s"
    "ldev t = ldev s" "lhblock t = lhblock s"
    by (subst t, simp)+
  have B: "bio_ok [] (lb t)" "disk (lb t) = crashed s ?k" "writes (lb t) = writes (lb s) @ commit_writes s"
    "disksize (lb t) = disksize (lb s)" "busy_blocks (lb t) = {}" "dirty_blocks (lb t) = dirty_blocks (lb s) - fst ` set (commit_writes s)"
    using b w by (simp_all add: bio_wrote_def crashed_def log_wf_def)
  have s: "txn_ok s" using log_wfD [OF w] by simp
  have hdr: "crashed s ?k (lstart s) = put32 0 0 (commit_hdr s)"
    using commit_hdr_facts(4) [OF w] by (simp add: crashed_def commit_writes_def)
  then have clear: "hdr_n (crashed s ?k (lstart s)) = 0" "get32 0 (crashed s ?k (lstart s)) = 0"
    using commit_hdr_facts [OF w] get_put_field_same [of 0 4 "commit_hdr s" 0] by (simp_all add: BSIZE_def)
  have "set (logged s) \<subseteq> fst ` set (commit_writes s)"
  proof
    fix b
    assume "b \<in> set (logged s)"
    then obtain i where "i < nat (lhn s)" "lhblock s ! i = b" using txn_okD(4,10) [OF s] by (auto simp: in_set_conv_nth)
    then have "fst (final_writes s i) = b" "final_writes s i \<in> set (commit_writes s)"
      by (auto simp: final_writes_def commit_writes_def)
    then show "b \<in> fst ` set (commit_writes s)" by blast
  qed
  then have dirty: "dirty_blocks (lb t) = {}" using B(6) log_wfD(3) [OF w] by auto
  have hm: "home t c = home s c" for c using f B by (simp add: home_def)
  have vd: "view (lb t) c = disk (lb t) c" for c using B(1,5) dirty by (intro view_disk) (auto simp: bio_ok_def)
  have dk: "disk (lb t) c = view (lb s) c" if "home s c" for c
    using crash_recovers [OF w order.refl] recovered_none clear(1) that B(2) pos
    by (simp add: home_def commit_writes_def)
  have d1: "disk (lb t) 1 = disk (lb s) 1" using B(2) crashed_superblock [OF w order.refl] by simp
  have "log_inv t"
    using w f B dirty clear(2) hm d1 unfolding log_wf_def log_inv_def by (simp add: logged_def)
  then show "log_wf t \<and> lhn t = 0 \<and> writes (lb t) = writes (lb s) @ commit_writes s \<and>
    disk (lb t) = crashed s (length (commit_writes s)) \<and> lstart t = lstart s \<and> lsize t = lsize s \<and>
    (\<forall>b. home s b \<longrightarrow> disk (lb t) b = view (lb s) b \<and> view (lb t) b = view (lb s) b) \<and>
    disksize (lb t) = disksize (lb s) \<and> outstanding t = outstanding s \<and> committing t = committing s"
    using f B vd dk by (simp add: log_wf_def)
qed

lemma log_inv_lb:
  assumes s: "log_inv s" and b: "bio_ok [] b" "disk b = disk (lb s)" "disksize b = disksize (lb s)" "dirty_blocks b = dirty_blocks (lb s)"
  shows "log_inv (s\<lparr>lb := b\<rparr>)"
  using assms by (simp add: log_inv_def logged_def home_def)

lemma log_wf_zero:
  assumes w: "log_wf s" and z: "lhn s = 0"
  shows "disk (lb s) c = view (lb s) c"
proof -
  have "dirty_blocks (lb s) = {}" "busy_blocks (lb s) = {}" "wf_bio (lb s)"
    using w z by (auto simp: log_wf_def log_inv_def logged_def bio_ok_def)
  then show ?thesis using view_disk by simp
qed

lemma end_op_wp:
  assumes w: "log_wf s" and o: "outstanding s = 1" "\<not> committing s"
  shows "wp (end_op s) (\<lambda>_ t. log_wf t \<and> lhn t = 0 \<and> outstanding t = 0 \<and> \<not> committing t \<and> lstart t = lstart s \<and>
    lsize t = lsize s \<and> (\<forall>b. home s b \<longrightarrow> disk (lb t) b = view (lb s) b \<and> view (lb t) b = view (lb s) b))" (is "wp _ ?Q")
proof -
  define P where "P t \<longleftrightarrow> log_wf t \<and> lhn t = 0 \<and> lstart t = lstart s \<and> lsize t = lsize s \<and> outstanding t = 0 \<and>
    (\<forall>b. home s b \<longrightarrow> disk (lb t) b = view (lb s) b \<and> view (lb t) b = view (lb s) b)" for t
  have P_bk: "P (t\<lparr>lb := (lb t)\<lparr>bk := k\<rparr>\<rparr>)" if "P t" "hasl (km k) []" for t k
    using that log_inv_bk [of t k] by (simp add: P_def log_wf_def)
  have sw: "log_inv (t\<lparr>committing := c, lb := b\<rparr>) = log_inv (t\<lparr>lb := b\<rparr>)"
    "log_inv (t\<lparr>outstanding := n, lb := b\<rparr>) = log_inv (t\<lparr>lb := b\<rparr>)" for t c b n
    by (simp_all add: log_inv_def logged_def home_def)
  have hl: "hasl (km (bk (lb t))) []" if "log_wf t" for t using that by (simp add: log_wf_def log_inv_def bio_ok_def)
  have fin: "wp (bindR (on_lkern (kacquire LOGLK) t) (\<lambda>_ s. bindR (on_lkern (wakeup ChLog) (s\<lparr>committing := False\<rparr>)) (\<lambda>_. on_lkern (krelease LOGLK)))) ?Q"
    if t: "P t" for t
    unfolding wp_bindR [of "on_lkern (kacquire LOGLK) t"]
  proof (rule wp_mono [OF log_acquire], goal_cases)
    case 1
    show ?case using t hl by (simp add: P_def)
  next
    case (2 r u)
    then obtain k where k: "hasl (km k) [LOGLK]" "u = t\<lparr>lb := (lb t)\<lparr>bk := k\<rparr>\<rparr>" by blast
    show ?case
    proof (rule log_wake_release)
      show "hasl (km (bk (lb (u\<lparr>committing := False\<rparr>)))) [LOGLK]" using k by simp
      show "?Q () ((u\<lparr>committing := False\<rparr>)\<lparr>lb := (lb (u\<lparr>committing := False\<rparr>))\<lparr>bk := k'\<rparr>\<rparr>)"
        if "hasl (km k') []" for k'
        using P_bk [OF t that] by (simp add: P_def k(2) log_wf_def sw)
    qed
  qed
  have com: "wp (commit t) (\<lambda>_. P)" if t: "log_wf t" "outstanding t = 0" "lhn t = lhn s" "lstart t = lstart s" "lsize t = lsize s"
    "view (lb t) = view (lb s)" "disksize (lb t) = disksize (lb s)" for t
  proof (cases "0 < lhn t")
    case True
    have "home t b = home s b" for b using t by (simp add: home_def)
    then show ?thesis using t by (intro wp_mono [OF commit_log_wf [OF t(1) True]]) (auto simp: P_def)
  next
    case False
    then have "lhn t = 0" using log_wfD(2) [OF t(1)] by simp
    then show ?thesis using t log_wf_zero [OF t(1)] by (simp add: commit_def P_def)
  qed
  have "wp (on_lkern (krelease LOGLK) (s\<lparr>lb := (lb s)\<lparr>bk := k\<rparr>, outstanding := 0, committing := True\<rparr>))
      (\<lambda>_ t. wp (commit t) (\<lambda>_. P))" if k: "hasl (km k) [LOGLK]" for k
  proof (rule log_release, goal_cases)
    case 1
    then show ?case using k by simp
  next
    case (2 k')
    have "log_inv (s\<lparr>lb := (lb s)\<lparr>bk := k'\<rparr>\<rparr>)" using w 2 log_inv_bk by (simp add: log_wf_def)
    then show ?case using w by (intro com) (simp_all add: log_wf_def sw)
  qed
  then have rest: "wp (on_lkern (krelease LOGLK) (s\<lparr>lb := (lb s)\<lparr>bk := k\<rparr>, outstanding := 0, committing := True\<rparr>))
      (\<lambda>_ t. wp (commit t) (\<lambda>_ u. wp (bindR (on_lkern (kacquire LOGLK) u) (\<lambda>_ s. bindR (on_lkern (wakeup ChLog) (s\<lparr>committing := False\<rparr>)) (\<lambda>_. on_lkern (krelease LOGLK)))) ?Q))"
    if k: "hasl (km k) [LOGLK]" for k
    using that by (blast intro: wp_mono fin)
  show ?thesis
    unfolding end_op_def wp_bindR [of "on_lkern (kacquire LOGLK) s"]
    by (rule wp_mono [OF log_acquire [OF hl [OF w]]]) (use o rest in \<open>auto simp: Let_def\<close>)
qed

section \<open>The log as a block layer\<close>

text \<open>A state inside a transaction with room for at least one more block in the log.\<close>

definition jrnl_ok :: "log \<Rightarrow> bool" where
  "jrnl_ok s \<longleftrightarrow> log_inv s \<and> 1 \<le> outstanding s"

definition jrnl_blocks :: "log \<Rightarrow> nat set" where
  "jrnl_blocks s = {b. home s b \<and> b \<noteq> 1}"

definition jrnl_room :: "log \<Rightarrow> nat \<Rightarrow> bool" where
  "jrnl_room s b \<longleftrightarrow> lhn s < int (lsize s) - 1"

lemma jrnl_lb:
  assumes "jrnl_ok s" "bio_ok [] b" "disk b = disk (lb s)" "disksize b = disksize (lb s)" "dirty_blocks b = dirty_blocks (lb s)"
  shows "jrnl_ok (s\<lparr>lb := b\<rparr>)" "jrnl_blocks (s\<lparr>lb := b\<rparr>) = jrnl_blocks s" "jrnl_room (s\<lparr>lb := b\<rparr>) = jrnl_room s"
  using assms log_inv_lb [of s b] by (auto simp: jrnl_ok_def jrnl_blocks_def jrnl_room_def home_def fun_eq_iff)

interpretation jrnl: block_layer jrnl_ok jrnl_blocks "\<lambda>s. busy_blocks (lb s)" "\<lambda>s. dirty_blocks (lb s)"
  "\<lambda>s. view (lb s)" "\<lambda>s i b. holds (lb s) i b \<and> b \<in> jrnl_blocks s" ldata
  "\<lambda>s b. b \<in> dirty_blocks (lb s) \<or> disk (lb s) b = view (lb s) b" jrnl_room
  "\<lambda>b. on_bio (bread 1 b)" lset_data log_write "\<lambda>i. on_bio (brelse i)"
proof
  fix s b
  assume s: "jrnl_ok s" "b \<in> jrnl_blocks s" "b \<notin> busy_blocks (lb s)"
    "b \<in> dirty_blocks (lb s) \<or> card (busy_blocks (lb s) \<union> dirty_blocks (lb s)) < NBUF"
  then have ok: "wf_bio (lb s)" "hasl (km (bk (lb s))) []" "b < disksize (lb s)"
    by (auto simp: jrnl_ok_def log_inv_def bio_ok_def jrnl_blocks_def home_def)
  have st: "b \<in> dirty_blocks (lb s) \<or> disk (lb s) b = view (lb s) b"
    using view_disk [OF ok(1) s(3)] by (cases "b \<in> dirty_blocks (lb s)") simp_all
  show "wp (on_bio (bread 1 b) s) (\<lambda>i t. jrnl_ok t \<and> jrnl_blocks t = jrnl_blocks s \<and> view (lb t) = view (lb s) \<and>
      dirty_blocks (lb t) = dirty_blocks (lb s) \<and> busy_blocks (lb t) = insert b (busy_blocks (lb s)) \<and>
      (holds (lb t) i b \<and> b \<in> jrnl_blocks t) \<and> (b \<in> dirty_blocks (lb t) \<or> disk (lb t) b = view (lb t) b) \<and>
      (jrnl_room s b \<longrightarrow> jrnl_room t b) \<and>
      (\<forall>j c. holds (lb s) j c \<and> c \<in> jrnl_blocks s \<longrightarrow> holds (lb t) j c \<and> c \<in> jrnl_blocks t))"
    unfolding on_bio_wp
    by (rule wp_mono [OF bread_wp [OF ok(1,2) _ ok(3) s(3,4)]])
      (use s(1,2) st in \<open>auto simp: jrnl_lb bio_ok_def same_blocks_def\<close>)
next
  fix s i b d
  assume s: "jrnl_ok s" "holds (lb s) i b \<and> b \<in> jrnl_blocks s" "length (d :: bytes) = BSIZE"
  then have ok: "bio_ok [] (lb s)" by (simp add: jrnl_ok_def log_inv_def)
  have "holds (lb s) i b" "wf_bio (lb s)" using s ok by (simp_all add: bio_ok_def)
  note D = set_data_spec [OF this(2,1) s(3)]
  have "bio_ok [] (set_data i d (lb s))" using ok D by (simp add: bio_ok_def)
  note J = jrnl_lb [OF s(1) this D(7,9,4)]
  show "jrnl_ok (lset_data i d s) \<and> jrnl_blocks (lset_data i d s) = jrnl_blocks s \<and>
      view (lb (lset_data i d s)) = (view (lb s))(b := d) \<and> dirty_blocks (lb (lset_data i d s)) = dirty_blocks (lb s) \<and>
      busy_blocks (lb (lset_data i d s)) = busy_blocks (lb s) \<and> (jrnl_room s b \<longrightarrow> jrnl_room (lset_data i d s) b) \<and>
      (\<forall>j c. holds (lb s) j c \<and> c \<in> jrnl_blocks s \<longrightarrow> holds (lb (lset_data i d s)) j c \<and> c \<in> jrnl_blocks (lset_data i d s))"
    unfolding lset_data_def using J D by simp
next
  fix s i b
  assume s: "jrnl_ok s" "holds (lb s) i b \<and> b \<in> jrnl_blocks s" "jrnl_room s b"
  have "wp (log_write i s) (\<lambda>_ t. log_inv t \<and> view (lb t) = view (lb s) \<and> disk (lb t) = disk (lb s) \<and>
    writes (lb t) = writes (lb s) \<and> busy_blocks (lb t) = busy_blocks (lb s) \<and> logged t = log_add b (logged s) \<and>
    disksize (lb t) = disksize (lb s) \<and> lstart t = lstart s \<and> lsize t = lsize s \<and> outstanding t = outstanding s \<and>
    committing t = committing s \<and> (\<forall>i c. holds (lb s) i c \<longrightarrow> holds (lb t) i c))"
    using s by (intro log_write_wp) (auto simp: jrnl_ok_def jrnl_blocks_def jrnl_room_def)
  then show "wp (log_write i s) (\<lambda>_ t. jrnl_ok t \<and> jrnl_blocks t = jrnl_blocks s \<and> view (lb t) = view (lb s) \<and>
      dirty_blocks (lb t) \<subseteq> insert b (dirty_blocks (lb s)) \<and> busy_blocks (lb t) = busy_blocks (lb s) \<and>
      (b \<in> dirty_blocks (lb t) \<or> disk (lb t) b = view (lb t) b) \<and>
      (\<forall>j c. holds (lb s) j c \<and> c \<in> jrnl_blocks s \<longrightarrow> holds (lb t) j c \<and> c \<in> jrnl_blocks t))"
    by (rule wp_mono)
      (use s in \<open>auto simp: jrnl_ok_def jrnl_blocks_def home_def log_inv_def log_add_def split: if_splits\<close>)
next
  fix s i b
  assume s: "jrnl_ok s" "holds (lb s) i b \<and> b \<in> jrnl_blocks s" "b \<in> dirty_blocks (lb s) \<or> disk (lb s) b = view (lb s) b"
  then have ok: "wf_bio (lb s)" "hasl (km (bk (lb s))) []" "holds (lb s) i b"
    by (auto simp: jrnl_ok_def log_inv_def bio_ok_def)
  show "wp (on_bio (brelse i) s) (\<lambda>_ t. jrnl_ok t \<and> jrnl_blocks t = jrnl_blocks s \<and> view (lb t) = view (lb s) \<and>
      dirty_blocks (lb t) = dirty_blocks (lb s) \<and> busy_blocks (lb t) = busy_blocks (lb s) - {b} \<and>
      (\<forall>j c. holds (lb s) j c \<and> c \<in> jrnl_blocks s \<longrightarrow> c \<noteq> b \<longrightarrow> holds (lb t) j c \<and> c \<in> jrnl_blocks t))"
    unfolding on_bio_wp
    by (rule wp_mono [OF brelse_wp [OF ok(1,3,2) _ _ s(3)]])
      (use s(1,2) in \<open>auto simp: jrnl_lb bio_ok_def same_blocks_def\<close>)
next
  fix s i b
  assume "jrnl_ok s" "holds (lb s) i b \<and> b \<in> jrnl_blocks s"
  then show "ldata s i = view (lb s) b"
    by (auto simp: ldata_def jrnl_ok_def log_inv_def bio_ok_def holds_view)
qed

section \<open>Properties\<close>

lemma recovered_blk:
  assumes v: "log_valid st nl N d"
  shows "i < hdr_n (d st) \<Longrightarrow> recovered st d (hdr_blk (d st) i) = d (st + i + 1)"
    and "c \<noteq> st \<Longrightarrow> (\<And>i. i < hdr_n (d st) \<Longrightarrow> hdr_blk (d st) i \<noteq> c) \<Longrightarrow> recovered st d c = d c"
proof -
  let ?W = "map (\<lambda>i. (hdr_blk (d st) i, d (st + i + 1))) [0..<hdr_n (d st)]"
  have r: "recovered st d c = apply_writes ?W d c" if "c \<noteq> st" for c
    unfolding recovered_def recover_writes_def using that by simp
  have dist: "distinct (map fst ?W)" using v by (simp add: log_valid_def comp_def)
  show "recovered st d (hdr_blk (d st) i) = d (st + i + 1)" if i: "i < hdr_n (d st)"
  proof -
    have "hdr_blk (d st) i \<noteq> st" using v i by (auto simp: log_valid_def)
    moreover have "(hdr_blk (d st) i, d (st + i + 1)) \<in> set ?W" using i by force
    ultimately show ?thesis using r apply_writes_in [OF dist] by simp
  qed
  show "recovered st d c = d c" if "c \<noteq> st" "\<And>i. i < hdr_n (d st) \<Longrightarrow> hdr_blk (d st) i \<noteq> c"
    unfolding r [OF that(1)] by (rule apply_writes_notin) (use that(2) in force)
qed

lemma recover_again:
  assumes v: "log_valid st nl N d" and k: "k \<le> length (recover_writes st d)"
  defines "e \<equiv> apply_writes (take k (recover_writes st d)) d"
  shows "log_valid st nl N e" "c < st \<or> st + nl \<le> c \<Longrightarrow> recovered st e c = recovered st d c"
    "c < st \<or> st + nl \<le> c \<Longrightarrow> (\<And>i. i < hdr_n (d st) \<Longrightarrow> hdr_blk (d st) i \<noteq> c) \<Longrightarrow> e c = d c"
proof -
  let ?n = "hdr_n (d st)"
  let ?w = "\<lambda>i. (hdr_blk (d st) i, d (st + i + 1))"
  have V: "\<And>b. length (d b) = BSIZE" "0 < nl" "nl \<le> LOGSIZE" "st + nl \<le> N" "?n < nl"
    and Vb: "\<And>i. i < ?n \<Longrightarrow> hdr_blk (d st) i < N \<and> (hdr_blk (d st) i < st \<or> st + nl \<le> hdr_blk (d st) i)"
    using v by (auto simp: log_valid_def)
  have out: "hdr_blk (d st) i \<noteq> st + j" if "i < ?n" "j < nl" for i j using Vb [OF that(1)] that(2) by auto
  have fits: "0 + 4 \<le> length (d st)" using V(1) by (simp add: BSIZE_def)
  have z: "length (put32 0 0 (d st)) = BSIZE" "hdr_n (put32 0 0 (d st)) = 0"
    using fits get_put_field_same [OF fits, of 0] V(1) by (simp_all add: hdr_n_def int32_def)
  have len: "length (e c) = BSIZE" for c
    unfolding e_def
  proof (rule apply_writes_length)
    show "length x = BSIZE" if "(b, x) \<in> set (take k (recover_writes st d))" for b x
      using in_set_takeD [OF that] V(1) z by (auto simp: recover_writes_def)
  qed (rule V(1))
  have "log_valid st nl N e \<and> (\<forall>c. (c < st \<or> st + nl \<le> c) \<longrightarrow> recovered st e c = recovered st d c \<and>
      ((\<forall>i < ?n. hdr_blk (d st) i \<noteq> c) \<longrightarrow> e c = d c))"
  proof (cases "k \<le> ?n")
    case True
    then have e: "e = apply_writes (map ?w [0..<k]) d" by (simp add: e_def recover_writes_def take_map)
    have same: "e c = d c" if "\<forall>i < ?n. hdr_blk (d st) i \<noteq> c" for c
    proof -
      have "hdr_blk (d st) i \<noteq> c" if "i < k" for i using that True \<open>\<forall>i < ?n. hdr_blk (d st) i \<noteq> c\<close> by simp
      then show ?thesis unfolding e by (intro apply_writes_notin) force
    qed
    have st: "e st = d st" using out [where j = 0] V(2) by (intro same) auto
    have lg: "e (st + i + 1) = d (st + i + 1)" if "i < ?n" for i
      using out [where j = "i + 1"] that V(5) by (intro same) auto
    have v': "log_valid st nl N e" using v len st by (simp add: log_valid_def)
    have "recovered st e c = recovered st d c" if "c < st \<or> st + nl \<le> c" for c
    proof (rule recovered_all [OF v' that])
      show "e (st + i + 1) = recovered st d (hdr_blk (e st) i)" if "i < hdr_n (e st)" for i
        using that lg recovered_blk(1) [OF v] st by simp
      assume "\<And>i. i < hdr_n (e st) \<Longrightarrow> hdr_blk (e st) i \<noteq> c"
      then show "e c = recovered st d c" using same st recovered_blk(2) [OF v, of c] that V(2) by auto
    qed
    then show ?thesis using v' same by blast
  next
    case False
    then have e: "e = recovered st d" using k by (simp add: e_def recovered_def recover_writes_def)
    have "e st = put32 0 0 (d st)" by (simp add: e recovered_def recover_writes_def)
    then have h: "hdr_n (e st) = 0" using z by simp
    then have v': "log_valid st nl N e" using V len by (simp add: log_valid_def)
    show ?thesis using v' recovered_none [OF v' h] recovered_blk(2) [OF v] V(2) e by auto
  qed
  then show "log_valid st nl N e" "c < st \<or> st + nl \<le> c \<Longrightarrow> recovered st e c = recovered st d c"
    "c < st \<or> st + nl \<le> c \<Longrightarrow> (\<And>i. i < hdr_n (d st) \<Longrightarrow> hdr_blk (d st) i \<noteq> c) \<Longrightarrow> e c = d c"
    by blast+
qed

text \<open>
  C2. A commit is atomic with respect to crashes. Starting between two disk writes of a
  commit (or before the first or after the last), a reboot that runs \<open>initlog\<close> returns, and
  every block outside the log area has its contents from before the transaction if the crash
  came before the header write, and its contents from after it otherwise. Without a crash
  \<open>commit\<close> returns and all blocks are on the disk.
\<close>

theorem commit_crash_atomic:
  assumes "log_wf s" "0 < lhn s"
  shows "\<exists>t. commit s = Ret () t \<and> writes (lb t) = writes (lb s) @ commit_writes s \<and>
    (\<forall>b. home s b \<longrightarrow> disk (lb t) b = view (lb s) b) \<and>
    (\<forall>k \<le> length (commit_writes s).
      \<exists>u. initlog 1 (reboot (disksize (lb s)) (apply_writes (take k (commit_writes s)) (disk (lb s)))) = Ret () u \<and>
        (\<forall>b. home s b \<longrightarrow> disk (lb u) b = (if k \<le> nat (lhn s) then disk (lb s) b else view (lb s) b)))"
proof -
  have "\<exists>u. initlog 1 (reboot (disksize (lb s)) (crashed s k)) = Ret () u \<and>
      (\<forall>b. home s b \<longrightarrow> disk (lb u) b = (if k \<le> nat (lhn s) then disk (lb s) b else view (lb s) b))"
    if k: "k \<le> length (commit_writes s)" for k
  proof -
    note C = crash_recovers [OF assms(1) k] and D = log_wfD [OF assms(1)]
    have "sb_logstart (sb_of (crashed s k 1)) = lstart s" "sb_nlog (sb_of (crashed s k 1)) = lsize s" "1 < disksize (lb s)"
      using D(6-8) crashed_superblock [OF assms(1) k] by (simp_all add: home_def)
    from initlog_wp [OF C(1) this] C(2) show ?thesis unfolding wp_iff by auto
  qed
  then show ?thesis
    using commit_log_wf [OF assms] unfolding wp_iff crashed_def [symmetric] by auto
qed

text \<open>
  C6. Recovery can be interrupted and repeated: after any number of recovery's own disk
  writes, recovering again gives every block outside the log area the same contents as one
  uninterrupted recovery.
\<close>

theorem recovery_idempotent:
  assumes "log_valid st nl N d" "sb_logstart (sb_of (d 1)) = st" "sb_nlog (sb_of (d 1)) = nl" "1 < N"
    and "1 < st \<or> st + nl \<le> 1" "\<And>i. i < hdr_n (d st) \<Longrightarrow> hdr_blk (d st) i \<noteq> 1"
    and "k \<le> length (recover_writes st d)"
  shows "\<exists>t u. initlog 1 (reboot N d) = Ret () t \<and> writes (lb t) = recover_writes st d \<and>
    initlog 1 (reboot N (apply_writes (take k (recover_writes st d)) d)) = Ret () u \<and>
    (\<forall>c. c < st \<or> st + nl \<le> c \<longrightarrow> disk (lb u) c = disk (lb t) c)"
proof -
  let ?e = "apply_writes (take k (recover_writes st d)) d"
  note R = recover_again [OF assms(1,7)]
  have "?e 1 = d 1" using R(3) [OF assms(5,6)] .
  then have "wp (initlog 1 (reboot N ?e)) (\<lambda>_ t. disk (lb t) = recovered st ?e)"
    using initlog_wp [OF R(1), unfolded \<open>?e 1 = d 1\<close>, OF assms(2-4)] by (auto elim!: wp_mono)
  moreover have "wp (initlog 1 (reboot N d)) (\<lambda>_ t. disk (lb t) = recovered st d \<and> writes (lb t) = recover_writes st d)"
    using initlog_wp [OF assms(1-4)] by (rule wp_mono) auto
  ultimately show ?thesis using R(2) unfolding wp_iff by auto
qed

text \<open>A small disk for the examples: the superblock says the log is blocks 2 to 31.\<close>

definition disk0 :: "nat \<Rightarrow> bytes" where
  "disk0 b = (if b = 1 then put32 16 2 (put32 12 30 (replicate BSIZE 0)) else replicate BSIZE 0)"

lemma le_get_zeros: "le_get (replicate n 0) = 0"
  by (induction n) auto

lemma disk0_facts:
  "length (disk0 b) = BSIZE" "hdr_n (disk0 2) = 0" "log_valid 2 30 1000 disk0"
  "sb_logstart (sb_of (disk0 1)) = 2" "sb_nlog (sb_of (disk0 1)) = 30"
proof -
  let ?z = "replicate BSIZE (0 :: u8)"
  have f: "16 + 4 \<le> length ?z" "12 + 4 \<le> length ?z" "16 + 4 \<le> length (put32 12 30 ?z)" by (simp_all add: BSIZE_def)
  show len: "length (disk0 b) = BSIZE" for b using f by (simp add: disk0_def BSIZE_def)
  show h: "hdr_n (disk0 2) = 0"
    by (simp add: disk0_def hdr_n_def int32_def get_field_def le_get_zeros)
  show "log_valid 2 30 1000 disk0"
    using len h by (simp add: log_valid_def LOGSIZE_def MAXOPBLOCKS_def)
  show "sb_logstart (sb_of (disk0 1)) = 2" using get_put_field_same [OF f(3), of 2] by (simp add: disk0_def sb_of_def)
  show "sb_nlog (sb_of (disk0 1)) = 30"
    using get_put_field_other [OF f(3), of 12 4 2] get_put_field_same [OF f(2), of 30] f
    by (simp add: disk0_def sb_of_def)
qed

lemma log_example0: "\<exists>s. log_wf s \<and> lhn s = 0 \<and> outstanding s = 0 \<and> \<not> committing s \<and> lstart s = 2 \<and> lsize s = 30 \<and>
  disksize (lb s) = 1000"
proof -
  have r: "recover_writes 2 disk0 = [(2, put32 0 0 (disk0 2))]" using disk0_facts(2) by (simp add: recover_writes_def)
  have rd: "recovered 2 disk0 = disk0(2 := put32 0 0 (disk0 2))" by (simp add: recovered_def r)
  have "0 + 4 \<le> length (disk0 2)" by (simp add: disk0_facts BSIZE_def)
  from get_put_field_same [OF this, of 0] have z: "get32 0 (recovered 2 disk0 2) = 0" by (simp add: rd)
  have "wp (initlog 1 (reboot 1000 disk0)) (\<lambda>_ t. log_wf t \<and> lhn t = 0 \<and> outstanding t = 0 \<and> \<not> committing t \<and>
      lstart t = 2 \<and> lsize t = 30 \<and> disksize (lb t) = 1000)"
    by (rule wp_mono [OF initlog_wp [OF disk0_facts(3,4,5)]])
      (use z disk0_facts rd in \<open>auto simp: log_wf_def log_inv_def home_def logged_def LOGSIZE_def MAXOPBLOCKS_def\<close>)
  then show ?thesis unfolding wp_iff by blast
qed

text \<open>One transaction that has changed block 40.\<close>

lemma log_example_held: "\<exists>s j. log_inv s \<and> holds (lb s) j 40 \<and> home s 40 \<and> lhn s = 0 \<and> outstanding s = 1 \<and>
  \<not> committing s \<and> lsize s = 30 \<and> busy_blocks (lb s) = {40} \<and> dirty_blocks (lb s) = {} \<and> logged s = []"
proof -
  obtain s where s: "log_wf s" "lhn s = 0" "outstanding s = 0" "\<not> committing s" "lstart s = 2" "lsize s = 30"
    "disksize (lb s) = 1000" using log_example0 by blast
  then have i: "log_inv s" "hasl (km (bk (lb s))) []" "busy_blocks (lb s) = {}" "dirty_blocks (lb s) = {}"
    by (auto simp: log_wf_def log_inv_def bio_ok_def logged_def)
  define t where "t = s\<lparr>outstanding := 1\<rparr>"
  have t: "log_inv t" "wf_bio (lb t)" "hasl (km (bk (lb t))) []" "busy_blocks (lb t) = {}" "dirty_blocks (lb t) = {}" "disksize (lb t) = 1000"
    using i s by (simp_all add: t_def) (simp add: log_inv_def bio_ok_def)
  from bread_wp [OF t(2,3), of 40] t have "wp (bread 1 40 (lb t)) (\<lambda>j b. bio_ok [] b \<and> same_blocks (lb t) b \<and> busy_blocks b = {40} \<and> holds b j 40)"
    by (auto simp: NBUF_def bio_ok_def elim!: wp_mono)
  then obtain j b where b: "bio_ok [] b" "same_blocks (lb t) b" "busy_blocks b = {40}" "holds b j 40" unfolding wp_iff by blast
  have "log_inv (t\<lparr>lb := b\<rparr>)" using log_inv_lb [OF t(1) b(1)] b(2) by (simp add: same_blocks_def)
  then have "log_inv (t\<lparr>lb := b\<rparr>) \<and> holds (lb (t\<lparr>lb := b\<rparr>)) j 40 \<and> home (t\<lparr>lb := b\<rparr>) 40 \<and> lhn (t\<lparr>lb := b\<rparr>) = 0 \<and>
      outstanding (t\<lparr>lb := b\<rparr>) = 1 \<and> \<not> committing (t\<lparr>lb := b\<rparr>) \<and> lsize (t\<lparr>lb := b\<rparr>) = 30 \<and>
      busy_blocks (lb (t\<lparr>lb := b\<rparr>)) = {40} \<and> dirty_blocks (lb (t\<lparr>lb := b\<rparr>)) = {} \<and> logged (t\<lparr>lb := b\<rparr>) = []"
    using b s t by (simp add: t_def home_def same_blocks_def logged_def)
  then show ?thesis by blast
qed

lemma log_example: "\<exists>s. log_wf s \<and> lhn s = 1 \<and> outstanding s = 1 \<and> \<not> committing s \<and> logged s = [40]"
proof -
  obtain s j where s: "log_inv s" "holds (lb s) j 40" "home s 40" "lhn s = 0" "outstanding s = 1" "\<not> committing s"
    "lsize s = 30" "busy_blocks (lb s) = {40}" "logged s = []" using log_example_held by blast
  from log_write_wp [OF s(1-3)] s obtain t where t: "log_inv t" "busy_blocks (lb t) = {40}" "logged t = [40]"
    "outstanding t = 1" "\<not> committing t" "holds (lb t) j 40" unfolding wp_iff by (auto simp: log_add_def)
  have T: "wf_bio (lb t)" "hasl (km (bk (lb t))) []" "dirty_blocks (lb t) = {40}" "length (lhblock t) = LOGSIZE"
    "0 \<le> lhn t" "lhn t \<le> int LOGSIZE"
    using t(1,3) by (auto simp: log_inv_def bio_ok_def)
  then have n: "lhn t = 1" using t(3) by (auto simp: logged_def dest: arg_cong [of _ _ length])
  from brelse_wp [OF T(1) t(6) T(2)] T(3) obtain b where b: "wf_bio b" "hasl (km (bk b)) []" "same_blocks (lb t) b"
    "busy_blocks b = {}" unfolding wp_iff by (auto simp: t(2))
  then have "log_inv (t\<lparr>lb := b\<rparr>)" using log_inv_lb [OF t(1), of b] by (simp add: bio_ok_def same_blocks_def)
  then have "log_wf (t\<lparr>lb := b\<rparr>) \<and> lhn (t\<lparr>lb := b\<rparr>) = 1 \<and> outstanding (t\<lparr>lb := b\<rparr>) = 1 \<and> \<not> committing (t\<lparr>lb := b\<rparr>) \<and>
      logged (t\<lparr>lb := b\<rparr>) = [40]" using b t n by (simp add: log_wf_def logged_def)
  then show ?thesis by blast
qed

theorem commit_crash_atomic_witness:
  "\<exists>s t. log_wf s \<and> lhn s = 1 \<and> commit s = Ret () t \<and> writes (lb t) = writes (lb s) @ commit_writes s"
proof -
  obtain s where s: "log_wf s" "lhn s = 1" using log_example by blast
  then show ?thesis using commit_crash_atomic [of s] by auto
qed

theorem recovery_idempotent_witness:
  "\<exists>t u. initlog 1 (reboot 1000 disk0) = Ret () t \<and>
    initlog 1 (reboot 1000 (apply_writes (take 0 (recover_writes 2 disk0)) disk0)) = Ret () u \<and>
    (\<forall>c. c < 2 \<or> 32 \<le> c \<longrightarrow> disk (lb u) c = disk (lb t) c)"
  using recovery_idempotent [OF disk0_facts(3,4,5), of 0] by (auto simp: disk0_facts)

text \<open>
  C17. \<open>log_write\<close> returns, and the header lists each block of the transaction once: a block
  written again is absorbed, a new one is added at the end. The block stays in the cache
  (its dirty flag is set) and neither the disk nor any contents change; the invariant of the
  log is kept.
\<close>

theorem log_write_absorbs:
  assumes "log_inv s" "holds (lb s) j b" "home s b" "b \<noteq> 1" "lhn s < int (lsize s) - 1" "1 \<le> outstanding s"
  shows "\<exists>t. log_write j s = Ret () t \<and> log_inv t \<and>
    logged t = (if b \<in> set (logged s) then logged s else logged s @ [b]) \<and>
    dirty_blocks (lb t) = insert b (dirty_blocks (lb s)) \<and> view (lb t) = view (lb s) \<and> disk (lb t) = disk (lb s)"
proof -
  from log_write_wp [OF assms] obtain t where t: "log_write j s = Ret () t" "log_inv t" "logged t = log_add b (logged s)"
    "view (lb t) = view (lb s)" "disk (lb t) = disk (lb s)" unfolding wp_iff by auto
  have "dirty_blocks (lb t) = set (logged t)" "dirty_blocks (lb s) = set (logged s)"
    using t(2) assms(1) by (simp_all add: log_inv_def)
  then show ?thesis using t by (auto simp: log_add_def)
qed

theorem log_write_absorbs_witness:
  "\<exists>s j t. log_inv s \<and> log_write j s = Ret () t \<and> logged s = [] \<and> logged t = [40]"
proof -
  obtain s j where "log_inv s" "holds (lb s) j 40" "home s 40" "lhn s = 0" "outstanding s = 1" "lsize s = 30" "logged s = []"
    using log_example_held by blast
  then show ?thesis using log_write_absorbs [of s j 40] by fastforce
qed

text \<open>
  C16. When the last operation of a transaction ends, \<open>end_op\<close> commits and returns: the log
  is empty again, and every block outside the log area is on the disk with the contents the
  operations gave it.
\<close>

theorem end_op_durable:
  assumes "log_wf s" "outstanding s = 1" "\<not> committing s"
  shows "\<exists>t. end_op s = Ret () t \<and> log_wf t \<and> lhn t = 0 \<and> outstanding t = 0 \<and> \<not> committing t \<and>
    (\<forall>b. home s b \<longrightarrow> disk (lb t) b = view (lb s) b \<and> view (lb t) b = view (lb s) b)"
  using end_op_wp [OF assms] unfolding wp_iff by auto

theorem end_op_durable_witness:
  "\<exists>s t. logged s = [40] \<and> end_op s = Ret () t \<and> lhn t = 0 \<and> outstanding t = 0"
proof -
  obtain s where "log_wf s" "outstanding s = 1" "\<not> committing s" "logged s = [40]" using log_example by blast
  then show ?thesis using end_op_durable [of s] by blast
qed


definition log_waiting :: log where
  "log_waiting = (reboot 1000 disk0)\<lparr>lb := (lb (reboot 1000 disk0))\<lparr>bk := set_curproc (Some 0) kern0\<rparr>, committing := True\<rparr>"


text \<open>
  C19. The log is one block smaller than what \<open>begin_op\<close> hands out. It admits a third
  operation into an empty log, promising \<open>MAXOPBLOCKS\<close> blocks to each of three; with a log
  of \<open>LOGSIZE\<close> blocks, which includes the header, the thirtieth block stops the kernel.
\<close>

theorem log_reservation_overflow:
  assumes "hasl (km (bk (lb s))) []" "\<not> committing s" "lhn s = 0" "outstanding s = 2" "lsize s = LOGSIZE"
  shows "\<exists>t. begin_op s = Ret () t \<and> outstanding t = 3 \<and> lsize t = LOGSIZE \<and>
    log_write j (t\<lparr>lhn := 3 * int MAXOPBLOCKS - 1\<rparr>) = Panic ''too big a transaction''"
  using begin_op_wp [OF assms(1,2)] assms(3-5) unfolding wp_iff
  by (auto simp: log_write_def LOGSIZE_def MAXOPBLOCKS_def)

theorem log_reservation_overflow_witness:
  "\<exists>s t. begin_op s = Ret () t \<and> log_write 0 (t\<lparr>lhn := 29\<rparr>) = Panic ''too big a transaction''"
proof -
  let ?s = "(reboot 1000 disk0)\<lparr>outstanding := 2, lsize := LOGSIZE\<rparr>"
  have "hasl (km (bk (lb ?s))) []" using reboot_bio(1) [OF disk0_facts(1)] by (simp add: bio_ok_def)
  moreover have "\<not> committing ?s" "lhn ?s = 0" by (simp_all add: reboot_def)
  ultimately show ?thesis using log_reservation_overflow [of ?s 0] by (auto simp: MAXOPBLOCKS_def)
qed

end
