(* ===== verification/Ring.thy ===== *)
theory Ring
  imports Prelude
begin

text \<open>
  Ring buffers with free-running 32-bit counters, as pipes and the console input use them: a
  slot is the counter modulo the size of the buffer, the contents are what lies between the
  read and the write counter. The size divides \<open>2 ^ 32\<close>, so that the slots stay in step when
  a counter wraps around.
\<close>

definition slot :: "'a list \<Rightarrow> u32 \<Rightarrow> nat" where
  "slot xs c = unat c mod length xs"

definition rbuf :: "'a list \<Rightarrow> u32 \<Rightarrow> u32 \<Rightarrow> 'a list" where
  "rbuf xs r w = map (\<lambda>i. xs ! slot xs (r + word_of_nat i)) [0..<unat (w - r)]"

definition rbuf_size :: "'a list \<Rightarrow> bool" where
  "rbuf_size xs \<longleftrightarrow> 0 < length xs \<and> length xs dvd 2 ^ 32 \<and> length xs < 2 ^ 32"

lemma length_rbuf [simp]: "length (rbuf xs r w) = unat (w - r)"
  by (simp add: rbuf_def)

lemma rbuf_empty [simp]: "rbuf xs r r = []"
  by (simp add: rbuf_def)

lemma unat_suc:
  fixes c :: u32
  assumes "unat c < 2 ^ 32 - 1"
  shows "unat (c + 1) = Suc (unat c)"
proof -
  have "c + 1 \<noteq> 0"
  proof
    assume "c + 1 = 0"
    then have "c = - 1" by (simp add: eq_neg_iff_add_eq_0)
    then show False using assms by (simp add: unsigned_minus_1_eq_mask mask_eq_exp_minus_1)
  qed
  then show ?thesis by (simp add: unatSuc add.commute)
qed

lemma slot_add:
  assumes "rbuf_size xs"
  shows "slot xs (r + word_of_nat i) = (unat r + i) mod length xs"
proof -
  have d: "length xs dvd 2 ^ 32" using assms by (simp add: rbuf_size_def)
  have "unat (r + word_of_nat i) = (unat r + unat (word_of_nat i :: u32)) mod 2 ^ 32"
    using unat_word_ariths(1) [of r "word_of_nat i"] by simp
  also have "\<dots> = (unat r + i) mod 2 ^ 32"
    by (simp add: unat_of_nat mod_add_right_eq)
  finally show ?thesis
    unfolding slot_def using mod_mod_cancel [OF d] by simp
qed

lemma slot_inj:
  assumes "rbuf_size xs" "i < j" "j < length xs"
  shows "slot xs (r + word_of_nat i) \<noteq> slot xs (r + word_of_nat j)"
proof
  let ?n = "length xs"
  assume "slot xs (r + word_of_nat i) = slot xs (r + word_of_nat j)"
  then have "(unat r + j) mod ?n = (unat r + i) mod ?n" by (simp add: slot_add assms(1))
  then have "?n dvd (unat r + j) - (unat r + i)"
    using assms(2) by (subst (asm) mod_eq_dvd_iff_nat) auto
  then show False using assms(2,3) nat_dvd_not_less [of "j - i" ?n] by simp
qed

lemma rbuf_push:
  assumes "rbuf_size xs" "unat (w - r) < length xs"
  shows "rbuf (xs[slot xs w := c]) r (w + 1) = rbuf xs r w @ [c]"
proof -
  let ?n = "unat (w - r)"
  have len: "length xs < 2 ^ 32" using assms(1) by (simp add: rbuf_size_def)
  have w: "w = r + word_of_nat ?n" by simp
  have "unat (w + 1 - r) = unat (w - r + 1)" by (simp add: algebra_simps)
  also have "\<dots> = Suc ?n" using assms(2) len by (intro unat_suc) linarith
  finally have n: "unat (w + 1 - r) = Suc ?n" .
  have old: "xs[slot xs w := c] ! slot xs (r + word_of_nat i) = xs ! slot xs (r + word_of_nat i)" if "i < ?n" for i
  proof -
    have "slot xs (r + word_of_nat i) \<noteq> slot xs (r + word_of_nat ?n)"
      using that assms by (intro slot_inj) auto
    then show ?thesis using w by (metis nth_list_update_neq)
  qed
  have new: "xs[slot xs w := c] ! slot xs w = c"
    using assms by (simp add: slot_def rbuf_size_def)
  have "slot (xs[slot xs w := c]) = slot xs" by (simp add: slot_def fun_eq_iff)
  then show ?thesis
    unfolding rbuf_def n using old new w by simp
qed

lemma rbuf_pop:
  assumes "w \<noteq> r"
  shows "rbuf xs r w = xs ! slot xs r # rbuf xs (r + 1) w"
proof -
  have "w - r \<noteq> 0" using assms by simp
  then have "unat (w - r - 1) = unat (w - r) - 1" "unat (w - r) \<noteq> 0"
    by (simp_all add: unat_minus_one unat_eq_0)
  then have "unat (w - r) = Suc (unat (w - (r + 1)))" by (simp add: algebra_simps)
  then show ?thesis
    unfolding rbuf_def by (simp add: map_upt_Suc algebra_simps del: upt_Suc)
qed

lemma rbuf_snoc:
  assumes "w \<noteq> r"
  shows "rbuf xs r w = rbuf xs r (w - 1) @ [xs ! slot xs (w - 1)]"
proof -
  have "w - r \<noteq> 0" using assms by simp
  then have "unat (w - r - 1) = unat (w - r) - 1" "unat (w - r) \<noteq> 0"
    by (simp_all add: unat_minus_one unat_eq_0)
  then have n: "unat (w - r) = Suc (unat (w - 1 - r))" by (simp add: algebra_simps)
  have "r + word_of_nat (unat (w - 1 - r)) = w - 1" by simp
  then show ?thesis unfolding rbuf_def n by simp
qed

lemma rbuf_append:
  assumes "unat (m - r) \<le> unat (w - r)"
  shows "rbuf xs r w = rbuf xs r m @ rbuf xs m w"
proof -
  have n: "unat (w - r) = unat (m - r) + unat (w - m)"
  proof -
    have "w - m = (w - r) - (m - r)" by simp
    then have "unat (w - m) = unat (w - r) - unat (m - r)"
      using assms by (simp only: unat_sub word_le_nat_alt)
    then show ?thesis using assms by simp
  qed
  have shift: "r + word_of_nat (unat (m - r) + i) = m + word_of_nat i" for i
    by (simp add: of_nat_add algebra_simps)
  have "map (\<lambda>i. xs ! slot xs (r + word_of_nat i)) [unat (m - r)..<unat (m - r) + unat (w - m)] =
      map (\<lambda>i. xs ! slot xs (r + word_of_nat (unat (m - r) + i))) [0..<unat (w - m)]"
    using map_add_upt [of "unat (m - r)" "unat (w - m)", symmetric]
    by (simp only: map_map comp_def add.commute)
  then show ?thesis
    unfolding rbuf_def n shift upt_add_eq_append [OF le0] map_append by simp
qed

text \<open>Three counters in order: what is ready from \<open>r\<close> to \<open>w\<close>, what is being added from \<open>w\<close> to \<open>e\<close>.\<close>

lemma rbuf_counts:
  fixes r w e :: u32
  assumes "unat (w - r) + unat (e - w) < 2 ^ 32"
  shows "unat (e - r) = unat (w - r) + unat (e - w)"
proof -
  have "e - r = (w - r) + (e - w)" by simp
  then have "unat (e - r) = (unat (w - r) + unat (e - w)) mod 2 ^ 32"
    using unat_word_ariths(1) [of "w - r" "e - w"] by simp
  then show ?thesis using assms by simp
qed

lemma rbuf_extend:
  fixes xs :: "'a list" and c :: 'a and r w e :: u32
  assumes "rbuf_size xs" "unat (w - r) + unat (e - w) < length xs"
  defines "ys \<equiv> xs[slot xs e := c]"
  shows "rbuf ys r w = rbuf xs r w" "rbuf ys w (e + 1) = rbuf xs w e @ [c]"
proof -
  have len: "length xs < 2 ^ 32" using assms(1) by (simp add: rbuf_size_def)
  have n: "unat (e - r) = unat (w - r) + unat (e - w)" using assms(2) len by (intro rbuf_counts) simp
  show new: "rbuf ys w (e + 1) = rbuf xs w e @ [c]"
    unfolding ys_def using assms by (intro rbuf_push) auto
  have all: "rbuf ys r (e + 1) = rbuf xs r e @ [c]"
    unfolding ys_def using assms n by (intro rbuf_push) auto
  have "unat (e + 1 - w) = Suc (unat (e - w))" using arg_cong [OF new, of length] by simp
  moreover have "unat (e + 1 - r) = Suc (unat (e - r))" using arg_cong [OF all, of length] by simp
  ultimately have "rbuf ys r (e + 1) = rbuf ys r w @ rbuf ys w (e + 1)" "rbuf xs r e = rbuf xs r w @ rbuf xs w e"
    using n by (intro rbuf_append; simp)+
  then show "rbuf ys r w = rbuf xs r w" using all new by simp
qed

end
