(* ===== verification/Console.thy ===== *)
theory Console
  imports Sched Ring
begin

text \<open>
  The console over the kernel state (\<open>src/console.c\<close>): \<open>cprintf\<close> with its lock, the process
  listing \<open>procdump\<close> of \<open>src/proc.c\<close> with \<open>getcallerpcs\<close> of \<open>src/spinlock.c\<close>, and the
  interrupt side of console input, \<open>consoleintr\<close>. A device's \<open>getc\<close> is given by the
  characters it returns before its first negative value. The line discipline that
  \<open>consoleintr\<close> implements on its ring buffer is stated on plain lists (\<open>tty_step\<close>) and the
  code is shown to refine it.
\<close>

section \<open>Printing\<close>

definition on_con :: "(console \<Rightarrow> ('a, console) outcome) \<Rightarrow> kern \<Rightarrow> ('a, kern) outcome" where
  "on_con = zoom con (\<lambda>c k. k\<lparr>con := c\<rparr>)"

definition cprintf :: "string \<Rightarrow> carg list \<Rightarrow> kern \<Rightarrow> (unit, kern) outcome" where
  "cprintf fmt args k =
     (let lck = locking (con k)
      in bindR (if lck then kacquire CONSLK k else Ret () k) (\<lambda>_ k.
         bindR (on_con (cprintf_loop (str fmt) args) k) (\<lambda>_ k.
         if lck then krelease CONSLK k else Ret () k)))"

text \<open>A word of kernel memory: the kernel sees physical memory at \<open>KERNBASE\<close>.\<close>

definition kload32 :: "u32 \<Rightarrow> kern \<Rightarrow> u32" where
  "kload32 a k = load32 (v2p a) (ram k)"

definition kstore32 :: "u32 \<Rightarrow> u32 \<Rightarrow> kern \<Rightarrow> kern" where
  "kstore32 a v k = k\<lparr>ram := store32 (v2p a) v (ram k)\<rparr>"

fun getcallerpcs_loop :: "nat \<Rightarrow> u32 \<Rightarrow> kern \<Rightarrow> u32 list" where
  "getcallerpcs_loop 0 ebp k = []"
| "getcallerpcs_loop (Suc n) ebp k =
     (if ebp = 0 \<or> ebp < KERNBASE \<or> ebp = 0xFFFFFFFF then replicate (Suc n) 0
      else kload32 (ebp + 4) k # getcallerpcs_loop n (kload32 ebp k) k)"

definition getcallerpcs :: "u32 \<Rightarrow> kern \<Rightarrow> u32 list" where
  "getcallerpcs v k = getcallerpcs_loop 10 (v - 8) k"

fun state_name :: "procstate \<Rightarrow> string" where
  "state_name UNUSED = ''unused''"
| "state_name EMBRYO = ''embryo''"
| "state_name SLEEPING = ''sleep ''"
| "state_name RUNNABLE = ''runble''"
| "state_name RUNNING = ''run   ''"
| "state_name ZOMBIE = ''zombie''"

definition cname :: "proc \<Rightarrow> bytes" where
  "cname p = takeWhile (\<lambda>c. c \<noteq> 0) (pname p)"

definition procdump_entry :: "nat \<Rightarrow> kern \<Rightarrow> (unit, kern) outcome" where
  "procdump_entry i k =
     (let p = ptable k ! i
      in if pstate p = UNUSED then Ret () k
         else bindR (cprintf ''%d %s %s'' [CWord (word_of_int (pid p)), CStr (Some (str (state_name (pstate p)))),
                                           CStr (Some (cname p))] k) (\<lambda>_ k.
              bindR (if pstate p = SLEEPING
                     then let pc = getcallerpcs (cx_ebp (ctx p) + 8) k
                          in foreach (\<lambda>a. cprintf '' %p'' [CWord a]) (takeWhile (\<lambda>a. a \<noteq> 0) pc) k
                     else Ret () k) (\<lambda>_ k.
              cprintf [CHR 0x0A] [] k)))"

definition procdump :: "kern \<Rightarrow> (unit, kern) outcome" where
  "procdump = foreach procdump_entry [0..<NPROC]"

section \<open>consoleintr\<close>

abbreviation INPUT_BUF :: nat where "INPUT_BUF \<equiv> 128"

text \<open>
  The loop that erases the line: it takes one step for each character between \<open>input.w\<close> and
  \<open>input.e\<close> at most, so \<open>unat (in_e s - in_w s)\<close> steps are enough.
\<close>

fun kill_line :: "nat \<Rightarrow> console \<Rightarrow> (unit, console) outcome" where
  "kill_line 0 s = Ret () s"
| "kill_line (Suc n) s =
     (if in_e s \<noteq> in_w s \<and> in_buf s ! slot (in_buf s) (in_e s - 1) \<noteq> 10
      then bindR (consputc BACKSPACE (s\<lparr>in_e := in_e s - 1\<rparr>)) (\<lambda>_. kill_line n)
      else Ret () s)"

definition input_char :: "int \<Rightarrow> kern \<Rightarrow> (unit, kern) outcome" where
  "input_char c k =
     (if c \<noteq> 0 \<and> in_e (con k) - in_r (con k) < 128
      then let c = (if c = 13 then 10 else c);
               k = k\<lparr>con := (con k)\<lparr>in_buf := (in_buf (con k))[slot (in_buf (con k)) (in_e (con k)) := word_of_int c],
                                    in_e := in_e (con k) + 1\<rparr>\<rparr>
           in bindR (on_con (consputc c) k) (\<lambda>_ k.
              if c = 10 \<or> c = 4 \<or> in_e (con k) = in_r (con k) + 128
              then wakeup ChInput (k\<lparr>con := (con k)\<lparr>in_w := in_e (con k)\<rparr>\<rparr>)
              else Ret () k)
      else Ret () k)"

fun consoleintr_loop :: "int list \<Rightarrow> bool \<Rightarrow> kern \<Rightarrow> (bool, kern) outcome" where
  "consoleintr_loop [] dump k = Ret dump k"
| "consoleintr_loop (c # cs) dump k =
     (if c = 16 then consoleintr_loop cs True k
      else if c = 21
      then bindR (on_con (kill_line (unat (in_e (con k) - in_w (con k)))) k) (\<lambda>_. consoleintr_loop cs dump)
      else if c = 8 \<or> c = 127
      then bindR (if in_e (con k) \<noteq> in_w (con k)
                  then on_con (consputc BACKSPACE) (k\<lparr>con := (con k)\<lparr>in_e := in_e (con k) - 1\<rparr>\<rparr>)
                  else Ret () k) (\<lambda>_. consoleintr_loop cs dump)
      else bindR (input_char c k) (\<lambda>_. consoleintr_loop cs dump))"

definition consoleintr :: "int list \<Rightarrow> kern \<Rightarrow> (unit, kern) outcome" where
  "consoleintr cs k =
     bindR (kacquire CONSLK k) (\<lambda>_ k.
     bindR (consoleintr_loop cs False k) (\<lambda>dump k.
     bindR (krelease CONSLK k) (\<lambda>_ k.
     if dump then procdump k else Ret () k)))"

section \<open>The line discipline\<close>

text \<open>
  The characters readers may take, and the line being edited: \<open>^U\<close> erases the line,
  backspace its last character; a newline, \<open>^D\<close> or a full buffer hands the line over.
\<close>

definition tty_step :: "int \<Rightarrow> bytes \<times> bytes \<Rightarrow> bytes \<times> bytes" where
  "tty_step c = (\<lambda>(ready, line).
     if c = 16 then (ready, line)
     else if c = 21 then (ready, [])
     else if c = 8 \<or> c = 127 then (ready, butlast line)
     else if c \<noteq> 0 \<and> length ready + length line < INPUT_BUF
     then let c = (if c = 13 then 10 else c); line = line @ [word_of_int c]
          in if c = 10 \<or> c = 4 \<or> length ready + length line = INPUT_BUF then (ready @ line, [])
             else (ready, line)
     else (ready, line))"

definition tty :: "console \<Rightarrow> bytes \<times> bytes" where
  "tty s = (rbuf (in_buf s) (in_r s) (in_w s), rbuf (in_buf s) (in_w s) (in_e s))"

definition input_ok :: "console \<Rightarrow> bool" where
  "input_ok s \<longleftrightarrow> length (in_buf s) = INPUT_BUF \<and> unat (in_w s - in_r s) + unat (in_e s - in_w s) \<le> INPUT_BUF \<and>
     10 \<notin> set (rbuf (in_buf s) (in_w s) (in_e s))"

section \<open>The code refines the line discipline\<close>

lemma input_ok_ring: "input_ok s \<Longrightarrow> rbuf_size (in_buf s)"
  by (simp add: input_ok_def rbuf_size_def)

lemma con_frame_tty:
  assumes "con_frame s t"
  shows "tty t = tty s" "input_ok t = input_ok s"
  using con_frame_sel [OF assms] by (simp_all add: tty_def input_ok_def)

text \<open>Dropping the last character of the line.\<close>

lemma tty_backspace:
  assumes "input_ok s" "in_e s \<noteq> in_w s"
  defines "t \<equiv> s\<lparr>in_e := in_e s - 1\<rparr>"
  shows "tty t = (fst (tty s), butlast (snd (tty s)))" "input_ok t"
    "unat (in_e s - in_w s) = Suc (unat (in_e t - in_w t))"
proof -
  have r: "rbuf (in_buf s) (in_w s) (in_e s) = rbuf (in_buf s) (in_w s) (in_e s - 1) @ [in_buf s ! slot (in_buf s) (in_e s - 1)]"
    using assms(2) by (rule rbuf_snoc)
  show "tty t = (fst (tty s), butlast (snd (tty s)))" by (simp add: t_def tty_def r)
  have "length (rbuf (in_buf s) (in_w s) (in_e s)) = Suc (length (rbuf (in_buf s) (in_w s) (in_e s - 1)))"
    unfolding r by simp
  then show n: "unat (in_e s - in_w s) = Suc (unat (in_e t - in_w t))" by (simp add: t_def)
  show "input_ok t"
    using assms(1) n by (simp add: input_ok_def t_def r)
qed

lemma kill_line_wp:
  assumes "con_ok s" "input_ok s" "n = unat (in_e s - in_w s)"
  shows "wp (kill_line n s) (\<lambda>_ t. con_ok t \<and> input_ok t \<and> tty t = (fst (tty s), []) \<and> locking t = locking s)"
  using assms
proof (induction n arbitrary: s)
  case 0
  then have "unat (in_e s - in_w s) = 0" by simp
  then show ?case using 0 by (simp add: tty_def rbuf_def)
next
  case (Suc n)
  then have ne: "in_e s \<noteq> in_w s" by auto
  let ?t = "s\<lparr>in_e := in_e s - 1\<rparr>"
  note t = tty_backspace [OF Suc.prems(2) ne]
  have nl: "in_buf s ! slot (in_buf s) (in_e s - 1) \<noteq> 10"
    using Suc.prems(2) rbuf_snoc [OF ne, of "in_buf s"] by (auto simp: input_ok_def)
  have "con_ok ?t" using Suc.prems(1) by (simp add: con_ok_def)
  from consputc_wp [OF this, of BACKSPACE]
  have "wp (consputc BACKSPACE ?t) (\<lambda>_ u. con_ok u \<and> con_frame ?t u)" by (rule wp_mono) simp
  then have "wp (consputc BACKSPACE ?t) (\<lambda>_ u. wp (kill_line n u)
      (\<lambda>_ t. con_ok t \<and> input_ok t \<and> tty t = (fst (tty s), []) \<and> locking t = locking s))"
  proof (rule wp_mono, elim conjE)
    fix u
    assume u: "con_ok u" "con_frame ?t u"
    have "n = unat (in_e u - in_w u)" using t(3) Suc.prems(3) con_frame_sel [OF u(2)] by simp
    from Suc.IH [OF u(1) _ this] show "wp (kill_line n u)
      (\<lambda>_ t. con_ok t \<and> input_ok t \<and> tty t = (fst (tty s), []) \<and> locking t = locking s)"
      using con_frame_tty [OF u(2)] con_frame_sel(2) [OF u(2)] t(1,2) by simp
  qed
  then show ?case using ne nl by simp
qed

text \<open>Appending a character to the line, and handing the line over.\<close>

lemma tty_room:
  assumes "input_ok s"
  shows "in_e s - in_r s < 128 \<longleftrightarrow> length (fst (tty s)) + length (snd (tty s)) < INPUT_BUF"
proof -
  have "unat (in_e s - in_r s) = unat (in_w s - in_r s) + unat (in_e s - in_w s)"
    using assms by (intro rbuf_counts) (simp add: input_ok_def)
  then show ?thesis by (simp add: tty_def word_less_nat_alt)
qed

lemma tty_append:
  fixes s :: console and c :: u8
  assumes "input_ok s" "in_e s - in_r s < 128"
  defines "t \<equiv> s\<lparr>in_buf := (in_buf s)[slot (in_buf s) (in_e s) := c], in_e := in_e s + 1\<rparr>"
  shows "tty t = (fst (tty s), snd (tty s) @ [c])" "c \<noteq> 10 \<Longrightarrow> input_ok t" "input_ok (t\<lparr>in_w := in_e t\<rparr>)"
    "tty (t\<lparr>in_w := in_e t\<rparr>) = (fst (tty s) @ snd (tty s) @ [c], [])"
    "in_e t = in_r t + 128 \<longleftrightarrow> length (fst (tty s)) + length (snd (tty s)) + 1 = INPUT_BUF"
proof -
  have len: "length (in_buf s) = 128" using assms(1) by (simp add: input_ok_def)
  have n: "unat (in_e s - in_r s) = unat (in_w s - in_r s) + unat (in_e s - in_w s)"
    using assms(1) by (intro rbuf_counts) (simp add: input_ok_def)
  have "unat (in_e s - in_r s) < 128" using assms(2) by (simp add: word_less_nat_alt)
  then have fits: "unat (in_w s - in_r s) + unat (in_e s - in_w s) < length (in_buf s)" using n len by simp
  note ext = rbuf_extend [OF input_ok_ring [OF assms(1)] fits, of c]
  show tty: "tty t = (fst (tty s), snd (tty s) @ [c])" using ext by (simp add: t_def tty_def)
  have n': "unat (in_e t - in_w t) = Suc (unat (in_e s - in_w s))"
    using arg_cong [OF ext(2), of length] by (simp add: t_def)
  then show "c \<noteq> 10 \<Longrightarrow> input_ok t"
    using assms(1) fits ext(2) by (auto simp: input_ok_def t_def)
  have sum: "unat (in_e t - in_r t) = unat (in_w s - in_r s) + Suc (unat (in_e s - in_w s))"
    using n' fits len rbuf_counts [of "in_w t" "in_r t" "in_e t"] by (simp add: t_def)
  then show "input_ok (t\<lparr>in_w := in_e t\<rparr>)"
    using fits len by (simp add: input_ok_def t_def)
  have "rbuf (in_buf t) (in_r t) (in_e t) = rbuf (in_buf t) (in_r t) (in_w t) @ rbuf (in_buf t) (in_w t) (in_e t)"
    using sum n' by (intro rbuf_append) (simp add: t_def)
  then show "tty (t\<lparr>in_w := in_e t\<rparr>) = (fst (tty s) @ snd (tty s) @ [c], [])"
    using tty by (simp add: tty_def)
  have "in_e t = in_r t + 128 \<longleftrightarrow> in_e t - in_r t = 128" by (auto simp: algebra_simps)
  also have "\<dots> \<longleftrightarrow> unat (in_e t - in_r t) = 128" by (simp add: word_unat_eq_iff)
  finally show "in_e t = in_r t + 128 \<longleftrightarrow> length (fst (tty s)) + length (snd (tty s)) + 1 = INPUT_BUF"
    using sum by (simp add: tty_def)
qed

text \<open>What printing leaves alone in the kernel state.\<close>

definition cframe :: "kern \<Rightarrow> kern \<Rightarrow> bool" where
  "cframe k k' \<longleftrightarrow> kframe (k\<lparr>con := con k'\<rparr>) k' \<and> con_frame (con k) (con k')"

lemma cframe_refl [simp]: "cframe k k"
  by (simp add: cframe_def)

lemma cframe_trans:
  assumes "cframe a b" "cframe b c"
  shows "cframe a c"
proof -
  have "kframe (a\<lparr>con := con c\<rparr>) (b\<lparr>con := con c\<rparr>)"
    using assms(1) by (simp add: cframe_def kframe_def kern.truncate_def)
  then show ?thesis
    using assms by (auto simp: cframe_def intro: kframe_trans con_frame_trans)
qed

lemma kframe_cframe: "kframe k k' \<Longrightarrow> cframe k k'"
  using kframe_sel(12) [of k k'] by (simp add: cframe_def)

lemma on_con_wp:
  assumes "hasl (km k) ls" "con_ok (con k)" "in_order (f (con k)) (con k)"
  shows "wp (on_con f k) (\<lambda>_ k'. hasl (km k') ls \<and> cframe k k' \<and> con_ok (con k'))"
  using assms by (auto simp: on_con_def in_order_def cframe_def elim!: wp_mono)

lemma cprintf_wp:
  assumes "hasl (km k) ls" "CONSLK \<notin> set ls" "con_ok (con k)"
  shows "wp (cprintf fmt args k) (\<lambda>_ k'. hasl (km k') ls \<and> cframe k k' \<and> con_ok (con k'))"
proof (cases "locking (con k)")
  case False
  then show ?thesis
    using on_con_wp [of k ls "cprintf_loop (str fmt) args", OF assms(1,3) cprintf_loop_in_order [OF assms(3)]]
    by (simp add: cprintf_def)
next
  case True
  have out: "wp (on_con (cprintf_loop (str fmt) args) k1) (\<lambda>_ k2.
      wp (krelease CONSLK k2) (\<lambda>_ k'. hasl (km k') ls \<and> cframe k k' \<and> con_ok (con k')))"
    if k1: "hasl (km k1) (CONSLK # ls)" "kframe k k1" for k1
  proof -
    have c: "con_ok (con k1)" using assms(3) kframe_sel(12) [OF k1(2)] by simp
    from on_con_wp [of k1 "CONSLK # ls" "cprintf_loop (str fmt) args", OF k1(1) c cprintf_loop_in_order [OF c]]
    show ?thesis
    proof (rule wp_mono, elim conjE)
      fix k2
      assume k2: "hasl (km k2) (CONSLK # ls)" "cframe k1 k2" "con_ok (con k2)"
      have "wp (krelease CONSLK k2) (\<lambda>_ k'. hasl (km k') (remove1 CONSLK (CONSLK # ls)) \<and> kframe k2 k')"
        using k2(1) by (intro krelease_wp) simp_all
      then show "wp (krelease CONSLK k2) (\<lambda>_ k'. hasl (km k') ls \<and> cframe k k' \<and> con_ok (con k'))"
      proof (rule wp_mono, elim conjE)
        fix k'
        assume k': "hasl (km k') (remove1 CONSLK (CONSLK # ls))" "kframe k2 k'"
        have "cframe k k'"
          by (rule cframe_trans [OF kframe_cframe [OF k1(2)] cframe_trans [OF k2(2) kframe_cframe [OF k'(2)]]])
        then show "hasl (km k') ls \<and> cframe k k' \<and> con_ok (con k')"
          using k' k2(3) kframe_sel(12) [OF k'(2)] by simp
      qed
    qed
  qed
  show ?thesis
    using kacquire_wp [OF assms(1,2)] True out by (auto simp: cprintf_def elim!: wp_mono)
qed

text \<open>The loop of \<open>consoleintr\<close>, one character at a time.\<close>

definition refines_tty :: "lockid list \<Rightarrow> int list \<Rightarrow> kern \<Rightarrow> kern \<Rightarrow> bool" where
  "refines_tty ls cs k k' \<longleftrightarrow> hasl (km k') ls \<and> con_ok (con k') \<and> input_ok (con k') \<and>
     tty (con k') = fold tty_step cs (tty (con k))"

lemma refines_ttyI:
  assumes "hasl (km k') ls" "con_ok (con k')" "input_ok (con k')" "tty (con k') = tty_step c (tty (con k))"
  shows "refines_tty ls [c] k k'"
  using assms by (simp add: refines_tty_def)

lemma input_char_wp:
  assumes k: "hasl (km k) ls" "con_ok (con k)" "input_ok (con k)" "PTABLE \<notin> set ls"
    and c: "0 \<le> c" "c < 256" "c \<notin> {16, 21, 8, 127}"
  shows "wp (input_char c k) (\<lambda>_ k'. refines_tty ls [c] k k')"
proof (cases "c \<noteq> 0 \<and> in_e (con k) - in_r (con k) < 128")
  case False
  have "tty_step c (tty (con k)) = tty (con k)"
    using False c tty_room [OF k(3)] by (cases "tty (con k)") (auto simp: tty_step_def)
  moreover have "input_char c k = Ret () k" using False by (simp only: input_char_def if_False)
  ultimately show ?thesis using k by (simp add: refines_tty_def)
next
  case True
  define d where "d = (if c = 13 then 10 else c)"
  define s where "s = con k"
  let ?t = "s\<lparr>in_buf := (in_buf s)[slot (in_buf s) (in_e s) := word_of_int d], in_e := in_e s + 1\<rparr>"
  let ?k = "k\<lparr>con := ?t\<rparr>"
  have sp: "input_ok s" "in_e s - in_r s < 128" using k(3) True by (simp_all add: s_def)
  note app = tty_append [OF sp, of "word_of_int d"]
  have d10: "(word_of_int d :: u8) = 10 \<longleftrightarrow> d = 10"
    using c by (simp add: d_def word_uint_eq_iff uint_word_of_int)
  have step: "tty_step c (tty s) = (if d = 10 \<or> d = 4 \<or> in_e ?t = in_r ?t + 128
      then (fst (tty s) @ snd (tty s) @ [word_of_int d], []) else (fst (tty s), snd (tty s) @ [word_of_int d]))"
    using True c app(5) tty_room [OF sp(1)] sp(2) by (cases "tty s") (simp add: tty_step_def d_def Let_def)
  have ok: "con_ok (con ?k)" using k(2) by (simp add: con_ok_def s_def)
  have h: "hasl (km ?k) ls" using k(1) by simp
  have "wp (on_con (consputc d) ?k) (\<lambda>_ k1.
      wp (if d = 10 \<or> d = 4 \<or> in_e (con k1) = in_r (con k1) + 128
          then wakeup ChInput (k1\<lparr>con := (con k1)\<lparr>in_w := in_e (con k1)\<rparr>\<rparr>) else Ret () k1)
        (\<lambda>_ k'. refines_tty ls [c] k k'))"
  proof (rule wp_mono [OF on_con_wp [of ?k ls "consputc d", OF h ok in_order_basic(2) [OF ok]]], elim conjE)
    fix k1
    assume k1: "hasl (km k1) ls" "cframe ?k k1" "con_ok (con k1)"
    then have f: "con_frame ?t (con k1)" by (simp add: cframe_def)
    note sel = con_frame_sel [OF f]
    show "wp (if d = 10 \<or> d = 4 \<or> in_e (con k1) = in_r (con k1) + 128
          then wakeup ChInput (k1\<lparr>con := (con k1)\<lparr>in_w := in_e (con k1)\<rparr>\<rparr>) else Ret () k1)
        (\<lambda>_ k'. refines_tty ls [c] k k')"
    proof (cases "d = 10 \<or> d = 4 \<or> in_e ?t = in_r ?t + 128")
      case True
      let ?k2 = "k1\<lparr>con := (con k1)\<lparr>in_w := in_e (con k1)\<rparr>\<rparr>"
      have "tty (con ?k2) = tty_step c (tty s)" "input_ok (con ?k2)"
        using app(3,4) sel True unfolding step by (simp_all add: tty_def input_ok_def)
      moreover have "con_ok (con ?k2)" using k1(3) by (simp add: con_ok_def)
      ultimately have "wp (wakeup ChInput ?k2) (\<lambda>_ k'. refines_tty ls [c] k k')"
        using wakeup_wp [of ?k2 ls ChInput] k1(1) k(4)
        by (auto simp: s_def wakeup1_def dest!: kframe_sel(12) elim!: wp_mono intro!: refines_ttyI)
      then show ?thesis using True sel by simp
    next
      case False
      have "tty (con k1) = tty_step c (tty s)" "input_ok (con k1)"
        using app(1,2) False d10 con_frame_tty [OF f] unfolding step by simp_all
      then show ?thesis
        using False sel k1 by (auto simp: s_def intro!: refines_ttyI)
    qed
  qed
  moreover have "input_char c k = bindR (on_con (consputc d) ?k) (\<lambda>_ k1.
      if d = 10 \<or> d = 4 \<or> in_e (con k1) = in_r (con k1) + 128
      then wakeup ChInput (k1\<lparr>con := (con k1)\<lparr>in_w := in_e (con k1)\<rparr>\<rparr>) else Ret () k1)"
    unfolding input_char_def if_P [OF True] Let_def d_def s_def by (rule refl)
  ultimately show ?thesis by (simp only: wp_bindR)
qed

lemma refines_tty_Nil: "refines_tty ls [] k k \<longleftrightarrow> hasl (km k) ls \<and> con_ok (con k) \<and> input_ok (con k)"
  by (simp add: refines_tty_def)

lemma refines_tty_Cons:
  "refines_tty ls [c] k k1 \<Longrightarrow> refines_tty ls cs k1 k2 \<Longrightarrow> refines_tty ls (c # cs) k k2"
  by (simp add: refines_tty_def)

lemma backspace_wp:
  assumes k: "hasl (km k) ls" "con_ok (con k)" "input_ok (con k)" and c: "c = 8 \<or> c = 127"
  shows "wp (if in_e (con k) \<noteq> in_w (con k)
             then on_con (consputc BACKSPACE) (k\<lparr>con := (con k)\<lparr>in_e := in_e (con k) - 1\<rparr>\<rparr>)
             else Ret () k) (\<lambda>_ k'. refines_tty ls [c] k k')"
proof (cases "in_e (con k) = in_w (con k)")
  case True
  then have "tty_step c (tty (con k)) = tty (con k)" using c by (auto simp: tty_step_def tty_def)
  then show ?thesis using True k by (simp add: refines_tty_def)
next
  case False
  let ?k = "k\<lparr>con := (con k)\<lparr>in_e := in_e (con k) - 1\<rparr>\<rparr>"
  note b = tty_backspace [OF k(3) False]
  have ok: "con_ok (con ?k)" using k(2) by (simp add: con_ok_def)
  have h: "hasl (km ?k) ls" using k(1) by simp
  have "wp (on_con (consputc BACKSPACE) ?k) (\<lambda>_ k'. refines_tty ls [c] k k')"
  proof (rule wp_mono [OF on_con_wp [of ?k ls "consputc BACKSPACE", OF h ok in_order_basic(2) [OF ok]]], elim conjE)
    fix k'
    assume k': "hasl (km k') ls" "cframe ?k k'" "con_ok (con k')"
    then have "con_frame (con ?k) (con k')" by (simp add: cframe_def)
    from con_frame_tty [OF this] have "tty (con k') = (fst (tty (con k)), butlast (snd (tty (con k))))" "input_ok (con k')"
      using b(1,2) by simp_all
    then show "refines_tty ls [c] k k'"
      using k' c by (intro refines_ttyI) (auto simp: tty_step_def split: prod.splits)
  qed
  then show ?thesis using False by simp
qed

lemma consoleintr_loop_wp:
  assumes "hasl (km k) ls" "con_ok (con k)" "input_ok (con k)" "PTABLE \<notin> set ls" "\<forall>c \<in> set cs. 0 \<le> c \<and> c < 256"
  shows "wp (consoleintr_loop cs dump k) (\<lambda>_ k'. refines_tty ls cs k k')"
  using assms
proof (induction cs arbitrary: dump k)
  case Nil
  then show ?case by (simp add: refines_tty_Nil)
next
  case (Cons c cs)
  have rest: "wp (consoleintr_loop cs d k1) (\<lambda>_ k'. refines_tty ls (c # cs) k k')"
    if k1: "refines_tty ls [c] k k1" for d k1
  proof -
    have "wp (consoleintr_loop cs d k1) (\<lambda>_ k'. refines_tty ls cs k1 k')"
      using k1 Cons.prems(4,5) by (intro Cons.IH) (auto simp: refines_tty_def)
    then show ?thesis using refines_tty_Cons [OF k1] by (rule wp_mono)
  qed
  consider "c = 16" | "c = 21" | "c = 8 \<or> c = 127" | "c \<notin> {16, 21, 8, 127}" by blast
  then show ?case
  proof cases
    case 1
    then have "refines_tty ls [c] k k"
      using Cons.prems by (intro refines_ttyI) (auto simp: tty_step_def split: prod.splits)
    then show ?thesis using rest 1 by simp
  next
    case 2
    have "wp (on_con (kill_line (unat (in_e (con k) - in_w (con k)))) k) (\<lambda>_ k'. refines_tty ls [c] k k')"
      using kill_line_wp [OF Cons.prems(2,3) refl] Cons.prems(1) 2
      by (auto simp: on_con_def tty_step_def elim!: wp_mono intro!: refines_ttyI split: prod.splits)
    then show ?thesis using rest 2 by (auto elim!: wp_mono)
  next
    case 3
    then show ?thesis using backspace_wp [OF Cons.prems(1-3) 3] rest by (auto elim!: wp_mono simp del: wp_if)
  next
    case 4
    then have "wp (input_char c k) (\<lambda>_ k'. refines_tty ls [c] k k')"
      using Cons.prems by (intro input_char_wp) auto
    then show ?thesis using rest 4 by (auto elim!: wp_mono)
  qed
qed

lemma procdump_wp:
  assumes "hasl (km k) ls" "CONSLK \<notin> set ls" "con_ok (con k)"
  shows "wp (procdump k) (\<lambda>_ k'. hasl (km k') ls \<and> cframe k k' \<and> con_ok (con k'))"
proof -
  let ?I = "\<lambda>k'. hasl (km k') ls \<and> cframe k k' \<and> con_ok (con k')"
  have pr: "wp (cprintf fmt args k1) (\<lambda>_. ?I)" if "?I k1" for fmt args k1
    using cprintf_wp [of k1 ls fmt args] that assms(2) by (auto elim!: wp_mono intro: cframe_trans)
  have prs: "wp (foreach (\<lambda>a. cprintf fmt (f a)) xs k1) (\<lambda>_. ?I)" if "?I k1" for fmt f xs k1
    using that by (intro wp_foreach [where I = "\<lambda>_. ?I"] pr) auto
  have entry: "wp (procdump_entry i k1) (\<lambda>_. ?I)" if "?I k1" for i k1
  proof -
    have rest: "wp (if pstate p = SLEEPING then foreach (\<lambda>a. cprintf '' %p'' [CWord a]) xs k2 else Ret () k2)
        (\<lambda>_ k3. wp (cprintf [CHR 0x0A] [] k3) (\<lambda>_. ?I))" if "?I k2" for p xs k2
    proof -
      have "wp (if pstate p = SLEEPING then foreach (\<lambda>a. cprintf '' %p'' [CWord a]) xs k2 else Ret () k2) (\<lambda>_. ?I)"
        using prs [OF that, of "'' %p''" "\<lambda>a. [CWord a]"] that by simp
      then show ?thesis by (rule wp_mono) (rule pr)
    qed
    show ?thesis
    proof (cases "pstate (ptable k1 ! i) = UNUSED")
      case True
      then show ?thesis using that by (simp add: procdump_entry_def)
    next
      case False
      show ?thesis
        unfolding procdump_entry_def Let_def if_not_P [OF False] wp_bindR
        by (rule wp_mono [OF pr [OF that] rest])
    qed
  qed
  show ?thesis
    unfolding procdump_def by (rule wp_foreach [where I = "\<lambda>_. ?I"]) (use assms entry in auto)
qed

lemma consoleintr_refines:
  assumes "hasl (km k) ls" "CONSLK \<notin> set ls" "PTABLE \<notin> set ls" "con_ok (con k)" "input_ok (con k)"
    "\<forall>c \<in> set cs. 0 \<le> c \<and> c < 256"
  shows "wp (consoleintr cs k) (\<lambda>_ k'. refines_tty ls cs k k')"
proof -
  have dump: "wp (if d then procdump k3 else Ret () k3) (\<lambda>_ k'. refines_tty ls cs k k')"
    if "refines_tty ls cs k k3" for d k3
    using procdump_wp [of k3 ls] that assms(2)
    by (auto simp: refines_tty_def cframe_def con_frame_tty elim!: wp_mono)
  have rel: "wp (krelease CONSLK k2) (\<lambda>_ k3. wp (if d then procdump k3 else Ret () k3) (\<lambda>_ k'. refines_tty ls cs k k'))"
    if k2: "refines_tty (CONSLK # ls) cs k k2" for d k2
  proof -
    have "wp (krelease CONSLK k2) (\<lambda>_ k3. hasl (km k3) (remove1 CONSLK (CONSLK # ls)) \<and> kframe k2 k3)"
      using k2 by (intro krelease_wp) (simp_all add: refines_tty_def)
    moreover have "refines_tty ls cs k k3" if "hasl (km k3) (remove1 CONSLK (CONSLK # ls)) \<and> kframe k2 k3" for k3
      using that k2 by (auto simp: refines_tty_def dest!: kframe_sel(12))
    ultimately show ?thesis by (rule wp_mono [OF _ dump])
  qed
  have loop: "wp (consoleintr_loop cs False k1) (\<lambda>d k2.
      wp (krelease CONSLK k2) (\<lambda>_ k3. wp (if d then procdump k3 else Ret () k3) (\<lambda>_ k'. refines_tty ls cs k k')))"
    if k1: "hasl (km k1) (CONSLK # ls)" "kframe k k1" for k1
  proof (rule wp_mono [OF consoleintr_loop_wp [of k1 "CONSLK # ls" cs False] rel])
    show "hasl (km k1) (CONSLK # ls)" "PTABLE \<notin> set (CONSLK # ls)" "\<forall>c \<in> set cs. 0 \<le> c \<and> c < 256"
      "con_ok (con k1)" "input_ok (con k1)"
      using k1 assms kframe_sel(12) [OF k1(2)] by simp_all
  qed (use kframe_sel(12) [OF k1(2)] in \<open>simp add: refines_tty_def\<close>)
  show ?thesis
    unfolding consoleintr_def wp_bindR
    by (rule wp_mono [OF kacquire_wp [OF assms(1,2)]]) (use loop in blast)
qed

section \<open>Properties\<close>

text \<open>
  C27. Console input follows the line discipline: whatever bytes the keyboard or the serial
  port delivers, \<open>consoleintr\<close> returns and the characters ready for readers and the line being
  edited, read off the ring buffer, are exactly what the discipline makes of them, also when
  the 32-bit counters wrap around; the process listing it may print does not disturb them.
\<close>

theorem consoleintr_line_discipline:
  assumes "hasl (km k) ls" "CONSLK \<notin> set ls" "PTABLE \<notin> set ls" "con_ok (con k)" "input_ok (con k)"
    "\<forall>c \<in> set cs. 0 \<le> c \<and> c < 256"
  shows "wp (consoleintr cs k) (\<lambda>_ k'. hasl (km k') ls \<and> con_ok (con k') \<and> input_ok (con k') \<and>
    tty (con k') = fold tty_step cs (tty (con k)))"
  using consoleintr_refines [OF assms] by (simp add: refines_tty_def)

text \<open>A typed line with a correction in it: \<open>ls\<close> is typed as \<open>lx\<close>, backspace, \<open>s\<close>.\<close>

theorem consoleintr_line_discipline_witness:
  "\<exists>k'. consoleintr [108, 120, 8, 115, 13] kern0 = Ret () k' \<and> tty (con k') = (str [CHR ''l'', CHR ''s'', CHR 0x0A], [])"
proof -
  have "fold tty_step [108, 120, 8, 115, 13] (tty (con kern0)) = (str [CHR ''l'', CHR ''s'', CHR 0x0A], [])"
    by (simp add: kern0_def console0_def tty_def tty_step_def Let_def)
  moreover have "con_ok (con kern0)" "input_ok (con kern0)"
    by (simp_all add: kern0_def console0_def con_ok_def input_ok_def)
  ultimately show ?thesis
    using consoleintr_line_discipline [OF kern0_hasl, of "[108, 120, 8, 115, 13]"] by (auto simp: wp_iff)
qed

end
