(* ===== verification/Inode.thy ===== *)
theory Inode
  imports Log Console
begin

text \<open>
  Disk blocks and inodes (\<open>src/fs.c\<close> up to \<open>itrunc\<close>, \<open>struct inode\<close> of \<open>src/file.h\<close>). The
  state adds to the log the superblock, the inode cache and the table of device functions. A
  pointer to an inode is its index in the cache. Directories and file contents are in the
  theory \<open>Fs\<close>.
\<close>

section \<open>State\<close>

definition NINODE :: nat where "NINODE = 50"
definition NDIRECT :: nat where "NDIRECT = 12"
definition NINDIRECT :: nat where "NINDIRECT = BSIZE div 4"
definition MAXFILE :: nat where "MAXFILE = NDIRECT + NINDIRECT"

record inode =
  idev :: nat
  inum :: nat
  iref :: int
  ibusy :: bool
  ivalid :: bool
  itype :: u16
  imajor :: u16
  iminor :: u16
  inlink :: u16
  isize :: u32
  iaddrs :: "nat list"

text \<open>The device functions that occur in the table \<open>devsw\<close>.\<close>

datatype devfn = ConsoleDev

record fs =
  fl :: log
  fsb :: superblock
  inodes :: "inode list"
  dev_read :: "nat \<Rightarrow> devfn option"
  dev_write :: "nat \<Rightarrow> devfn option"

definition on_log :: "(log \<Rightarrow> ('a, log) outcome) \<Rightarrow> fs \<Rightarrow> ('a, fs) outcome" where
  "on_log = zoom fl (\<lambda>l s. s\<lparr>fl := l\<rparr>)"

definition on_fbio :: "(bio \<Rightarrow> ('a, bio) outcome) \<Rightarrow> fs \<Rightarrow> ('a, fs) outcome" where
  "on_fbio f = on_log (on_bio f)"

definition on_fkern :: "(kern \<Rightarrow> ('a, kern) outcome) \<Rightarrow> fs \<Rightarrow> ('a, fs) outcome" where
  "on_fkern f = on_log (on_lkern f)"

abbreviation fkern :: "fs \<Rightarrow> kern" where "fkern s \<equiv> bk (lb (fl s))"

definition fdata :: "fs \<Rightarrow> nat \<Rightarrow> bytes" where
  "fdata s i = ldata (fl s) i"

definition fset_data :: "nat \<Rightarrow> bytes \<Rightarrow> fs \<Rightarrow> fs" where
  "fset_data i d s = s\<lparr>fl := lset_data i d (fl s)\<rparr>"

definition upd_inode :: "nat \<Rightarrow> (inode \<Rightarrow> inode) \<Rightarrow> fs \<Rightarrow> fs" where
  "upd_inode ip f s = s\<lparr>inodes := (inodes s)[ip := f (inodes s ! ip)]\<rparr>"

section \<open>Blocks\<close>

definition bzero :: "nat \<Rightarrow> nat \<Rightarrow> fs \<Rightarrow> (unit, fs) outcome" where
  "bzero dev bno s =
     bindR (on_fbio (bread dev bno) s) (\<lambda>bp s.
     bindR (on_log (log_write bp) (fset_data bp (replicate BSIZE 0) s)) (\<lambda>_.
     on_fbio (brelse bp)))"

definition BPB :: nat where "BPB = BSIZE * 8"

definition BBLOCK :: "nat \<Rightarrow> superblock \<Rightarrow> nat" where
  "BBLOCK b sb = b div BPB + sb_bmapstart sb"

definition bit_mask :: "nat \<Rightarrow> u8" where
  "bit_mask bi = push_bit (bi mod 8) 1"

definition bit_used :: "bytes \<Rightarrow> nat \<Rightarrow> bool" where
  "bit_used d bi \<longleftrightarrow> d ! (bi div 8) AND bit_mask bi \<noteq> 0"

definition set_bit_used :: "nat \<Rightarrow> bytes \<Rightarrow> bytes" where
  "set_bit_used bi d = d[bi div 8 := d ! (bi div 8) OR bit_mask bi]"

definition clear_bit_used :: "nat \<Rightarrow> bytes \<Rightarrow> bytes" where
  "clear_bit_used bi d = d[bi div 8 := d ! (bi div 8) AND NOT (bit_mask bi)]"

text \<open>The inner loop of \<open>balloc\<close>: the first clear bit among the first \<open>n\<close>.\<close>

definition free_bit :: "bytes \<Rightarrow> nat \<Rightarrow> nat option" where
  "free_bit d n = find (\<lambda>bi. \<not> bit_used d bi) [0..<n]"

fun balloc_loop :: "nat \<Rightarrow> nat list \<Rightarrow> fs \<Rightarrow> (nat, fs) outcome" where
  "balloc_loop dev [] s = Panic ''balloc: out of blocks''"
| "balloc_loop dev (b # bs) s =
     bindR (on_fbio (bread dev (BBLOCK b (fsb s))) s) (\<lambda>bp s.
     case free_bit (fdata s bp) (min BPB (sb_size (fsb s) - b)) of
       Some bi \<Rightarrow>
         bindR (on_log (log_write bp) (fset_data bp (set_bit_used bi (fdata s bp)) s)) (\<lambda>_ s.
         bindR (on_fbio (brelse bp) s) (\<lambda>_ s.
         bindR (bzero dev (b + bi) s) (\<lambda>_. Ret (b + bi))))
     | None \<Rightarrow> bindR (on_fbio (brelse bp) s) (\<lambda>_. balloc_loop dev bs))"

definition balloc :: "nat \<Rightarrow> fs \<Rightarrow> (nat, fs) outcome" where
  "balloc dev s = balloc_loop dev (map (\<lambda>j. j * BPB) [0..<(sb_size (fsb s) + BPB - 1) div BPB]) s"

definition bfree :: "nat \<Rightarrow> nat \<Rightarrow> fs \<Rightarrow> (unit, fs) outcome" where
  "bfree dev b s =
     bindR (on_fbio (readsb dev) s) (\<lambda>sb s.
     let s = s\<lparr>fsb := sb\<rparr> in
     bindR (on_fbio (bread dev (BBLOCK b (fsb s))) s) (\<lambda>bp s.
     let bi = b mod BPB in
     if \<not> bit_used (fdata s bp) bi then Panic ''freeing free block''
     else bindR (on_log (log_write bp) (fset_data bp (clear_bit_used bi (fdata s bp)) s)) (\<lambda>_.
          on_fbio (brelse bp))))"

section \<open>Inodes on disk\<close>

abbreviation DINODE :: nat where "DINODE \<equiv> 64"

definition IPB :: nat where "IPB = BSIZE div DINODE"

definition IBLOCK :: "nat \<Rightarrow> superblock \<Rightarrow> nat" where
  "IBLOCK i sb = i div IPB + sb_inodestart sb"

definition ioff :: "nat \<Rightarrow> nat" where
  "ioff i = (i mod IPB) * DINODE"

text \<open>\<open>struct dinode\<close> at an offset of a block.\<close>

definition get_dinode :: "nat \<Rightarrow> bytes \<Rightarrow> inode \<Rightarrow> inode" where
  "get_dinode off d ip =
     ip\<lparr>itype := word_of_nat (get16 off d), imajor := word_of_nat (get16 (off + 2) d),
        iminor := word_of_nat (get16 (off + 4) d), inlink := word_of_nat (get16 (off + 6) d),
        isize := word_of_nat (get32 (off + 8) d),
        iaddrs := map (\<lambda>j. get32 (off + 12 + 4 * j) d) [0..<Suc NDIRECT]\<rparr>"

definition put_dinode :: "nat \<Rightarrow> inode \<Rightarrow> bytes \<Rightarrow> bytes" where
  "put_dinode off ip d =
     put_fields 4 (off + 12) (\<lambda>j. iaddrs ip ! j) (Suc NDIRECT)
       (put32 (off + 8) (unat (isize ip))
         (put16 (off + 6) (unat (inlink ip))
           (put16 (off + 4) (unat (iminor ip))
             (put16 (off + 2) (unat (imajor ip))
               (put16 off (unat (itype ip)) d)))))"

definition iupdate :: "nat \<Rightarrow> fs \<Rightarrow> (unit, fs) outcome" where
  "iupdate ip s =
     (let i = inodes s ! ip
      in bindR (on_fbio (bread (idev i) (IBLOCK (inum i) (fsb s))) s) (\<lambda>bp s.
         bindR (on_log (log_write bp) (fset_data bp (put_dinode (ioff (inum i)) i (fdata s bp)) s)) (\<lambda>_.
         on_fbio (brelse bp))))"

section \<open>The inode cache\<close>

definition iinit :: "nat \<Rightarrow> fs \<Rightarrow> (unit, fs) outcome" where
  "iinit dev s =
     bindR (on_fkern (\<lambda>k. Ret () (k\<lparr>km := initlock ICACHE ''icache'' (km k)\<rparr>)) s) (\<lambda>_ s.
     bindR (on_fbio (readsb dev) s) (\<lambda>sb s.
     on_fkern (cprintf (''sb: size %d nblocks %d ninodes %d nlog %d logstart %d inodestart %d bmap start %d'' @ [CHR 0x0A])
       [CWord (word_of_nat (sb_size sb)), CWord (word_of_nat (sb_nblocks sb)), CWord (word_of_nat (sb_ninodes sb)),
        CWord (word_of_nat (sb_nlog sb)), CWord (word_of_nat (sb_logstart sb)),
        CWord (word_of_nat (sb_inodestart sb)), CWord (word_of_nat (sb_bmapstart sb))]) (s\<lparr>fsb := sb\<rparr>)))"

definition iget :: "nat \<Rightarrow> nat \<Rightarrow> fs \<Rightarrow> (nat, fs) outcome" where
  "iget dev n s =
     bindR (on_fkern (kacquire ICACHE) s) (\<lambda>_ s.
     case first_idx (\<lambda>ip. iref ip > 0 \<and> idev ip = dev \<and> inum ip = n) (inodes s) of
       Some i \<Rightarrow>
         bindR (on_fkern (krelease ICACHE) (upd_inode i (\<lambda>ip. ip\<lparr>iref := iref ip + 1\<rparr>) s)) (\<lambda>_. Ret i)
     | None \<Rightarrow>
         (case first_idx (\<lambda>ip. iref ip = 0) (inodes s) of
            None \<Rightarrow> Panic ''iget: no inodes''
          | Some i \<Rightarrow>
              bindR (on_fkern (krelease ICACHE)
                (upd_inode i (\<lambda>ip. ip\<lparr>idev := dev, inum := n, iref := 1, ibusy := False, ivalid := False\<rparr>) s))
              (\<lambda>_. Ret i)))"

fun ialloc_loop :: "nat \<Rightarrow> u16 \<Rightarrow> nat list \<Rightarrow> fs \<Rightarrow> (nat, fs) outcome" where
  "ialloc_loop dev type [] s = Panic ''ialloc: no inodes''"
| "ialloc_loop dev type (n # ns) s =
     bindR (on_fbio (bread dev (IBLOCK n (fsb s))) s) (\<lambda>bp s.
     if get16 (ioff n) (fdata s bp) = 0
     then let d = put16 (ioff n) (unat type) (splice_at (ioff n) (replicate DINODE 0) (fdata s bp))
          in bindR (on_log (log_write bp) (fset_data bp d s)) (\<lambda>_ s.
             bindR (on_fbio (brelse bp) s) (\<lambda>_.
             iget dev n))
     else bindR (on_fbio (brelse bp) s) (\<lambda>_. ialloc_loop dev type ns))"

definition ialloc :: "nat \<Rightarrow> u16 \<Rightarrow> fs \<Rightarrow> (nat, fs) outcome" where
  "ialloc dev type s = ialloc_loop dev type [1..<sb_ninodes (fsb s)] s"

definition idup :: "nat \<Rightarrow> fs \<Rightarrow> (nat, fs) outcome" where
  "idup ip s =
     bindR (on_fkern (kacquire ICACHE) s) (\<lambda>_ s.
     bindR (on_fkern (krelease ICACHE) (upd_inode ip (\<lambda>i. i\<lparr>iref := iref i + 1\<rparr>) s)) (\<lambda>_. Ret ip))"

text \<open>While the inode is locked by another process the caller sleeps on it.\<close>

definition ilock :: "nat option \<Rightarrow> fs \<Rightarrow> (unit, fs) outcome" where
  "ilock p s =
     (case p of
        None \<Rightarrow> Panic ''ilock''
      | Some ip \<Rightarrow>
          if iref (inodes s ! ip) < 1 then Panic ''ilock''
          else bindR (on_fkern (kacquire ICACHE) s) (\<lambda>_ s.
               if ibusy (inodes s ! ip)
               then bindR (on_fkern (sleep (ChInode ip) (Some ICACHE)) s) (\<lambda>_ s. Asleep s)
               else bindR (on_fkern (krelease ICACHE) (upd_inode ip (\<lambda>i. i\<lparr>ibusy := True\<rparr>) s)) (\<lambda>_ s.
                    if ivalid (inodes s ! ip) then Ret () s
                    else let i = inodes s ! ip
                         in bindR (on_fbio (bread (idev i) (IBLOCK (inum i) (fsb s))) s) (\<lambda>bp s.
                            let s = upd_inode ip (get_dinode (ioff (inum i)) (fdata s bp)) s
                            in bindR (on_fbio (brelse bp) s) (\<lambda>_ s.
                               let s = upd_inode ip (\<lambda>i. i\<lparr>ivalid := True\<rparr>) s
                               in if itype (inodes s ! ip) = 0 then Panic ''ilock: no type'' else Ret () s)))))"

definition iunlock :: "nat option \<Rightarrow> fs \<Rightarrow> (unit, fs) outcome" where
  "iunlock p s =
     (case p of
        None \<Rightarrow> Panic ''iunlock''
      | Some ip \<Rightarrow>
          if \<not> ibusy (inodes s ! ip) \<or> iref (inodes s ! ip) < 1 then Panic ''iunlock''
          else bindR (on_fkern (kacquire ICACHE) s) (\<lambda>_ s.
               bindR (on_fkern (wakeup (ChInode ip)) (upd_inode ip (\<lambda>i. i\<lparr>ibusy := False\<rparr>) s)) (\<lambda>_.
               on_fkern (krelease ICACHE))))"

section \<open>Inode contents\<close>

definition bmap :: "nat \<Rightarrow> nat \<Rightarrow> fs \<Rightarrow> (nat, fs) outcome" where
  "bmap ip bn s =
     (if bn < NDIRECT
      then let addr = iaddrs (inodes s ! ip) ! bn
           in if addr = 0
              then bindR (balloc (idev (inodes s ! ip)) s) (\<lambda>addr s.
                   Ret addr (upd_inode ip (\<lambda>i. i\<lparr>iaddrs := (iaddrs i)[bn := addr]\<rparr>) s))
              else Ret addr s
      else let bn = bn - NDIRECT
           in if bn < NINDIRECT
              then bindR (if iaddrs (inodes s ! ip) ! NDIRECT = 0
                          then bindR (balloc (idev (inodes s ! ip)) s) (\<lambda>addr s.
                               Ret addr (upd_inode ip (\<lambda>i. i\<lparr>iaddrs := (iaddrs i)[NDIRECT := addr]\<rparr>) s))
                          else Ret (iaddrs (inodes s ! ip) ! NDIRECT) s) (\<lambda>addr s.
                   bindR (on_fbio (bread (idev (inodes s ! ip)) addr) s) (\<lambda>bp s.
                   bindR (if get32 (4 * bn) (fdata s bp) = 0
                          then bindR (balloc (idev (inodes s ! ip)) s) (\<lambda>addr s.
                               bindR (on_log (log_write bp) (fset_data bp (put32 (4 * bn) addr (fdata s bp)) s)) (\<lambda>_.
                               Ret addr))
                          else Ret (get32 (4 * bn) (fdata s bp)) s) (\<lambda>addr s.
                   bindR (on_fbio (brelse bp) s) (\<lambda>_. Ret addr))))
              else Panic ''bmap: out of range'')"

definition trunc_direct :: "nat \<Rightarrow> nat \<Rightarrow> fs \<Rightarrow> (unit, fs) outcome" where
  "trunc_direct ip i s =
     (let addr = iaddrs (inodes s ! ip) ! i
      in if addr \<noteq> 0
         then bindR (bfree (idev (inodes s ! ip)) addr s) (\<lambda>_ s.
              Ret () (upd_inode ip (\<lambda>n. n\<lparr>iaddrs := (iaddrs n)[i := 0]\<rparr>) s))
         else Ret () s)"

definition trunc_entry :: "nat \<Rightarrow> nat \<Rightarrow> nat \<Rightarrow> fs \<Rightarrow> (unit, fs) outcome" where
  "trunc_entry ip bp j s =
     (let addr = get32 (4 * j) (fdata s bp)
      in if addr \<noteq> 0 then bfree (idev (inodes s ! ip)) addr s else Ret () s)"

definition itrunc :: "nat \<Rightarrow> fs \<Rightarrow> (unit, fs) outcome" where
  "itrunc ip s =
     bindR (foreach (trunc_direct ip) [0..<NDIRECT] s) (\<lambda>_ s.
     bindR (let ind = iaddrs (inodes s ! ip) ! NDIRECT
            in if ind \<noteq> 0
               then bindR (on_fbio (bread (idev (inodes s ! ip)) ind) s) (\<lambda>bp s.
                    bindR (foreach (trunc_entry ip bp) [0..<NINDIRECT] s) (\<lambda>_ s.
                    bindR (on_fbio (brelse bp) s) (\<lambda>_ s.
                    bindR (bfree (idev (inodes s ! ip)) ind s) (\<lambda>_ s.
                    Ret () (upd_inode ip (\<lambda>n. n\<lparr>iaddrs := (iaddrs n)[NDIRECT := 0]\<rparr>) s)))))
               else Ret () s) (\<lambda>_ s.
     iupdate ip (upd_inode ip (\<lambda>n. n\<lparr>isize := 0\<rparr>) s)))"

definition iput :: "nat \<Rightarrow> fs \<Rightarrow> (unit, fs) outcome" where
  "iput ip s =
     bindR (on_fkern (kacquire ICACHE) s) (\<lambda>_ s.
     let i = inodes s ! ip in
     bindR (if iref i = 1 \<and> ivalid i \<and> inlink i = 0
            then if ibusy i then Panic ''iput busy''
                 else bindR (on_fkern (krelease ICACHE) (upd_inode ip (\<lambda>i. i\<lparr>ibusy := True\<rparr>) s)) (\<lambda>_ s.
                      bindR (itrunc ip s) (\<lambda>_ s.
                      bindR (iupdate ip (upd_inode ip (\<lambda>i. i\<lparr>itype := 0\<rparr>) s)) (\<lambda>_ s.
                      bindR (on_fkern (kacquire ICACHE) s) (\<lambda>_ s.
                      on_fkern (wakeup (ChInode ip)) (upd_inode ip (\<lambda>i. i\<lparr>ibusy := False, ivalid := False\<rparr>) s)))))
            else Ret () s) (\<lambda>_ s.
     on_fkern (krelease ICACHE) (upd_inode ip (\<lambda>i. i\<lparr>iref := iref i - 1\<rparr>) s)))"

definition iunlockput :: "nat \<Rightarrow> fs \<Rightarrow> (unit, fs) outcome" where
  "iunlockput ip s = bindR (iunlock (Some ip) s) (\<lambda>_. iput ip)"

record stat =
  st_type :: u16
  st_dev :: nat
  st_ino :: nat
  st_nlink :: u16
  st_size :: u32

definition stati :: "inode \<Rightarrow> stat" where
  "stati ip = \<lparr>st_type = itype ip, st_dev = idev ip, st_ino = inum ip, st_nlink = inlink ip, st_size = isize ip\<rparr>"

end
