(* ===== verification/Fs.thy ===== *)
theory Fs
  imports Inode
begin

text \<open>
  File contents, directories and path names (the rest of \<open>src/fs.c\<close>) and the console as a
  device (\<open>consoleread\<close>, \<open>consolewrite\<close>, \<open>consoleinit\<close> of \<open>src/console.c\<close>), which \<open>readi\<close>
  and \<open>writei\<close> reach through the table \<open>devsw\<close>. \<open>readi\<close> returns the bytes it copies to its
  destination (\<open>None\<close> stands for the result \<open>-1\<close>), and \<open>writei\<close> takes the bytes of its
  source.
\<close>

definition DIRSIZ :: nat where "DIRSIZ = 14"
definition NDEV :: nat where "NDEV = 10"
abbreviation ROOTDEV :: nat where "ROOTDEV \<equiv> 1"
abbreviation ROOTINO :: nat where "ROOTINO \<equiv> 1"
abbreviation CONSOLE :: nat where "CONSOLE \<equiv> 1"
abbreviation T_DIR :: u16 where "T_DIR \<equiv> 1"
abbreviation T_FILE :: u16 where "T_FILE \<equiv> 2"
abbreviation T_DEV :: u16 where "T_DEV \<equiv> 3"

section \<open>The console device\<close>

text \<open>
  The loop of \<open>consoleread\<close>, with \<open>n\<close> bytes still to read; \<open>None\<close> when the process was killed
  while it would have to wait.
\<close>

fun consoleread_loop :: "nat \<Rightarrow> bytes \<Rightarrow> kern \<Rightarrow> (bytes option, kern) outcome" where
  "consoleread_loop 0 got k = Ret (Some got) k"
| "consoleread_loop (Suc n) got k =
     (if in_r (con k) = in_w (con k)
      then with_proc (\<lambda>p k.
             if killed (ptable k ! p) then Ret None k
             else bindR (sleep ChInput (Some CONSLK) k) (\<lambda>_. Ret None)) k
      else let c = in_buf (con k) ! slot (in_buf (con k)) (in_r (con k));
               k1 = k\<lparr>con := (con k)\<lparr>in_r := in_r (con k) + 1\<rparr>\<rparr>
           in if c = 4 then Ret (Some got) (if got \<noteq> [] then k else k1)
              else if c = 10 then Ret (Some (got @ [c])) k1
              else consoleread_loop n (got @ [c]) k1)"

definition consoleread :: "nat \<Rightarrow> int \<Rightarrow> fs \<Rightarrow> (bytes option, fs) outcome" where
  "consoleread ip n s =
     bindR (iunlock (Some ip) s) (\<lambda>_ s.
     bindR (on_fkern (kacquire CONSLK) s) (\<lambda>_ s.
     bindR (on_fkern (consoleread_loop (nat n) []) s) (\<lambda>r s.
     bindR (on_fkern (krelease CONSLK) s) (\<lambda>_ s.
     bindR (ilock (Some ip) s) (\<lambda>_. Ret r)))))"

definition consolewrite :: "nat \<Rightarrow> bytes \<Rightarrow> fs \<Rightarrow> (int, fs) outcome" where
  "consolewrite ip buf s =
     bindR (iunlock (Some ip) s) (\<lambda>_ s.
     bindR (on_fkern (kacquire CONSLK) s) (\<lambda>_ s.
     bindR (on_fkern (on_con (consputs (map uint buf))) s) (\<lambda>_ s.
     bindR (on_fkern (krelease CONSLK) s) (\<lambda>_ s.
     bindR (ilock (Some ip) s) (\<lambda>_. Ret (int (length buf)))))))"

text \<open>The interrupt controllers that \<open>consoleinit\<close> programs as well are not part of the model.\<close>

definition consoleinit :: "fs \<Rightarrow> (unit, fs) outcome" where
  "consoleinit s =
     bindR (on_fkern (\<lambda>k. Ret () (k\<lparr>km := initlock CONSLK ''console'' (km k)\<rparr>)) s) (\<lambda>_ s.
     on_fkern (\<lambda>k. Ret () (k\<lparr>con := (con k)\<lparr>locking := True\<rparr>\<rparr>))
       (s\<lparr>dev_write := (dev_write s)(CONSOLE := Some ConsoleDev), dev_read := (dev_read s)(CONSOLE := Some ConsoleDev)\<rparr>))"

section \<open>Reading and writing\<close>

definition no_device :: "u16 \<Rightarrow> (nat \<Rightarrow> devfn option) \<Rightarrow> bool" where
  "no_device major tab \<longleftrightarrow> sint major < 0 \<or> sint major \<ge> int NDEV \<or> tab (unat major) = None"

text \<open>Both loops move at least one byte in each turn.\<close>

fun readi_loop :: "nat \<Rightarrow> nat \<Rightarrow> nat \<Rightarrow> nat \<Rightarrow> bytes \<Rightarrow> fs \<Rightarrow> (bytes, fs) outcome" where
  "readi_loop 0 ip off n got s = Diverge"
| "readi_loop (Suc fuel) ip off n got s =
     (if n = 0 then Ret got s
      else bindR (bmap ip (off div BSIZE) s) (\<lambda>addr s.
           bindR (on_fbio (bread (idev (inodes s ! ip)) addr) s) (\<lambda>bp s.
           let m = min n (BSIZE - off mod BSIZE);
               bs = take m (drop (off mod BSIZE) (fdata s bp))
           in bindR (on_fbio (brelse bp) s) (\<lambda>_.
              readi_loop fuel ip (off + m) (n - m) (got @ bs)))))"

definition readi :: "nat \<Rightarrow> u32 \<Rightarrow> u32 \<Rightarrow> fs \<Rightarrow> (bytes option, fs) outcome" where
  "readi ip off n s =
     (let i = inodes s ! ip
      in if itype i = T_DEV
         then if no_device (imajor i) (dev_read s) then Ret None s else consoleread ip (sint n) s
         else if off > isize i \<or> off + n < off then Ret None s
         else let n = (if off + n > isize i then isize i - off else n)
              in bindR (readi_loop (Suc (unat n)) ip (unat off) (unat n) [] s) (\<lambda>bs. Ret (Some bs)))"

fun writei_loop :: "nat \<Rightarrow> nat \<Rightarrow> nat \<Rightarrow> bytes \<Rightarrow> fs \<Rightarrow> (nat, fs) outcome" where
  "writei_loop 0 ip off src s = Diverge"
| "writei_loop (Suc fuel) ip off src s =
     (if src = [] then Ret off s
      else bindR (bmap ip (off div BSIZE) s) (\<lambda>addr s.
           bindR (on_fbio (bread (idev (inodes s ! ip)) addr) s) (\<lambda>bp s.
           let m = min (length src) (BSIZE - off mod BSIZE)
           in bindR (on_log (log_write bp) (fset_data bp (splice_at (off mod BSIZE) (take m src) (fdata s bp)) s)) (\<lambda>_ s.
              bindR (on_fbio (brelse bp) s) (\<lambda>_.
              writei_loop fuel ip (off + m) (drop m src))))))"

definition writei :: "nat \<Rightarrow> bytes \<Rightarrow> u32 \<Rightarrow> fs \<Rightarrow> (int, fs) outcome" where
  "writei ip src off s =
     (let i = inodes s ! ip; n = word_of_nat (length src)
      in if itype i = T_DEV
         then if no_device (imajor i) (dev_write s) then Ret (- 1) s else consolewrite ip src s
         else if off > isize i \<or> off + n < off then Ret (- 1) s
         else if unat (off + n) > MAXFILE * BSIZE then Ret (- 1) s
         else bindR (writei_loop (Suc (length src)) ip (unat off) src s) (\<lambda>e s.
              if src \<noteq> [] \<and> e > unat (isize (inodes s ! ip))
              then bindR (iupdate ip (upd_inode ip (\<lambda>i. i\<lparr>isize := word_of_nat e\<rparr>) s)) (\<lambda>_. Ret (int (length src)))
              else Ret (int (length src)) s))"

section \<open>Directories\<close>

text \<open>A name is the bytes of a string of at most \<open>DIRSIZ\<close> characters, seen through a pointer.\<close>

definition namecmp :: "(nat \<Rightarrow> u8) \<Rightarrow> (nat \<Rightarrow> u8) \<Rightarrow> int" where
  "namecmp s t = strncmp s t DIRSIZ"

abbreviation DIRENT :: nat where "DIRENT \<equiv> 16"

definition de_inum :: "bytes \<Rightarrow> nat" where
  "de_inum de = get16 0 de"

definition de_name :: "bytes \<Rightarrow> nat \<Rightarrow> u8" where
  "de_name de i = de ! (2 + i)"

definition mk_dirent :: "(nat \<Rightarrow> u8) \<Rightarrow> nat \<Rightarrow> bytes" where
  "mk_dirent name n = le_put 2 n @ strncpy name (int DIRSIZ)"

text \<open>The offsets the loops over a directory visit; a directory has at most \<open>MAXFILE * BSIZE\<close> bytes.\<close>

definition dir_offs :: "nat \<Rightarrow> u32 \<Rightarrow> nat list" where
  "dir_offs start len = map (\<lambda>j. DIRENT * j) [start..<(unat len + DIRENT - 1) div DIRENT]"

fun dirlookup_loop :: "nat \<Rightarrow> bytes \<Rightarrow> nat list \<Rightarrow> fs \<Rightarrow> ((nat \<times> nat) option, fs) outcome" where
  "dirlookup_loop dp name [] s = Ret None s"
| "dirlookup_loop dp name (off # offs) s =
     bindR (readi dp (word_of_nat off) 16 s) (\<lambda>r s.
     case r of
       None \<Rightarrow> Panic ''dirlink read''
     | Some de \<Rightarrow>
         if length de \<noteq> DIRENT then Panic ''dirlink read''
         else if de_inum de = 0 then dirlookup_loop dp name offs s
         else if namecmp (cstr name) (de_name de) = 0
         then bindR (iget (idev (inodes s ! dp)) (de_inum de) s) (\<lambda>ip. Ret (Some (ip, off)))
         else dirlookup_loop dp name offs s)"

definition dirlookup :: "nat \<Rightarrow> bytes \<Rightarrow> fs \<Rightarrow> ((nat \<times> nat) option, fs) outcome" where
  "dirlookup dp name s =
     (if itype (inodes s ! dp) \<noteq> T_DIR then Panic ''dirlookup not DIR''
      else dirlookup_loop dp name (dir_offs 0 (isize (inodes s ! dp))) s)"

text \<open>Where \<open>dirlink\<close> writes: the first empty entry, or the end of the directory.\<close>

fun dirlink_loop :: "nat \<Rightarrow> nat list \<Rightarrow> fs \<Rightarrow> (nat option, fs) outcome" where
  "dirlink_loop dp [] s = Ret None s"
| "dirlink_loop dp (off # offs) s =
     bindR (readi dp (word_of_nat off) 16 s) (\<lambda>r s.
     case r of
       None \<Rightarrow> Panic ''dirlink read''
     | Some de \<Rightarrow>
         if length de \<noteq> DIRENT then Panic ''dirlink read''
         else if de_inum de = 0 then Ret (Some off) s
         else dirlink_loop dp offs s)"

definition dirlink :: "nat \<Rightarrow> bytes \<Rightarrow> nat \<Rightarrow> fs \<Rightarrow> (int, fs) outcome" where
  "dirlink dp name n s =
     bindR (dirlookup dp name s) (\<lambda>r s.
     case r of
       Some (ip, _) \<Rightarrow> bindR (iput ip s) (\<lambda>_. Ret (- 1))
     | None \<Rightarrow>
         (let offs = dir_offs 0 (isize (inodes s ! dp))
          in bindR (dirlink_loop dp offs s) (\<lambda>e s.
             let off = (case e of Some off \<Rightarrow> off | None \<Rightarrow> DIRENT * length offs)
             in bindR (writei dp (mk_dirent (cstr name) n) (word_of_nat off) s) (\<lambda>w.
                if w \<noteq> 16 then (\<lambda>_. Panic ''dirlink'') else Ret 0))))"

section \<open>Paths\<close>

definition slash :: u8 where "slash = 47"

text \<open>
  \<open>skipelem\<close>: the rest of the path and the element copied to \<open>name\<close>, or \<open>None\<close> when there
  is no element left. The three loops over the path are \<open>dropWhile\<close> and \<open>takeWhile\<close>.
\<close>

definition skipelem :: "bytes \<Rightarrow> (bytes \<times> bytes) option" where
  "skipelem path =
     (let path = dropWhile (\<lambda>c. c = slash) path
      in if path = [] then None
         else let elem = takeWhile (\<lambda>c. c \<noteq> slash) path;
                  path = dropWhile (\<lambda>c. c \<noteq> slash) path;
                  name = (if length elem \<ge> DIRSIZ then take DIRSIZ elem else elem)
              in Some (dropWhile (\<lambda>c. c = slash) path, name))"

text \<open>
  The loop of \<open>namex\<close>: each turn removes an element from the path. The result is the inode
  and the last element, which stays in the caller's \<open>name\<close>.
\<close>

fun namex_loop :: "nat \<Rightarrow> nat \<Rightarrow> bytes \<Rightarrow> bool \<Rightarrow> bytes \<Rightarrow> fs \<Rightarrow> (nat option \<times> bytes, fs) outcome" where
  "namex_loop 0 ip path par name s = Diverge"
| "namex_loop (Suc fuel) ip path par name s =
     (case skipelem path of
        None \<Rightarrow> if par then bindR (iput ip s) (\<lambda>_. Ret (None, name)) else Ret (Some ip, name) s
      | Some (path, name) \<Rightarrow>
          bindR (ilock (Some ip) s) (\<lambda>_ s.
          if itype (inodes s ! ip) \<noteq> T_DIR then bindR (iunlockput ip s) (\<lambda>_. Ret (None, name))
          else if par \<and> path = [] then bindR (iunlock (Some ip) s) (\<lambda>_. Ret (Some ip, name))
          else bindR (dirlookup ip name s) (\<lambda>r s.
               case r of
                 None \<Rightarrow> bindR (iunlockput ip s) (\<lambda>_. Ret (None, name))
               | Some (nxt, _) \<Rightarrow> bindR (iunlockput ip s) (\<lambda>_. namex_loop fuel nxt path par name))))"

text \<open>A running process always has a current directory.\<close>

definition namex :: "bytes \<Rightarrow> bool \<Rightarrow> fs \<Rightarrow> (nat option \<times> bytes, fs) outcome" where
  "namex path par s =
     bindR (if path \<noteq> [] \<and> hd path = slash then iget ROOTDEV ROOTINO s
            else case curproc (fkern s) of
                   None \<Rightarrow> Panic ''trap''
                 | Some p \<Rightarrow> (case cwd (ptable (fkern s) ! p) of None \<Rightarrow> Panic ''trap'' | Some ip \<Rightarrow> idup ip s))
     (\<lambda>ip. namex_loop (Suc (length path)) ip path par [])"

definition namei :: "bytes \<Rightarrow> fs \<Rightarrow> (nat option, fs) outcome" where
  "namei path s = bindR (namex path False s) (\<lambda>r. Ret (fst r))"

definition nameiparent :: "bytes \<Rightarrow> fs \<Rightarrow> (nat option \<times> bytes, fs) outcome" where
  "nameiparent path s = namex path True s"

section \<open>Path elements\<close>

text \<open>The reference: a path cut at its slashes, without the empty pieces.\<close>

fun cut_path :: "bytes \<Rightarrow> bytes list" where
  "cut_path [] = [[]]"
| "cut_path (c # cs) = (if c = slash then [] # cut_path cs else (c # hd (cut_path cs)) # tl (cut_path cs))"

definition path_elems :: "bytes \<Rightarrow> bytes list" where
  "path_elems path = filter (\<lambda>e. e \<noteq> []) (cut_path path)"

lemma cut_path_nonempty: "cut_path path \<noteq> []"
  by (cases path) auto

lemma path_elems_slash [simp]: "path_elems [] = []" "path_elems (slash # cs) = path_elems cs"
  by (simp_all add: path_elems_def)

lemma path_elems_skip: "path_elems (dropWhile (\<lambda>c. c = slash) path) = path_elems path"
  by (induction path) auto

lemma cut_path_first:
  "cut_path path = takeWhile (\<lambda>c. c \<noteq> slash) path #
     (case dropWhile (\<lambda>c. c \<noteq> slash) path of [] \<Rightarrow> [] | _ # cs \<Rightarrow> cut_path cs)"
  by (induction path) auto

lemma path_elems_first:
  assumes "path \<noteq> []" "hd path \<noteq> slash"
  shows "path_elems path = takeWhile (\<lambda>c. c \<noteq> slash) path # path_elems (dropWhile (\<lambda>c. c \<noteq> slash) path)"
proof -
  let ?q = "dropWhile (\<lambda>c. c \<noteq> slash) path"
  have t: "takeWhile (\<lambda>c. c \<noteq> slash) path \<noteq> []" using assms by (cases path) auto
  show ?thesis
  proof (cases ?q)
    case Nil
    then show ?thesis using t cut_path_first [of path] by (simp add: path_elems_def del: dropWhile_eq_Nil_conv)
  next
    case (Cons c cs)
    then have "c = slash" using hd_dropWhile [of "\<lambda>c. c \<noteq> slash" path] by (simp del: dropWhile_eq_Nil_conv)
    then show ?thesis using t Cons cut_path_first [of path] by (simp add: path_elems_def)
  qed
qed

lemma takeWhile_dropWhile: "takeWhile P (dropWhile P xs) = []"
  by (induction xs) auto

lemma hd_dropWhile_slash: "dropWhile (\<lambda>c. c = slash) path \<noteq> [] \<Longrightarrow> hd (dropWhile (\<lambda>c. c = slash) path) \<noteq> slash"
  by (rule hd_dropWhile)

lemma path_elems_empty: "path_elems (dropWhile (\<lambda>c. c = slash) path) = [] \<longleftrightarrow> dropWhile (\<lambda>c. c = slash) path = []"
proof (cases "dropWhile (\<lambda>c. c = slash) path = []")
  case True
  then show ?thesis unfolding True by simp
next
  case False
  then show ?thesis using path_elems_first [OF False hd_dropWhile_slash [OF False]] by simp
qed

text \<open>
  C0. \<open>skipelem\<close> takes a path apart as the reference does, whatever slashes lead, follow or
  repeat: it fails exactly when no element is left; otherwise it copies the first element, cut
  to \<open>DIRSIZ\<close> bytes, and returns a path that starts without slash, has the remaining elements,
  and is empty exactly when the element was the last.
\<close>

theorem skipelem_elements:
  "case path_elems path of
     [] \<Rightarrow> skipelem path = None
   | e # es \<Rightarrow> \<exists>rest. skipelem path = Some (rest, take DIRSIZ e) \<and> path_elems rest = es \<and>
       takeWhile (\<lambda>c. c = slash) rest = [] \<and> (rest = [] \<longleftrightarrow> es = [])"
proof (cases "dropWhile (\<lambda>c. c = slash) path = []")
  case True
  then have "path_elems path = []" using path_elems_empty [of path] unfolding path_elems_skip by blast
  then show ?thesis using True by (simp add: skipelem_def)
next
  case False
  let ?p = "dropWhile (\<lambda>c. c = slash) path"
  let ?q = "dropWhile (\<lambda>c. c \<noteq> slash) ?p"
  let ?r = "dropWhile (\<lambda>c. c = slash) ?q"
  have "path_elems path = takeWhile (\<lambda>c. c \<noteq> slash) ?p # path_elems ?q"
    using path_elems_first [OF False hd_dropWhile_slash [OF False]] path_elems_skip [of path] by simp
  moreover have "skipelem path = Some (?r, take DIRSIZ (takeWhile (\<lambda>c. c \<noteq> slash) ?p))"
    using False by (simp add: skipelem_def Let_def)
  moreover have "path_elems ?r = path_elems ?q" by (rule path_elems_skip)
  moreover have "takeWhile (\<lambda>c. c = slash) ?r = []"
    by (rule takeWhile_dropWhile)
  ultimately show ?thesis
    using path_elems_empty [of ?q] by auto
qed

end
