(* ===== verification/Kalloc.thy ===== *)
theory Kalloc
  imports Console
begin

text \<open>
  The physical page allocator (\<open>src/kalloc.c\<close>). A free page holds in its first word the
  address of the next free page, so the free list is a chain through physical memory.
  \<open>free_list\<close> reads that chain as a list; \<open>kalloc\<close> and \<open>kfree\<close> are shown to implement the
  operations of a stack of distinct pages (the locale \<open>page_stack\<close>), touching nothing but the
  pages on the list.
\<close>

section \<open>kalloc.c\<close>

definition kfree :: "u32 \<Rightarrow> kern \<Rightarrow> (unit, kern) outcome" where
  "kfree v k =
     (if unat v mod 4096 \<noteq> 0 \<or> v < sym_end (syms k) \<or> v2p v \<ge> PHYSTOP then Panic ''kfree''
      else let k = k\<lparr>ram := memset (v2p v) 1 PGSIZE (ram k)\<rparr>
           in bindR (if use_lock k then kacquire KMEM k else Ret () k) (\<lambda>_ k.
              let k = (kstore32 v (freelist k) k)\<lparr>freelist := v\<rparr>
              in if use_lock k then krelease KMEM k else Ret () k))"

definition kalloc :: "kern \<Rightarrow> (u32, kern) outcome" where
  "kalloc k =
     bindR (if use_lock k then kacquire KMEM k else Ret () k) (\<lambda>_ k.
     let r = freelist k;
         k = (if r \<noteq> 0 then k\<lparr>freelist := kload32 r k\<rparr> else k)
     in bindR (if use_lock k then krelease KMEM k else Ret () k) (\<lambda>_. Ret r))"

text \<open>
  The loop of \<open>freerange\<close>; there are \<open>2 ^ 20\<close> pages, and the loop ends before the counter
  returns to a page it has visited.
\<close>

fun freerange_loop :: "nat \<Rightarrow> u32 \<Rightarrow> u32 \<Rightarrow> kern \<Rightarrow> (unit, kern) outcome" where
  "freerange_loop 0 p vend k = Diverge"
| "freerange_loop (Suc n) p vend k =
     (if p + PGSIZE \<le> vend then bindR (kfree p k) (\<lambda>_. freerange_loop n (p + PGSIZE) vend) else Ret () k)"

definition freerange :: "u32 \<Rightarrow> u32 \<Rightarrow> kern \<Rightarrow> (unit, kern) outcome" where
  "freerange vstart vend k = freerange_loop (Suc (2 ^ 20)) (PGROUNDUP vstart) vend k"

definition kinit1 :: "u32 \<Rightarrow> u32 \<Rightarrow> kern \<Rightarrow> (unit, kern) outcome" where
  "kinit1 vstart vend k =
     freerange vstart vend (k\<lparr>km := initlock KMEM ''kmem'' (km k), use_lock := False\<rparr>)"

definition kinit2 :: "u32 \<Rightarrow> u32 \<Rightarrow> kern \<Rightarrow> (unit, kern) outcome" where
  "kinit2 vstart vend k = bindR (freerange vstart vend k) (\<lambda>_ k. Ret () (k\<lparr>use_lock := True\<rparr>))"

section \<open>The free list\<close>

text \<open>A page the allocator manages: aligned, above the kernel image, within physical memory.\<close>

definition kpage :: "kern \<Rightarrow> u32 \<Rightarrow> bool" where
  "kpage k p \<longleftrightarrow> page_aligned p \<and> sym_end (syms k) \<le> p \<and> v2p p < PHYSTOP"

fun chain :: "mem \<Rightarrow> u32 \<Rightarrow> u32 list \<Rightarrow> bool" where
  "chain m h [] \<longleftrightarrow> h = 0"
| "chain m h (p # ps) \<longleftrightarrow> h = p \<and> chain m (load32 (v2p p) m) ps"

definition free_list :: "kern \<Rightarrow> u32 list \<Rightarrow> bool" where
  "free_list k ps \<longleftrightarrow> KERNBASE \<le> sym_end (syms k) \<and> chain (ram k) (freelist k) ps \<and> distinct ps \<and>
     (\<forall>p \<in> set ps. kpage k p)"

text \<open>Memory outside a set of pages is unchanged.\<close>

definition same_outside :: "u32 set \<Rightarrow> mem \<Rightarrow> mem \<Rightarrow> bool" where
  "same_outside P m m' \<longleftrightarrow> (\<forall>x. page x \<notin> (\<lambda>p. page (v2p p)) ` P \<longrightarrow> m' x = m x)"

lemma same_outside_refl [simp]: "same_outside P m m"
  by (simp add: same_outside_def)

lemma same_outside_trans: "same_outside P a b \<Longrightarrow> same_outside Q b c \<Longrightarrow> same_outside (P \<union> Q) a c"
  by (simp add: same_outside_def image_Un)

lemma same_outside_mono: "same_outside P a b \<Longrightarrow> P \<subseteq> Q \<Longrightarrow> same_outside Q a b"
  by (auto simp: same_outside_def)

lemma page_aligned_v2p: "page_aligned (v2p p) \<longleftrightarrow> page_aligned p"
  using page_aligned_add [of KERNBASE "v2p p"] by (simp add: v2p_def page_aligned_def)

lemma kpage_inj:
  assumes "page_aligned p" "page_aligned q" "page (v2p p) = page (v2p q)"
  shows "p = q"
proof -
  have "v2p p = v2p q" using assms by (intro page_aligned_eq) (simp_all add: page_aligned_v2p)
  then show ?thesis by (simp add: v2p_def)
qed

lemma page_aligned_4: "page_aligned a \<Longrightarrow> unat a mod 4 = 0"
  by (auto simp: page_aligned_def intro: mod_0_imp_dvd dvd_trans)

lemma chain_cong:
  assumes "chain m h ps" "\<forall>p \<in> set ps. load32 (v2p p) m' = load32 (v2p p) m"
  shows "chain m' h ps"
  using assms by (induction ps arbitrary: h) auto

text \<open>Writing to pages that are not on the list leaves the list as it is.\<close>

lemma chain_same_outside:
  assumes "chain m h ps" "\<forall>p \<in> set ps. page_aligned p" "same_outside P m m'" "P \<inter> set ps = {}"
    "\<forall>p \<in> P. page_aligned p"
  shows "chain m' h ps"
proof (rule chain_cong [OF assms(1)], rule ballI)
  fix p
  assume p: "p \<in> set ps"
  then have al: "page_aligned (v2p p)" using assms(2) by (simp add: page_aligned_v2p)
  have "page (v2p p) \<notin> (\<lambda>q. page (v2p q)) ` P"
    using kpage_inj [of p] p assms(2,4,5) by auto
  then show "load32 (v2p p) m' = load32 (v2p p) m"
    using assms(3) by (intro load32_cong page_aligned_4 [OF al]) (auto simp: same_outside_def)
qed

lemma free_list_ram:
  assumes "free_list k ps" "same_outside P (ram k) m" "P \<inter> set ps = {}" "\<forall>p \<in> P. page_aligned p"
  shows "free_list (k\<lparr>ram := m\<rparr>) ps"
  using assms chain_same_outside [of "ram k" "freelist k" ps P m]
  by (auto simp: free_list_def kpage_def)

text \<open>What the allocator may change besides the free list and the memory of free pages: nothing.\<close>

definition pframe :: "kern \<Rightarrow> kern \<Rightarrow> bool" where
  "pframe k k' \<longleftrightarrow> kframe (k\<lparr>ram := ram k', freelist := freelist k'\<rparr>) k'"

lemma pframe_refl [simp]: "pframe k k"
  by (simp add: pframe_def)

lemma kframe_pframe: "kframe k k' \<Longrightarrow> pframe k k'"
  using kframe_sel [of k k'] by (simp add: pframe_def)

lemma pframe_trans: "pframe a b \<Longrightarrow> pframe b c \<Longrightarrow> pframe a c"
proof -
  assume ab: "pframe a b" and bc: "pframe b c"
  have "kframe (a\<lparr>ram := ram c, freelist := freelist c\<rparr>) (b\<lparr>ram := ram c, freelist := freelist c\<rparr>)"
    using ab by (simp add: pframe_def kframe_def kern.truncate_def)
  then show ?thesis using bc by (auto simp: pframe_def intro: kframe_trans)
qed

lemma pframe_sel:
  assumes "pframe k k'"
  shows "ptable k' = ptable k" "initproc k' = initproc k" "nextpid k' = nextpid k" "kpgdir k' = kpgdir k"
    "ticks k' = ticks k" "curproc k' = curproc k" "use_lock k' = use_lock k" "syms k' = syms k" "con k' = con k"
    "self (km k') = self (km k)" "pipes k' = pipes k"
  using kframe_sel [OF assms [unfolded pframe_def]] by (simp_all add: curproc_def)

lemma pframe_upd: "pframe k (k\<lparr>ram := m, freelist := h\<rparr>)" "pframe k (k\<lparr>ram := m\<rparr>)" "pframe k (k\<lparr>freelist := h\<rparr>)"
  by (simp_all add: pframe_def kframe_def kern.truncate_def)

lemma free_list_cong:
  assumes "syms k' = syms k" "ram k' = ram k" "freelist k' = freelist k"
  shows "free_list k' ps = free_list k ps"
  using assms by (simp add: free_list_def kpage_def)

lemma kmem_lock_wp:
  assumes "hasl (km k) ls" "KMEM \<notin> set ls"
  shows "wp (if use_lock k then kacquire KMEM k else Ret () k)
    (\<lambda>_ k'. hasl (km k') (if use_lock k then KMEM # ls else ls) \<and> kframe k k')"
  using kacquire_wp [OF assms] assms by simp

lemma kmem_unlock_wp:
  assumes "hasl (km k) (if use_lock k then KMEM # ls else ls)"
  shows "wp (if use_lock k then krelease KMEM k else Ret () k) (\<lambda>_ k'. hasl (km k') ls \<and> kframe k k')"
  using krelease_wp [of k "KMEM # ls" KMEM] assms by (simp split: if_splits)

lemma kfree_wp:
  assumes h: "hasl (km k) ls" "KMEM \<notin> set ls" and f: "free_list k ps" and v: "kpage k v" "v \<notin> set ps"
  shows "wp (kfree v k) (\<lambda>_ k'. hasl (km k') ls \<and> free_list k' (v # ps) \<and> same_outside {v} (ram k) (ram k') \<and> pframe k k')"
proof -
  have al: "page_aligned v" "page_aligned (v2p v)" using v(1) by (simp_all add: kpage_def page_aligned_v2p)
  let ?m = "memset (v2p v) 1 PGSIZE (ram k)"
  let ?k = "k\<lparr>ram := ?m\<rparr>"
  let ?n = "store32 (v2p v) (freelist k) ?m"
  have same: "same_outside {v} (ram k) ?n"
    using al store32_apply_other [OF page_aligned_4 [OF al(2)]] by (auto simp: same_outside_def memset_page)
  have free: "free_list (k\<lparr>ram := ?n, freelist := v\<rparr>) (v # ps)"
    using free_list_ram [OF f same] v al(1) f by (auto simp: free_list_def kpage_def)
  have unlock: "wp (if use_lock k2 then krelease KMEM k2 else Ret () k2)
      (\<lambda>_ k'. hasl (km k') ls \<and> free_list k' (v # ps) \<and> same_outside {v} (ram k) (ram k') \<and> pframe k k')"
    if k1: "hasl (km k1) (if use_lock ?k then KMEM # ls else ls)" "kframe ?k k1"
      and k2: "k2 = (kstore32 v (freelist k1) k1)\<lparr>freelist := v\<rparr>" for k1 k2
  proof -
    note sel = kframe_sel [OF k1(2)]
    have r2: "ram k2 = ?n" "freelist k2 = v" "use_lock k2 = use_lock k" "km k2 = km k1"
      using sel k2 by (simp_all add: kstore32_def)
    have "pframe k k1" using pframe_upd(2) [of k ?m] kframe_pframe [OF k1(2)] by (rule pframe_trans)
    moreover have "pframe k1 k2" unfolding k2 kstore32_def using pframe_upd(1) by simp
    ultimately have p2: "pframe k k2" by (rule pframe_trans)
    have fr: "free_list k2 (v # ps)"
      using free_list_cong [of k2 "k\<lparr>ram := ?n, freelist := v\<rparr>"] pframe_sel(8) [OF p2] r2 free by simp
    have h2: "hasl (km k2) (if use_lock k2 then KMEM # ls else ls)" using k1(1) r2 by simp
    show ?thesis
    proof (rule wp_mono [OF kmem_unlock_wp [OF h2]], elim conjE)
      fix k'
      assume k': "hasl (km k') ls" "kframe k2 k'"
      have "free_list k' (v # ps)" using fr kframe_sel [OF k'(2)] free_list_cong [of k' k2] by simp
      then show "hasl (km k') ls \<and> free_list k' (v # ps) \<and> same_outside {v} (ram k) (ram k') \<and> pframe k k'"
        using k' fr same r2 kframe_sel [OF k'(2)] pframe_trans [OF p2 kframe_pframe [OF k'(2)]] by simp
    qed
  qed
  have ok: "\<not> (unat v mod 4096 \<noteq> 0 \<or> v < sym_end (syms k) \<or> v2p v \<ge> PHYSTOP)"
    using v(1) by (auto simp: kpage_def page_aligned_def)
  have h': "hasl (km ?k) ls" using h(1) by simp
  show ?thesis
    unfolding kfree_def if_not_P [OF ok] Let_def wp_bindR
    by (rule wp_mono [OF kmem_lock_wp [OF h' h(2)]]) (use unlock in blast)
qed

lemma kalloc_wp:
  assumes h: "hasl (km k) ls" "KMEM \<notin> set ls" and f: "free_list k ps"
  shows "wp (kalloc k) (\<lambda>r k'. hasl (km k') ls \<and> ram k' = ram k \<and> pframe k k' \<and>
    (case ps of [] \<Rightarrow> r = 0 \<and> free_list k' [] | p # qs \<Rightarrow> r = p \<and> free_list k' qs))"
proof -
  let ?Q = "\<lambda>r k'. hasl (km k') ls \<and> ram k' = ram k \<and> pframe k k' \<and>
    (case ps of [] \<Rightarrow> r = 0 \<and> free_list k' [] | p # qs \<Rightarrow> r = p \<and> free_list k' qs)"
  let ?take = "\<lambda>k1. if freelist k1 \<noteq> 0 then k1\<lparr>freelist := kload32 (freelist k1) k1\<rparr> else k1"
  have unlock: "wp (if use_lock (?take k1) then krelease KMEM (?take k1) else Ret () (?take k1)) (\<lambda>_ k'. ?Q (freelist k1) k')"
    if k1: "hasl (km k1) (if use_lock k then KMEM # ls else ls)" "kframe k k1" for k1
  proof -
    note sel = kframe_sel [OF k1(2)]
    have nz: "p \<noteq> 0" if "kpage k p" for p
      using that f by (auto simp: kpage_def free_list_def)
    have f1: "free_list k1 ps" using free_list_cong [of k1 k] sel f by simp
    have t: "km (?take k1) = km k1" "use_lock (?take k1) = use_lock k" "ram (?take k1) = ram k" using sel by simp_all
    have p2: "pframe k (?take k1)"
      using pframe_trans [OF kframe_pframe [OF k1(2)] pframe_upd(3)] kframe_pframe [OF k1(2)] by simp
    have res: "case ps of [] \<Rightarrow> freelist k1 = 0 \<and> free_list (?take k1) []
        | p # qs \<Rightarrow> freelist k1 = p \<and> free_list (?take k1) qs"
      using f f1 nz sel by (cases ps) (auto simp: free_list_def kpage_def kload32_def)
    have h2: "hasl (km (?take k1)) (if use_lock (?take k1) then KMEM # ls else ls)" unfolding t by (rule k1(1))
    show ?thesis
    proof (rule wp_mono [OF kmem_unlock_wp [OF h2]], elim conjE)
      fix k'
      assume k': "hasl (km k') ls" "kframe (?take k1) k'"
      have "free_list k' qs = free_list (?take k1) qs" for qs
        using kframe_sel [OF k'(2)] by (intro free_list_cong) simp_all
      then have "case ps of [] \<Rightarrow> freelist k1 = 0 \<and> free_list k' [] | p # qs \<Rightarrow> freelist k1 = p \<and> free_list k' qs"
        using res by (simp only:)
      then show "?Q (freelist k1) k'"
        using k'(1) t(3) kframe_sel(8) [OF k'(2)] pframe_trans [OF p2 kframe_pframe [OF k'(2)]] by simp
    qed
  qed
  show ?thesis
    unfolding kalloc_def Let_def wp_bindR wp_simps(1)
    by (rule wp_mono [OF kmem_lock_wp [OF h]]) (use unlock in blast)
qed

text \<open>The pages \<open>p\<close>, \<open>p + PGSIZE\<close>, \dots that fit below \<open>vend\<close> are put on the list, the last one first.\<close>

fun pages_from :: "nat \<Rightarrow> u32 \<Rightarrow> u32 list" where
  "pages_from 0 p = []"
| "pages_from (Suc n) p = p # pages_from n (p + PGSIZE)"

lemma unat_add_pgsize: "unat p + 4096 < 2 ^ 32 \<Longrightarrow> unat (p + PGSIZE) = unat p + 4096"
  using unat_word_ariths(1) [of p PGSIZE] by simp

lemma set_pages_from:
  assumes "page_aligned p" "unat p + 4096 * n < 2 ^ 32"
  shows "set (pages_from n p) = {q. page_aligned q \<and> unat p \<le> unat q \<and> unat q < unat p + 4096 * n}"
  using assms
proof (induction n arbitrary: p)
  case 0
  then show ?case by auto
next
  case (Suc n)
  have up: "unat (p + PGSIZE) = unat p + 4096" using Suc.prems by (intro unat_add_pgsize) simp
  have al: "page_aligned (p + PGSIZE)" using Suc.prems by simp
  have IH: "set (pages_from n (p + PGSIZE)) = {q. page_aligned q \<and> unat p + 4096 \<le> unat q \<and> unat q < unat p + 4096 + 4096 * n}"
    using Suc.IH [OF al] Suc.prems up by simp
  have gap: "q = p" if q: "page_aligned q" "unat p \<le> unat q" "unat q < unat p + 4096" for q
  proof -
    have "unat q - unat p < 4096" using q(2,3) by linarith
    then have "page q = page p"
      using in_page_iff [OF Suc.prems(1), of q] unat_sub [of p q] q(2) by (simp add: word_le_nat_alt word_less_nat_alt)
    then show ?thesis using page_aligned_eq [OF q(1) Suc.prems(1)] by simp
  qed
  have "q = p \<or> unat p + 4096 \<le> unat q" if "page_aligned q" "unat p \<le> unat q" for q
    using gap [OF that] by linarith
  then show ?case using Suc.prems unfolding pages_from.simps list.set IH by auto
qed

lemma freerange_loop_wp:
  assumes h: "hasl (km k) ls" "KMEM \<notin> set ls" and f: "free_list k ps"
    and p: "page_aligned p" "n = 0 \<or> unat p + 4096 * n \<le> unat vend" "unat vend < unat p + 4096 * Suc n" "n < fuel"
    and vend: "unat vend + 4096 < 2 ^ 32" "unat p + 4096 < 2 ^ 32" "\<forall>q \<in> set (pages_from n p). kpage k q \<and> q \<notin> set ps"
  shows "wp (freerange_loop fuel p vend k) (\<lambda>_ k'. hasl (km k') ls \<and> free_list k' (rev (pages_from n p) @ ps) \<and> pframe k k')"
  using assms
proof (induction fuel arbitrary: k ps p n)
  case 0
  then show ?case by simp
next
  case (Suc fuel)
  have up: "unat (p + PGSIZE) = unat p + 4096" using Suc.prems by (intro unat_add_pgsize) simp
  show ?case
  proof (cases n)
    case 0
    then have "\<not> p + PGSIZE \<le> vend" using Suc.prems(6) up by (simp add: word_le_nat_alt)
    then show ?thesis using Suc.prems 0 by simp
  next
    case (Suc m)
    have fits: "p + PGSIZE \<le> vend" using Suc.prems(5) up Suc by (simp add: word_le_nat_alt)
    have al: "page_aligned (p + PGSIZE)" using Suc.prems(4) by simp
    have rest: "set (pages_from m (p + PGSIZE)) = {q. page_aligned q \<and> unat p + 4096 \<le> unat q \<and> unat q < unat p + 4096 + 4096 * m}"
      using set_pages_from [OF al, of m] up Suc.prems(5,8) Suc by simp
    have v: "kpage k p" "p \<notin> set ps" using Suc.prems(10) Suc by simp_all
    show ?thesis
      unfolding freerange_loop.simps if_P [OF fits] wp_bindR
    proof (rule wp_mono [OF kfree_wp [OF Suc.prems(1,2,3) v]], elim conjE)
      fix k1
      assume k1: "hasl (km k1) ls" "free_list k1 (p # ps)" "same_outside {p} (ram k) (ram k1)" "pframe k k1"
      have "\<forall>q \<in> set (pages_from m (p + PGSIZE)). kpage k1 q \<and> q \<notin> set (p # ps)"
        using Suc.prems(10) Suc rest pframe_sel(8) [OF k1(4)] by (auto simp: kpage_def)
      from Suc.IH [OF k1(1) Suc.prems(2) k1(2) al _ _ _ Suc.prems(8) _ this]
      have "wp (freerange_loop fuel (p + PGSIZE) vend k1)
          (\<lambda>_ k'. hasl (km k') ls \<and> free_list k' (rev (pages_from m (p + PGSIZE)) @ p # ps) \<and> pframe k1 k')"
        using Suc.prems(5-8) up Suc by simp
      then show "wp (freerange_loop fuel (p + PGSIZE) vend k1)
          (\<lambda>_ k'. hasl (km k') ls \<and> free_list k' (rev (pages_from n p) @ ps) \<and> pframe k k')"
        using Suc pframe_trans [OF k1(4)] by (auto elim!: wp_mono)
    qed
  qed
qed

lemma freerange_wp:
  assumes h: "hasl (km k) ls" "KMEM \<notin> set ls" and f: "free_list k ps"
    and b: "sym_end (syms k) \<le> vstart" "vstart \<le> vend" "vend \<le> p2v PHYSTOP"
    and new: "\<forall>p \<in> set ps. \<not> (vstart \<le> p \<and> p < vend)"
  shows "wp (freerange vstart vend k) (\<lambda>_ k'. hasl (km k') ls \<and> pframe k k' \<and>
    (\<exists>qs. free_list k' (qs @ ps) \<and> set qs = {p. page_aligned p \<and> vstart \<le> p \<and> unat p + 4096 \<le> unat vend}))"
proof -
  let ?p = "PGROUNDUP vstart"
  have top: "unat vend \<le> 0x8E000000" using b(3) by (simp add: word_le_nat_alt p2v_def)
  have le: "unat vstart \<le> unat vend" "unat (sym_end (syms k)) \<le> unat vstart" using b by (simp_all add: word_le_nat_alt)
  have p: "unat ?p = (unat vstart + 4095) div 4096 * 4096" using top le by (intro unat_PGROUNDUP) simp
  have al: "page_aligned ?p" using p by (simp add: page_aligned_def)
  define n where "n = (unat vend - unat ?p) div 4096"
  have n: "n = 0 \<or> unat ?p + 4096 * n \<le> unat vend" "unat vend < unat ?p + 4096 * Suc n" "n < Suc (2 ^ 20)"
    using top by (auto simp: n_def)
  have pv: "unat vstart \<le> unat ?p" "unat ?p \<le> unat vstart + 4095" 
    using p mod_less_divisor [of 4096 "unat vstart + 4095"] minus_mod_eq_div_mult [of "unat vstart + 4095" 4096]
    by linarith+
  have small: "unat ?p + 4096 < 2 ^ 32" "unat vend + 4096 < 2 ^ 32" using pv le top by simp_all
  have low: "unat ?p \<le> unat q" if q: "page_aligned q" "unat vstart \<le> unat q" for q
  proof -
    obtain a where a: "unat q = 4096 * a" using page_alignedE [OF q(1)] .
    have "(unat vstart + 4095) div 4096 \<le> (4096 * a + 4095) div 4096"
      using q(2) a by (intro div_le_mono) simp
    then show ?thesis unfolding p a by simp
  qed
  have set: "set (pages_from n ?p) = {q. page_aligned q \<and> vstart \<le> q \<and> unat q + 4096 \<le> unat vend}"
  proof -
    have "unat ?p + 4096 * n < 2 ^ 32" using n(1) small by auto
    from set_pages_from [OF al this] have "set (pages_from n ?p) =
        {q. page_aligned q \<and> unat ?p \<le> unat q \<and> unat q < unat ?p + 4096 * n}" .
    moreover have "unat ?p \<le> unat q \<and> unat q < unat ?p + 4096 * n \<longleftrightarrow> unat vstart \<le> unat q \<and> unat q + 4096 \<le> unat vend"
      if q: "page_aligned q" for q
    proof -
      obtain a c where ac: "unat q = 4096 * a" "unat ?p = 4096 * c"
        using page_alignedE [OF q] page_alignedE [OF al] by metis
      have "unat q + 4096 \<le> unat ?p + 4096 * n" if "unat q < unat ?p + 4096 * n"
      proof -
        have "a < c + n" using that ac by linarith
        then have "4096 * (a + 1) \<le> 4096 * (c + n)" by (intro mult_le_mono2) simp
        then show ?thesis unfolding ac distrib_left by simp
      qed
      then show ?thesis using low [OF q] pv(1) n(1,2) by (cases "n = 0") auto
    qed
    ultimately show ?thesis by (auto simp: word_le_nat_alt)
  qed
  have kb: "KERNBASE \<le> sym_end (syms k)" using f by (simp add: free_list_def)
  have "kpage k q \<and> q \<notin> set ps" if "q \<in> set (pages_from n ?p)" for q
  proof -
    have q: "page_aligned q" "vstart \<le> q" "unat q + 4096 \<le> unat vend" using that set by auto
    have "q < vend" using q(3) by (simp add: word_less_nat_alt)
    moreover have end_q: "sym_end (syms k) \<le> q" using b(1) q(2) by simp
    moreover have "v2p q < PHYSTOP"
    proof -
      have "unat (v2p q) = unat q - unat KERNBASE"
        unfolding v2p_def using kb end_q by (intro unat_sub) simp
      then show ?thesis using q(3) top by (simp add: word_less_nat_alt)
    qed
    ultimately show ?thesis using q new by (auto simp: kpage_def)
  qed
  then have kp: "\<forall>q \<in> set (pages_from n ?p). kpage k q \<and> q \<notin> set ps" by blast
  show ?thesis
    unfolding freerange_def
  proof (rule wp_mono [OF freerange_loop_wp [OF h f al n small(2) small(1) kp]], elim conjE)
    fix k'
    assume "hasl (km k') ls" "free_list k' (rev (pages_from n ?p) @ ps)" "pframe k k'"
    then show "hasl (km k') ls \<and> pframe k k' \<and>
      (\<exists>qs. free_list k' (qs @ ps) \<and> set qs = {p. page_aligned p \<and> vstart \<le> p \<and> unat p + 4096 \<le> unat vend})"
      unfolding set [symmetric] by (metis set_rev)
  qed
qed

section \<open>The allocator as a stack of pages\<close>

text \<open>
  The contract the rest of the kernel relies on: taking a page returns the most recently freed
  one, or \<open>null\<close> when there is none; a page that is in range and not free can be freed.
\<close>

locale page_stack =
  fixes inv :: "'s \<Rightarrow> 'p list \<Rightarrow> bool"
    and alloc :: "'s \<Rightarrow> ('p, 's) outcome"
    and free :: "'p \<Rightarrow> 's \<Rightarrow> (unit, 's) outcome"
    and null :: 'p
    and ok :: "'s \<Rightarrow> 'p \<Rightarrow> bool"
  assumes alloc_none: "inv s [] \<Longrightarrow> wp (alloc s) (\<lambda>r t. r = null \<and> inv t [] \<and> ok t = ok s)"
    and alloc_top: "inv s (p # ps) \<Longrightarrow> wp (alloc s) (\<lambda>r t. r = p \<and> inv t ps \<and> ok t = ok s)"
    and free_push: "inv s ps \<Longrightarrow> ok s p \<Longrightarrow> p \<notin> set ps \<Longrightarrow> wp (free p s) (\<lambda>_ t. inv t (p # ps) \<and> ok t = ok s)"
    and pages: "inv s ps \<Longrightarrow> distinct ps \<and> (\<forall>p \<in> set ps. ok s p)"
begin

text \<open>Giving back the page just taken restores the stack.\<close>

lemma alloc_free:
  assumes "inv s (p # ps)"
  shows "wp (bindR (alloc s) free) (\<lambda>_ t. inv t (p # ps))"
proof -
  have p: "p \<notin> set ps" "ok s p" using pages [OF assms] by auto
  have "wp (free p t) (\<lambda>_ u. inv u (p # ps))" if "inv t ps" "ok t = ok s" for t
    by (rule wp_mono [OF free_push [OF that(1) _ p(1)]]) (use p(2) that(2) in simp_all)
  then show ?thesis
    unfolding wp_bindR by (intro wp_mono [OF alloc_top [OF assms]]) auto
qed

end

interpretation kmem_stack: page_stack "\<lambda>k ps. hasl (km k) ls \<and> KMEM \<notin> set ls \<and> free_list k ps" kalloc kfree 0 kpage for ls
proof
  fix s p ps
  have ok: "kpage t = kpage s" if "pframe s t" for t
    using pframe_sel(8) [OF that] by (simp add: fun_eq_iff kpage_def)
  show "hasl (km s) ls \<and> KMEM \<notin> set ls \<and> free_list s [] \<Longrightarrow>
      wp (kalloc s) (\<lambda>r t. r = 0 \<and> (hasl (km t) ls \<and> KMEM \<notin> set ls \<and> free_list t []) \<and> kpage t = kpage s)"
    by (elim conjE, rule wp_mono [OF kalloc_wp [of s ls "[]"]]) (auto dest: ok)
  show "hasl (km s) ls \<and> KMEM \<notin> set ls \<and> free_list s (p # ps) \<Longrightarrow>
      wp (kalloc s) (\<lambda>r t. r = p \<and> (hasl (km t) ls \<and> KMEM \<notin> set ls \<and> free_list t ps) \<and> kpage t = kpage s)"
    by (elim conjE, rule wp_mono [OF kalloc_wp [of s ls "p # ps"]]) (auto dest: ok)
  show "hasl (km s) ls \<and> KMEM \<notin> set ls \<and> free_list s ps \<Longrightarrow> kpage s p \<Longrightarrow> p \<notin> set ps \<Longrightarrow>
      wp (kfree p s) (\<lambda>_ t. (hasl (km t) ls \<and> KMEM \<notin> set ls \<and> free_list t (p # ps)) \<and> kpage t = kpage s)"
    by (elim conjE, rule wp_mono [OF kfree_wp [of s ls ps p]]) (auto dest: ok)
  show "hasl (km s) ls \<and> KMEM \<notin> set ls \<and> free_list s ps \<Longrightarrow> distinct ps \<and> (\<forall>p \<in> set ps. kpage s p)"
    by (simp add: free_list_def)
qed

text \<open>A client's calls, and what a stack of pages answers.\<close>

datatype page_call = CallAlloc | CallFree u32

fun run_calls :: "page_call list \<Rightarrow> kern \<Rightarrow> (u32 list, kern) outcome" where
  "run_calls [] k = Ret [] k"
| "run_calls (CallAlloc # cs) k = bindR (kalloc k) (\<lambda>r k. bindR (run_calls cs k) (\<lambda>rs. Ret (r # rs)))"
| "run_calls (CallFree p # cs) k = bindR (kfree p k) (\<lambda>_. run_calls cs)"

fun stack_calls :: "page_call list \<Rightarrow> u32 list \<Rightarrow> u32 list \<times> u32 list" where
  "stack_calls [] ps = ([], ps)"
| "stack_calls (CallAlloc # cs) ps =
     (let (rs, qs) = stack_calls cs (tl ps) in ((case ps of [] \<Rightarrow> 0 | p # _ \<Rightarrow> p) # rs, qs))"
| "stack_calls (CallFree p # cs) ps = stack_calls cs (p # ps)"

text \<open>Only pages in range that are not free may be freed.\<close>

fun legal_calls :: "kern \<Rightarrow> page_call list \<Rightarrow> u32 list \<Rightarrow> bool" where
  "legal_calls k [] ps \<longleftrightarrow> True"
| "legal_calls k (CallAlloc # cs) ps \<longleftrightarrow> legal_calls k cs (tl ps)"
| "legal_calls k (CallFree p # cs) ps \<longleftrightarrow> kpage k p \<and> p \<notin> set ps \<and> legal_calls k cs (p # ps)"

lemma legal_calls_cong: "kpage k' = kpage k \<Longrightarrow> legal_calls k' cs ps = legal_calls k cs ps"
  by (induction k cs ps rule: legal_calls.induct) auto

lemma run_calls_wp:
  assumes "hasl (km k) ls \<and> KMEM \<notin> set ls \<and> free_list k ps" "legal_calls k cs ps"
  shows "wp (run_calls cs k) (\<lambda>rs k'. (hasl (km k') ls \<and> KMEM \<notin> set ls \<and> free_list k' (snd (stack_calls cs ps))) \<and>
    rs = fst (stack_calls cs ps))"
  using assms
proof (induction cs k arbitrary: ps rule: run_calls.induct)
  case (1 k)
  then show ?case by simp
next
  case (2 cs k)
  have top: "wp (kalloc k) (\<lambda>r t. r = (case ps of [] \<Rightarrow> 0 | p # _ \<Rightarrow> p) \<and>
      (hasl (km t) ls \<and> KMEM \<notin> set ls \<and> free_list t (tl ps)) \<and> kpage t = kpage k)"
    using kmem_stack.alloc_none [where s = k and ls = ls] kmem_stack.alloc_top [where s = k and ls = ls] 2(2)
    by (cases ps) auto
  show ?case
    unfolding run_calls.simps wp_bindR
  proof (rule wp_mono [OF top], elim conjE)
    fix r t
    assume t: "r = (case ps of [] \<Rightarrow> 0 | p # _ \<Rightarrow> p)" "hasl (km t) ls" "KMEM \<notin> set ls" "free_list t (tl ps)" "kpage t = kpage k"
    have "wp (run_calls cs t) (\<lambda>rs k'. (hasl (km k') ls \<and> KMEM \<notin> set ls \<and>
        free_list k' (snd (stack_calls cs (tl ps)))) \<and> rs = fst (stack_calls cs (tl ps)))"
      using 2(1) [where ps = "tl ps"] t 2(3) legal_calls_cong [OF t(5)] by simp
    then show "wp (run_calls cs t) (\<lambda>x s. wp (Ret (r # x) s)
        (\<lambda>rs k'. (hasl (km k') ls \<and> KMEM \<notin> set ls \<and> free_list k' (snd (stack_calls (CallAlloc # cs) ps))) \<and>
          rs = fst (stack_calls (CallAlloc # cs) ps)))"
      using t(1) by (auto elim!: wp_mono simp: case_prod_beta)
  qed
next
  case (3 p cs k)
  have "wp (kfree p k) (\<lambda>_ t. (hasl (km t) ls \<and> KMEM \<notin> set ls \<and> free_list t (p # ps)) \<and> kpage t = kpage k)"
    using 3(2,3) by (intro kmem_stack.free_push) auto
  then show ?case
    unfolding run_calls.simps wp_bindR
  proof (rule wp_mono, elim conjE)
    fix t
    assume t: "hasl (km t) ls" "KMEM \<notin> set ls" "free_list t (p # ps)" "kpage t = kpage k"
    then show "wp (run_calls cs t) (\<lambda>rs k'. (hasl (km k') ls \<and> KMEM \<notin> set ls \<and>
        free_list k' (snd (stack_calls (CallFree p # cs) ps))) \<and> rs = fst (stack_calls (CallFree p # cs) ps))"
      using 3(1) [where ps = "p # ps"] 3(3) legal_calls_cong [OF t(4)] by simp
  qed
qed

section \<open>Properties\<close>

text \<open>
  C25. The page allocator refines a stack of free pages: any sequence of \<open>kalloc\<close> and \<open>kfree\<close>
  calls that frees only pages in range that are not free returns, answers exactly as the stack
  does (null when it is empty), and leaves a free list in memory that holds the stack.
\<close>

theorem kalloc_refines_stack:
  assumes "hasl (km k) ls" "KMEM \<notin> set ls" "free_list k ps" "legal_calls k cs ps"
  shows "wp (run_calls cs k) (\<lambda>rs k'. free_list k' (snd (stack_calls cs ps)) \<and> rs = fst (stack_calls cs ps))"
  using run_calls_wp [of k ls ps cs] assms by (auto elim!: wp_mono)

lemma kern0_free_list: "free_list kern0 []"
  by (simp add: kern0_def free_list_def)

theorem kalloc_refines_stack_witness:
  "\<exists>k. run_calls [CallFree 0x80400000, CallFree 0x80401000, CallAlloc, CallAlloc, CallAlloc] kern0 =
     Ret [0x80401000, 0x80400000, 0] k"
proof -
  have "legal_calls kern0 [CallFree 0x80400000, CallFree 0x80401000, CallAlloc, CallAlloc, CallAlloc] []"
    by (simp add: kern0_def kpage_def page_aligned_def v2p_def)
  from kalloc_refines_stack [OF kern0_hasl _ kern0_free_list this] show ?thesis
    by (auto simp: wp_iff)
qed

text \<open>
  C26. \<open>freerange\<close>, with which the kernel hands its memory to the allocator at boot, returns
  and frees exactly the aligned pages that lie wholly within the range.
\<close>

theorem freerange_frees_range:
  assumes "hasl (km k) ls" "KMEM \<notin> set ls" "free_list k ps"
    "sym_end (syms k) \<le> vstart" "vstart \<le> vend" "vend \<le> p2v PHYSTOP"
    "\<forall>p \<in> set ps. \<not> (vstart \<le> p \<and> p < vend)"
  shows "wp (freerange vstart vend k) (\<lambda>_ k'.
    \<exists>qs. free_list k' (qs @ ps) \<and> set qs = {p. page_aligned p \<and> vstart \<le> p \<and> unat p + 4096 \<le> unat vend})"
  using freerange_wp [OF assms] by (auto elim!: wp_mono)

theorem freerange_frees_range_witness:
  "wp (freerange 0x80200001 0x80400000 kern0) (\<lambda>_ k'. \<exists>qs. free_list k' qs \<and> 0x80201000 \<in> set qs \<and> 0x80200000 \<notin> set qs)"
proof -
  have "wp (freerange 0x80200001 0x80400000 kern0) (\<lambda>_ k'. \<exists>qs. free_list k' (qs @ []) \<and>
      set qs = {p. page_aligned p \<and> 0x80200001 \<le> p \<and> unat p + 4096 \<le> unat (0x80400000 :: u32)})"
    by (rule freerange_frees_range [OF kern0_hasl _ kern0_free_list]) (simp_all add: kern0_def p2v_def)
  then show ?thesis by (rule wp_mono) (auto simp: page_aligned_def)
qed

end
