(* ===== verification/Vm.thy ===== *)
theory Vm
  imports Kalloc
begin

text \<open>
  Page tables (\<open>src/vm.c\<close>). A page directory is a page of physical memory with 1024 entries,
  each absent or the physical address of a page table; the routines read and write these
  entries in memory. \<open>translate\<close> is the walk the hardware does for an address below
  \<open>KERNBASE\<close>; the kernel half of every page table maps \<open>KERNBASE + a\<close> to \<open>a\<close>, which is how
  the kernel's own loads and stores are modelled. \<open>loaduvm\<close>, which reads a file, is in the
  theory of \<open>exec\<close>.
\<close>

section \<open>Loads and stores through the page table\<close>

definition translate :: "u32 \<Rightarrow> u32 \<Rightarrow> mem \<Rightarrow> u32 option" where
  "translate dir va m =
     (let pde = load32 (dir + 4 * word_of_nat (PDX va)) m
      in if pde AND PTE_P = 0 then None
         else let pte = load32 (PTE_ADDR pde + 4 * word_of_nat (PTX va)) m
              in if pte AND PTE_P = 0 then None else Some (PTE_ADDR pte + (va AND 0xFFF)))"

text \<open>The physical address of a byte the kernel touches; a miss is a page fault in the kernel.\<close>

definition phys :: "kern \<Rightarrow> u32 \<Rightarrow> u32 option" where
  "phys k a = (if KERNBASE \<le> a then Some (v2p a) else translate (cr3 (this_cpu (km k))) a (ram k))"

fun vload :: "u32 \<Rightarrow> nat \<Rightarrow> kern \<Rightarrow> bytes option" where
  "vload a 0 k = Some []"
| "vload a (Suc n) k =
     (case phys k a of None \<Rightarrow> None | Some p \<Rightarrow> map_option (\<lambda>bs. ram k p # bs) (vload (a + 1) n k))"

fun vstore :: "u32 \<Rightarrow> bytes \<Rightarrow> kern \<Rightarrow> kern option" where
  "vstore a [] k = Some k"
| "vstore a (b # bs) k =
     (case phys k a of None \<Rightarrow> None | Some p \<Rightarrow> vstore (a + 1) bs (k\<lparr>ram := (ram k)(p := b)\<rparr>))"

definition vread :: "u32 \<Rightarrow> nat \<Rightarrow> kern \<Rightarrow> (bytes, kern) outcome" where
  "vread a n k = (case vload a n k of None \<Rightarrow> Panic ''trap'' | Some bs \<Rightarrow> Ret bs k)"

definition vwrite :: "u32 \<Rightarrow> bytes \<Rightarrow> kern \<Rightarrow> (unit, kern) outcome" where
  "vwrite a bs k = (case vstore a bs k of None \<Rightarrow> Panic ''trap'' | Some k \<Rightarrow> Ret () k)"

definition vread32 :: "u32 \<Rightarrow> kern \<Rightarrow> (u32, kern) outcome" where
  "vread32 a k = bindR (vread a 4 k) (\<lambda>bs. Ret (word_of_nat (le_get bs)))"

definition vwrite32 :: "u32 \<Rightarrow> u32 \<Rightarrow> kern \<Rightarrow> (unit, kern) outcome" where
  "vwrite32 a w k = vwrite a (le_put 4 (unat w)) k"

section \<open>vm.c\<close>

definition walkpgdir :: "u32 \<Rightarrow> u32 \<Rightarrow> bool \<Rightarrow> kern \<Rightarrow> (u32, kern) outcome" where
  "walkpgdir dir va alloc k =
     (let pde = dir + 4 * word_of_nat (PDX va)
      in if kload32 pde k AND PTE_P \<noteq> 0
         then Ret (p2v (PTE_ADDR (kload32 pde k)) + 4 * word_of_nat (PTX va)) k
         else if \<not> alloc then Ret 0 k
         else bindR (kalloc k) (\<lambda>pgtab k.
              if pgtab = 0 then Ret 0 k
              else let k = k\<lparr>ram := memset (v2p pgtab) 0 PGSIZE (ram k)\<rparr>;
                       k = kstore32 pde (v2p pgtab OR PTE_P OR PTE_W OR PTE_U) k
                   in Ret (pgtab + 4 * word_of_nat (PTX va)) k))"

text \<open>The loop of \<open>mappages\<close>: it visits each of the \<open>2 ^ 20\<close> pages at most once.\<close>

fun mappages_loop :: "nat \<Rightarrow> u32 \<Rightarrow> u32 \<Rightarrow> u32 \<Rightarrow> u32 \<Rightarrow> u32 \<Rightarrow> kern \<Rightarrow> (int, kern) outcome" where
  "mappages_loop 0 dir a lst pa perm k = Diverge"
| "mappages_loop (Suc n) dir a lst pa perm k =
     bindR (walkpgdir dir a True k) (\<lambda>pte k.
     if pte = 0 then Ret (- 1) k
     else if kload32 pte k AND PTE_P \<noteq> 0 then Panic ''remap''
     else let k = kstore32 pte (pa OR perm OR PTE_P) k
          in if a = lst then Ret 0 k else mappages_loop n dir (a + PGSIZE) lst (pa + PGSIZE) perm k)"

definition mappages :: "u32 \<Rightarrow> u32 \<Rightarrow> u32 \<Rightarrow> u32 \<Rightarrow> u32 \<Rightarrow> kern \<Rightarrow> (int, kern) outcome" where
  "mappages dir va len pa perm k =
     mappages_loop (2 ^ 20) dir (PGROUNDDOWN va) (PGROUNDDOWN (va + len - 1)) pa perm k"

record kmap_entry =
  virt :: u32
  phys_start :: u32
  phys_end :: u32
  kperm :: u32

abbreviation KERNLINK :: u32 where "KERNLINK \<equiv> KERNBASE + EXTMEM"

definition kmap :: "symtab \<Rightarrow> kmap_entry list" where
  "kmap s =
     [\<lparr>virt = KERNBASE, phys_start = 0, phys_end = EXTMEM, kperm = PTE_W\<rparr>,
      \<lparr>virt = KERNLINK, phys_start = v2p KERNLINK, phys_end = v2p (sym_data s), kperm = 0\<rparr>,
      \<lparr>virt = sym_data s, phys_start = v2p (sym_data s), phys_end = PHYSTOP, kperm = PTE_W\<rparr>,
      \<lparr>virt = DEVSPACE, phys_start = DEVSPACE, phys_end = 0, kperm = PTE_W\<rparr>]"

fun setupkvm_loop :: "u32 \<Rightarrow> kmap_entry list \<Rightarrow> kern \<Rightarrow> (u32, kern) outcome" where
  "setupkvm_loop dir [] k = Ret dir k"
| "setupkvm_loop dir (e # es) k =
     bindR (mappages dir (virt e) (phys_end e - phys_start e) (phys_start e) (kperm e) k) (\<lambda>r.
     if r < 0 then Ret 0 else setupkvm_loop dir es)"

definition setupkvm :: "kern \<Rightarrow> (u32, kern) outcome" where
  "setupkvm k =
     bindR (kalloc k) (\<lambda>dir k.
     if dir = 0 then Ret 0 k
     else let k = k\<lparr>ram := memset (v2p dir) 0 PGSIZE (ram k)\<rparr>
          in if p2v PHYSTOP > DEVSPACE then Panic ''PHYSTOP too high''
             else setupkvm_loop dir (kmap (syms k)) k)"

definition kvmalloc :: "kern \<Rightarrow> (unit, kern) outcome" where
  "kvmalloc k = bindR (setupkvm k) (\<lambda>dir k. Ret () (switchkvm (k\<lparr>kpgdir := dir\<rparr>)))"

definition inituvm :: "u32 \<Rightarrow> bytes \<Rightarrow> kern \<Rightarrow> (unit, kern) outcome" where
  "inituvm dir init k =
     (if length init \<ge> 4096 then Panic ''inituvm: more than a page''
      else bindR (kalloc k) (\<lambda>m k.
           let k = k\<lparr>ram := memset (v2p m) 0 PGSIZE (ram k)\<rparr>
           in bindR (mappages dir 0 PGSIZE (v2p m) (PTE_W OR PTE_U) k) (\<lambda>_ k.
              Ret () (k\<lparr>ram := store_list (v2p m) init (ram k)\<rparr>))))"

text \<open>
  The loops that step by pages up to an end below \<open>KERNBASE\<close>; \<open>2 ^ 20\<close> steps are enough.
\<close>

fun deallocuvm_loop :: "nat \<Rightarrow> u32 \<Rightarrow> u32 \<Rightarrow> u32 \<Rightarrow> kern \<Rightarrow> (unit, kern) outcome" where
  "deallocuvm_loop 0 dir a oldsz k = Diverge"
| "deallocuvm_loop (Suc n) dir a oldsz k =
     (if a < oldsz
      then bindR (walkpgdir dir a False k) (\<lambda>pte k.
           if pte = 0 then deallocuvm_loop n dir (a + 1023 * PGSIZE + PGSIZE) oldsz k
           else if kload32 pte k AND PTE_P \<noteq> 0
           then let pa = PTE_ADDR (kload32 pte k)
                in if pa = 0 then Panic ''kfree''
                   else bindR (kfree (p2v pa) k) (\<lambda>_ k.
                        deallocuvm_loop n dir (a + PGSIZE) oldsz (kstore32 pte 0 k))
           else deallocuvm_loop n dir (a + PGSIZE) oldsz k)
      else Ret () k)"

definition deallocuvm :: "u32 \<Rightarrow> u32 \<Rightarrow> u32 \<Rightarrow> kern \<Rightarrow> (u32, kern) outcome" where
  "deallocuvm dir oldsz newsz k =
     (if newsz \<ge> oldsz then Ret oldsz k
      else bindR (deallocuvm_loop (Suc (2 ^ 20)) dir (PGROUNDUP newsz) oldsz k) (\<lambda>_. Ret newsz))"

fun allocuvm_loop :: "nat \<Rightarrow> u32 \<Rightarrow> u32 \<Rightarrow> u32 \<Rightarrow> u32 \<Rightarrow> kern \<Rightarrow> (u32, kern) outcome" where
  "allocuvm_loop 0 dir a oldsz newsz k = Diverge"
| "allocuvm_loop (Suc n) dir a oldsz newsz k =
     (if a < newsz
      then bindR (kalloc k) (\<lambda>m k.
           if m = 0
           then bindR (cprintf (''allocuvm out of memory'' @ [CHR 0x0A]) [] k) (\<lambda>_ k.
                bindR (deallocuvm dir newsz oldsz k) (\<lambda>_. Ret 0))
           else bindR (mappages dir a PGSIZE (v2p m) (PTE_W OR PTE_U)
                         (k\<lparr>ram := memset (v2p m) 0 PGSIZE (ram k)\<rparr>)) (\<lambda>_.
                allocuvm_loop n dir (a + PGSIZE) oldsz newsz))
      else Ret newsz k)"

definition allocuvm :: "u32 \<Rightarrow> u32 \<Rightarrow> u32 \<Rightarrow> kern \<Rightarrow> (u32, kern) outcome" where
  "allocuvm dir oldsz newsz k =
     (if newsz \<ge> KERNBASE then Ret 0 k
      else if newsz < oldsz then Ret oldsz k
      else allocuvm_loop (Suc (2 ^ 20)) dir (PGROUNDUP oldsz) oldsz newsz k)"

definition free_table :: "u32 \<Rightarrow> nat \<Rightarrow> kern \<Rightarrow> (unit, kern) outcome" where
  "free_table dir i k =
     (let pde = kload32 (dir + 4 * word_of_nat i) k
      in if pde AND PTE_P \<noteq> 0 then kfree (p2v (PTE_ADDR pde)) k else Ret () k)"

definition freevm :: "u32 \<Rightarrow> kern \<Rightarrow> (unit, kern) outcome" where
  "freevm dir k =
     (if dir = 0 then Panic ''freevm: no pgdir''
      else bindR (deallocuvm dir KERNBASE 0 k) (\<lambda>_ k.
           bindR (foreach (free_table dir) [0..<1024] k) (\<lambda>_. kfree dir)))"

definition clearpteu :: "u32 \<Rightarrow> u32 \<Rightarrow> kern \<Rightarrow> (unit, kern) outcome" where
  "clearpteu dir uva k =
     bindR (walkpgdir dir uva False k) (\<lambda>pte k.
     if pte = 0 then Panic ''clearpteu'' else Ret () (kstore32 pte (kload32 pte k AND NOT PTE_U) k))"

fun copyuvm_loop :: "nat \<Rightarrow> u32 \<Rightarrow> u32 \<Rightarrow> u32 \<Rightarrow> u32 \<Rightarrow> kern \<Rightarrow> (u32, kern) outcome" where
  "copyuvm_loop 0 d dir i len k = Diverge"
| "copyuvm_loop (Suc n) d dir i len k =
     (if i < len
      then bindR (walkpgdir dir i False k) (\<lambda>pte k.
           if pte = 0 then Panic ''copyuvm: pte should exist''
           else if kload32 pte k AND PTE_P = 0 then Panic ''copyuvm: page not present''
           else let pa = PTE_ADDR (kload32 pte k); flags = PTE_FLAGS (kload32 pte k)
                in bindR (kalloc k) (\<lambda>m k.
                   if m = 0 then bindR (freevm d k) (\<lambda>_. Ret 0)
                   else bindR (mappages d i PGSIZE (v2p m) flags
                                 (k\<lparr>ram := memmove (v2p m) pa PGSIZE (ram k)\<rparr>)) (\<lambda>r k.
                        if r < 0 then bindR (freevm d k) (\<lambda>_. Ret 0)
                        else copyuvm_loop n d dir (i + PGSIZE) len k)))
      else Ret d k)"

definition copyuvm :: "u32 \<Rightarrow> u32 \<Rightarrow> kern \<Rightarrow> (u32, kern) outcome" where
  "copyuvm dir len k =
     bindR (setupkvm k) (\<lambda>d k. if d = 0 then Ret 0 k else copyuvm_loop (Suc (2 ^ 20)) d dir 0 len k)"

text \<open>
  \<open>uva2ka\<close> does not test whether \<open>walkpgdir\<close> found an entry: it then reads the word at address 0.
\<close>

definition uva2ka :: "u32 \<Rightarrow> u32 \<Rightarrow> kern \<Rightarrow> (u32, kern) outcome" where
  "uva2ka dir uva k =
     bindR (walkpgdir dir uva False k) (\<lambda>pte k.
     bindR (vread32 pte k) (\<lambda>e k.
     if e AND PTE_P = 0 then Ret 0 k
     else if e AND PTE_U = 0 then Ret 0 k
     else Ret (p2v (PTE_ADDR e)) k))"

text \<open>Every turn of the loop of \<open>copyout\<close> copies a byte at least.\<close>

fun copyout_loop :: "nat \<Rightarrow> u32 \<Rightarrow> u32 \<Rightarrow> bytes \<Rightarrow> kern \<Rightarrow> (int, kern) outcome" where
  "copyout_loop 0 dir va buf k = Diverge"
| "copyout_loop (Suc fuel) dir va buf k =
     (if buf = [] then Ret 0 k
      else let va0 = PGROUNDDOWN va
           in bindR (uva2ka dir va0 k) (\<lambda>pa0 k.
              if pa0 = 0 then Ret (- 1) k
              else let n = unat (PGSIZE - (va - va0)); n = (if n > length buf then length buf else n);
                       k = k\<lparr>ram := store_list (v2p (pa0 + (va - va0))) (take n buf) (ram k)\<rparr>
                   in copyout_loop fuel dir (va0 + PGSIZE) (drop n buf) k))"

definition copyout :: "u32 \<Rightarrow> u32 \<Rightarrow> bytes \<Rightarrow> kern \<Rightarrow> (int, kern) outcome" where
  "copyout dir va p k = copyout_loop (Suc (length p)) dir va p k"

section \<open>Page tables as functions\<close>

definition tslot :: "u32 \<Rightarrow> nat \<Rightarrow> u32" where
  "tslot t i = t + 4 * word_of_nat i"

definition pgtab :: "kern \<Rightarrow> u32 \<Rightarrow> nat \<Rightarrow> u32 option" where
  "pgtab k dir i = (let pde = kload32 (tslot dir i) k in if pde AND PTE_P = 0 then None else Some (p2v (PTE_ADDR pde)))"

text \<open>The page table entry of an address, 0 where there is no page table.\<close>

definition pte_at :: "kern \<Rightarrow> u32 \<Rightarrow> u32 \<Rightarrow> u32" where
  "pte_at k dir va = (case pgtab k dir (PDX va) of None \<Rightarrow> 0 | Some t \<Rightarrow> kload32 (tslot t (PTX va)) k)"

text \<open>
  A page directory in order: it and its page tables are pages of their own, none of them is
  free, and no page table occurs twice.
\<close>

definition vm_ok :: "kern \<Rightarrow> u32 \<Rightarrow> u32 list \<Rightarrow> bool" where
  "vm_ok k dir ps \<longleftrightarrow> kpage k dir \<and> dir \<notin> set ps \<and>
     (\<forall>i < 1024. \<forall>t. pgtab k dir i = Some t \<longrightarrow> kpage k t \<and> t \<noteq> dir \<and> t \<notin> set ps) \<and>
     (\<forall>i < 1024. \<forall>j < 1024. \<forall>t. pgtab k dir i = Some t \<longrightarrow> pgtab k dir j = Some t \<longrightarrow> i = j)"

lemma PDX_less: "PDX va < 1024" and PTX_less: "PTX va < 1024"
  using unsigned_less [of va, where 'a = nat] by (simp_all add: unat_PDX unat_PTX less_mult_imp_div_less)

lemma PDX_PTX_page: "PDX a = PDX b \<and> PTX a = PTX b \<longleftrightarrow> page a = page b"
proof -
  have x: "PDX x = page x div 1024" "PTX x = page x mod 1024" for x
    unfolding unat_PDX unat_PTX page_def using div_mult2_eq [of "unat x" 4096 1024] by simp_all
  show ?thesis
    unfolding x by (metis div_mult_mod_eq)
qed

lemma v2p_tslot: "v2p (tslot t i) = tslot (v2p t) i"
  by (simp add: v2p_def tslot_def)

lemma tslot_unat:
  assumes "page_aligned b" "i < 1024"
  shows "unat (tslot b i) = unat b + 4 * i"
proof -
  obtain a where a: "unat b = 4096 * a" using assms(1) by (rule page_alignedE)
  then have "a < 1048576" using unsigned_less [of b, where 'a = nat] by simp
  then show ?thesis
    using a assms(2) by (simp add: tslot_def unat_word_ariths unat_of_nat)
qed

lemma tslot_page:
  assumes "page_aligned b" "i < 1024"
  shows "page (tslot b i) = page b" "unat (tslot b i) mod 4 = 0"
proof -
  obtain a where a: "unat b = 4096 * a" using assms(1) by (rule page_alignedE)
  then show "page (tslot b i) = page b" "unat (tslot b i) mod 4 = 0"
    using tslot_unat [OF assms] assms(2) by (simp_all add: page_def)
qed

lemma tslot_inj:
  assumes "page_aligned b" "page_aligned c" "i < 1024" "j < 1024"
  shows "tslot b i = tslot c j \<longleftrightarrow> b = c \<and> i = j"
proof
  assume e: "tslot b i = tslot c j"
  then have "page b = page c" using tslot_page(1) assms by metis
  then have "b = c" using page_aligned_eq assms by blast
  moreover from this have "unat b + 4 * i = unat b + 4 * j" using e tslot_unat assms by metis
  ultimately show "b = c \<and> i = j" by simp
qed simp

text \<open>Reading an entry of one table after writing an entry of another.\<close>

lemma kload_kstore_slot:
  assumes "kpage k t" "kpage k u" "i < 1024" "j < 1024"
  shows "kload32 (tslot t i) (kstore32 (tslot u j) v k) = (if t = u \<and> i = j then v else kload32 (tslot t i) k)"
proof -
  have al: "page_aligned (v2p t)" "page_aligned (v2p u)" using assms by (simp_all add: kpage_def page_aligned_v2p)
  have "v2p t = v2p u \<longleftrightarrow> t = u" by (simp add: v2p_def)
  then show ?thesis
    using load32_store32 [of "tslot (v2p t) i" "tslot (v2p u) j" v "ram k"] tslot_page(2) [OF al(1) assms(3)]
      tslot_page(2) [OF al(2) assms(4)] tslot_inj [OF al assms(3,4)]
    by (simp add: kload32_def kstore32_def v2p_tslot)
qed

lemma kload_slot_cong:
  assumes "kpage k t" "i < 1024" "\<And>x. page x = page (v2p t) \<Longrightarrow> ram k' x = ram k x"
  shows "kload32 (tslot t i) k' = kload32 (tslot t i) k"
proof -
  have al: "page_aligned (v2p t)" using assms by (simp add: kpage_def page_aligned_v2p)
  show ?thesis
    unfolding kload32_def v2p_tslot
    using tslot_page [OF al assms(2)] assms(3) by (intro load32_cong) auto
qed

lemma kpage_kstore [simp]: "kpage (kstore32 a v k) = kpage k" "kpage (k\<lparr>ram := m\<rparr>) = kpage k"
  by (simp_all add: kpage_def kstore32_def fun_eq_iff)

lemma translate_pte_at:
  "translate (v2p dir) va (ram k) =
    (if pte_at k dir va AND PTE_P = 0 then None else Some (PTE_ADDR (pte_at k dir va) + (va AND 0xFFF)))"
  by (simp add: translate_def pte_at_def pgtab_def kload32_def v2p_tslot Let_def tslot_def p2v_def v2p_def algebra_simps)

text \<open>Writing the entry that \<open>walkpgdir\<close> found.\<close>

lemma vm_store:
  fixes w :: u32
  assumes ok: "vm_ok k dir ps" and t: "pgtab k dir (PDX va) = Some t" and ps: "free_list k ps"
  defines "k' \<equiv> kstore32 (tslot t (PTX va)) w k"
  shows "pte_at k' dir x = (if page x = page va then w else pte_at k dir x)" "vm_ok k' dir ps" "free_list k' ps"
proof -
  have kt: "kpage k dir" "kpage k t" "t \<noteq> dir" "t \<notin> set ps"
    using ok t PDX_less [of va] by (auto simp: vm_ok_def)
  have tab: "pgtab k' dir i = pgtab k dir i" if "i < 1024" for i
    using kload_kstore_slot [OF kt(1,2) that PTX_less [of va], of w] kt(3) by (simp add: pgtab_def k'_def)
  show "vm_ok k' dir ps"
    using ok tab by (simp add: vm_ok_def k'_def)
  have "pte_at k' dir x = (case pgtab k dir (PDX x) of None \<Rightarrow> 0 | Some u \<Rightarrow> if u = t \<and> PTX x = PTX va then w else kload32 (tslot u (PTX x)) k)"
    using ok tab [OF PDX_less] kload_kstore_slot [OF _ kt(2) PTX_less PTX_less, of _ x va w] PDX_less [of x]
    by (auto simp: pte_at_def k'_def vm_ok_def split: option.split)
  moreover have "pgtab k dir (PDX x) = Some t \<longleftrightarrow> PDX x = PDX va"
    using ok t PDX_less [of x] PDX_less [of va] by (auto simp: vm_ok_def)
  ultimately show "pte_at k' dir x = (if page x = page va then w else pte_at k dir x)"
    using PDX_PTX_page [of x va] by (auto simp: pte_at_def split: option.split)
  have "page_aligned (v2p t)" using kt(2) by (simp add: kpage_def page_aligned_v2p)
  then have "same_outside {t} (ram k) (ram k')"
    using tslot_page [of "v2p t" "PTX va"] PTX_less [of va]
    by (simp add: same_outside_def k'_def kstore32_def v2p_tslot store32_apply_other)
  then have "free_list (k\<lparr>ram := ram k'\<rparr>) ps"
    using ps kt by (intro free_list_ram [where P = "{t}"]) (auto simp: kpage_def)
  then show "free_list k' ps" by (simp add: k'_def kstore32_def)
qed

text \<open>
  \<open>walkpgdir\<close> finds the entry of an address, allocating an empty page table if there is none; it
  changes no entry.
\<close>

lemma load32_zero: "load32 a (\<lambda>_. 0) = 0"
  by (simp add: load32_def eval_nat_numeral)

lemma PTE_ADDR_or:
  assumes "page_aligned a" "f AND NOT 0xFFF = 0"
  shows "PTE_ADDR (a OR f) = a"
proof -
  have "a AND NOT 0xFFF = a"
    using unat_PTE_ADDR [of a] assms(1) by (simp add: PTE_ADDR_def page_aligned_def unsigned_word_eqI)
  then show ?thesis using assms(2) by (simp add: PTE_ADDR_def bit.conj_disj_distrib2)
qed

lemma vm_new_table:
  assumes ok: "vm_ok k dir (t # ps)" and ps: "free_list k (t # ps)" and none: "pgtab k dir (PDX va) = None" and ps': "free_list k' ps"
    and k': "syms k' = syms k" "ram k' = ram k"
  defines "k2 \<equiv> kstore32 (tslot dir (PDX va)) (v2p t OR PTE_P OR PTE_W OR PTE_U) (k'\<lparr>ram := memset (v2p t) 0 PGSIZE (ram k')\<rparr>)"
  shows "pgtab k2 dir (PDX va) = Some t" "vm_ok k2 dir ps" "free_list k2 ps" "pte_at k2 dir x = pte_at k dir x"
proof -
  let ?k1 = "k'\<lparr>ram := memset (v2p t) 0 PGSIZE (ram k')\<rparr>"
  have kp: "kpage k' = kpage k" "kpage k2 = kpage k" using k'(1) by (simp_all add: kpage_def k2_def kstore32_def fun_eq_iff)
  have t: "kpage k t" "kpage k dir" "t \<noteq> dir" "t \<notin> set ps" "dir \<notin> set ps"
    using ok ps by (auto simp: vm_ok_def free_list_def)
  have al: "page_aligned (v2p t)" "page_aligned (v2p dir)" using t by (simp_all add: kpage_def page_aligned_v2p)
  have m: "ram ?k1 x = (if page x = page (v2p t) then 0 else ram k x)" for x
    using memset_page [OF al(1)] k'(2) by simp
  have other: "kload32 (tslot u i) ?k1 = kload32 (tslot u i) k" if "kpage k u" "u \<noteq> t" "i < 1024" for u i
  proof (rule kload_slot_cong [OF that(1,3)])
    have "page (v2p u) \<noteq> page (v2p t)" using kpage_inj [of u t] that t(1) by (auto simp: kpage_def)
    then show "ram ?k1 y = ram k y" if "page y = page (v2p u)" for y using m [of y] that by simp
  qed
  have empty: "kload32 (tslot t i) ?k1 = 0" if "i < 1024" for i
  proof -
    have "load32 (tslot (v2p t) i) (ram ?k1) = load32 (tslot (v2p t) i) (\<lambda>_. 0)"
      using tslot_page [OF al(1) that] m by (intro load32_cong) auto
    then show ?thesis unfolding kload32_def v2p_tslot by (simp add: load32_zero)
  qed
  have store: "kload32 (tslot u i) k2 = (if u = dir \<and> i = PDX va then v2p t OR PTE_P OR PTE_W OR PTE_U else kload32 (tslot u i) ?k1)"
    if "kpage k u" "i < 1024" for u i
    using kload_kstore_slot [of ?k1 u dir i "PDX va"] that t(2) PDX_less [of va] kp(1) by (simp add: k2_def)
  have "PTE_ADDR (v2p t OR (PTE_P OR PTE_W OR PTE_U)) = v2p t" by (rule PTE_ADDR_or [OF al(1)]) simp
  moreover have "(v2p t OR PTE_P OR PTE_W OR PTE_U) AND PTE_P \<noteq> 0"
    by (simp add: bit.conj_disj_distrib2 or_eq_0_iff)
  ultimately have tab: "pgtab k2 dir i = (if i = PDX va then Some t else pgtab k dir i)" if "i < 1024" for i
    using store [OF t(2) that] other [OF t(2) _ that] t(3) by (auto simp: pgtab_def Let_def or.assoc p2v_def v2p_def)
  show "pgtab k2 dir (PDX va) = Some t" using tab PDX_less by simp
  show "vm_ok k2 dir ps"
    using ok t tab unfolding vm_ok_def kp by (auto split: if_splits)
  show "pte_at k2 dir x = pte_at k dir x"
  proof (cases "PDX x = PDX va")
    case True
    then show ?thesis using tab [OF PDX_less] none store [OF t(1) PTX_less] empty [OF PTX_less] t(3) by (simp add: pte_at_def)
  next
    case False
    have "kload32 (tslot u (PTX x)) k2 = kload32 (tslot u (PTX x)) k" if "pgtab k dir (PDX x) = Some u" for u
      using that ok store [of u "PTX x"] other [of u "PTX x"] PDX_less [of x] PTX_less [of x] by (auto simp: vm_ok_def)
    then show ?thesis using False tab [OF PDX_less] by (auto simp: pte_at_def split: option.split)
  qed
  have "same_outside {t, dir} (ram k') (ram k2)"
    using tslot_page [OF al(2) PDX_less] m k'(2)
    by (simp add: same_outside_def k2_def kstore32_def v2p_tslot store32_apply_other)
  then have "free_list (k'\<lparr>ram := ram k2\<rparr>) ps"
    using ps' t kp by (intro free_list_ram [where P = "{t, dir}"]) (auto simp: kpage_def)
  then show "free_list k2 ps" by (simp add: k2_def kstore32_def)
qed

lemma tslot_nonzero: "free_list k ps \<Longrightarrow> kpage k t \<Longrightarrow> i < 1024 \<Longrightarrow> tslot t i \<noteq> 0"
  using tslot_unat [of t i] by (auto simp: free_list_def kpage_def word_le_nat_alt)

lemma kpage_nonzero: "free_list k ps \<Longrightarrow> kpage k t \<Longrightarrow> t \<noteq> 0"
  by (auto simp: free_list_def kpage_def word_le_nat_alt)

lemma walkpgdir_wp:
  assumes h: "hasl (km k) ls" "KMEM \<notin> set ls" and ok: "vm_ok k dir ps" and ps: "free_list k ps"
  shows "wp (walkpgdir dir va True k) (\<lambda>r k'. hasl (km k') ls \<and> pframe k k' \<and> (\<exists>qs. free_list k' qs \<and> vm_ok k' dir qs \<and>
    (\<forall>x. pte_at k' dir x = pte_at k dir x) \<and>
    (if r = 0 then ps = [] else length ps \<le> Suc (length qs) \<and> (\<exists>t. pgtab k' dir (PDX va) = Some t \<and> r = tslot t (PTX va)))))"
proof (cases "pgtab k dir (PDX va)")
  case (Some t)
  then have "kpage k t" using ok PDX_less by (auto simp: vm_ok_def)
  from tslot_nonzero [OF ps this PTX_less] have "tslot t (PTX va) \<noteq> 0" .
  moreover have "walkpgdir dir va True k = Ret (tslot t (PTX va)) k"
    using Some by (simp add: walkpgdir_def pgtab_def tslot_def Let_def split: if_splits)
  ultimately show ?thesis
    using h ok ps Some by auto
next
  case None
  let ?new = "\<lambda>t k'. kstore32 (tslot dir (PDX va)) (v2p t OR PTE_P OR PTE_W OR PTE_U) (k'\<lparr>ram := memset (v2p t) 0 PGSIZE (ram k')\<rparr>)"
  have walk: "walkpgdir dir va True k = bindR (kalloc k) (\<lambda>t k'. if t = 0 then Ret 0 k' else Ret (tslot t (PTX va)) (?new t k'))"
    using None unfolding walkpgdir_def pgtab_def Let_def tslot_def [symmetric] by (simp split: if_splits)
  have keep: "vm_ok k' dir [] \<and> (\<forall>x. pte_at k' dir x = pte_at k dir x)" if "ps = []" "ram k' = ram k" "syms k' = syms k" for k'
    using ok that by (simp add: vm_ok_def pte_at_def pgtab_def kload32_def kpage_def cong: option.case_cong)
  have new: "hasl (km (?new t k')) ls \<and> pframe k (?new t k') \<and> t \<noteq> 0 \<and> tslot t (PTX va) \<noteq> 0 \<and> free_list (?new t k') qs \<and>
      vm_ok (?new t k') dir qs \<and> (\<forall>x. pte_at (?new t k') dir x = pte_at k dir x) \<and> pgtab (?new t k') dir (PDX va) = Some t"
    if k': "hasl (km k') ls" "ram k' = ram k" "pframe k k'" "ps = t # qs" "free_list k' qs" for t qs k'
  proof -
    have "kpage k t" using ps k'(4) by (simp add: free_list_def)
    then have "t \<noteq> 0" "tslot t (PTX va) \<noteq> 0" using kpage_nonzero [OF ps] tslot_nonzero [OF ps _ PTX_less] by auto
    moreover have "pframe k' (?new t k')" by (simp add: kstore32_def pframe_upd)
    moreover have "hasl (km (?new t k')) ls" using k'(1) by (simp add: kstore32_def)
    ultimately show ?thesis
      using vm_new_table [OF ok [unfolded k'(4)] ps [unfolded k'(4)] None k'(5) pframe_sel(8) [OF k'(3)] k'(2)] pframe_trans [OF k'(3)]
      by blast
  qed
  show ?thesis
    unfolding walk wp_bindR
  proof (rule wp_mono [OF kalloc_wp [OF h ps]], elim conjE)
    fix r k'
    assume k': "hasl (km k') ls" "ram k' = ram k" "pframe k k'"
      "case ps of [] \<Rightarrow> r = 0 \<and> free_list k' [] | p # qs \<Rightarrow> r = p \<and> free_list k' qs"
    show "wp (if r = 0 then Ret 0 k' else Ret (tslot r (PTX va)) (?new r k')) (\<lambda>r k'. hasl (km k') ls \<and> pframe k k' \<and>
      (\<exists>qs. free_list k' qs \<and> vm_ok k' dir qs \<and> (\<forall>x. pte_at k' dir x = pte_at k dir x) \<and>
        (if r = 0 then ps = [] else length ps \<le> Suc (length qs) \<and> (\<exists>t. pgtab k' dir (PDX va) = Some t \<and> r = tslot t (PTX va)))))"
    proof (cases ps)
      case Nil
      then show ?thesis using k' keep [of k'] pframe_sel(8) [OF k'(3)] by auto
    next
      case (Cons t qs)
      then show ?thesis using k' new [OF k'(1-3) Cons] by auto
    qed
  qed
qed

section \<open>Mapping pages\<close>

lemma page_next: "page a < page b \<Longrightarrow> page_aligned a \<Longrightarrow> page (a + PGSIZE) = Suc (page a)"
proof -
  assume p: "page a < page b" "page_aligned a"
  obtain n where n: "unat a = 4096 * n" using p(2) by (rule page_alignedE)
  have "page b < 1048576" using unsigned_less [of b, where 'a = nat] by (simp add: page_def less_mult_imp_div_less)
  then have "unat a + 4096 < 2 ^ 32" using p n by (simp add: page_def)
  then show ?thesis using n by (simp add: page_def unat_add_pgsize)
qed

definition mapped :: "u32 \<Rightarrow> u32 \<Rightarrow> u32 \<Rightarrow> u32 \<Rightarrow> (u32 \<Rightarrow> u32) \<Rightarrow> u32 \<Rightarrow> u32" where
  "mapped a lst pa perm old x =
     (if page a \<le> page x \<and> page x \<le> page lst then (pa + 4096 * word_of_nat (page x - page a)) OR perm OR PTE_P else old x)"

lemma mapped_step:
  "page a < page x \<Longrightarrow> pa + PGSIZE + 4096 * word_of_nat (page x - Suc (page a)) = pa + 4096 * word_of_nat (page x - page a)" for pa :: u32
proof -
  assume "page a < page x"
  then have "page x - page a = Suc (page x - Suc (page a))" by simp
  then show ?thesis by (simp add: algebra_simps)
qed

lemma mappages_loop_wp:
  assumes "hasl (km k) ls" "KMEM \<notin> set ls" "vm_ok k dir ps" "free_list k ps" "page_aligned a" "page_aligned lst" "page a \<le> page lst"
    "page lst - page a < n" "\<And>x. page a \<le> page x \<Longrightarrow> page x \<le> page lst \<Longrightarrow> pte_at k dir x AND PTE_P = 0"
  shows "wp (mappages_loop n dir a lst pa perm k) (\<lambda>r k'. hasl (km k') ls \<and> pframe k k' \<and> (\<exists>qs. free_list k' qs \<and> vm_ok k' dir qs \<and>
    (r = 0 \<and> (\<forall>x. pte_at k' dir x = mapped a lst pa perm (pte_at k dir) x) \<or> r = - 1 \<and> length ps \<le> page lst - page a)))"
  using assms
proof (induction n arbitrary: a pa k ps)
  case (Suc n)
  have step: "wp (if r = 0 then Ret (- 1) k1
       else if kload32 r k1 AND PTE_P \<noteq> 0 then Panic ''remap''
       else let k = kstore32 r (pa OR perm OR PTE_P) k1
            in if a = lst then Ret 0 k else mappages_loop n dir (a + PGSIZE) lst (pa + PGSIZE) perm k)
    (\<lambda>r k'. hasl (km k') ls \<and> pframe k k' \<and> (\<exists>qs. free_list k' qs \<and> vm_ok k' dir qs \<and>
      (r = 0 \<and> (\<forall>x. pte_at k' dir x = mapped a lst pa perm (pte_at k dir) x) \<or> r = - 1 \<and> length ps \<le> page lst - page a)))"
    if k1: "hasl (km k1) ls" "pframe k k1" "free_list k1 qs'" "vm_ok k1 dir qs'" "\<forall>x. pte_at k1 dir x = pte_at k dir x"
      "if r = 0 then ps = [] else length ps \<le> Suc (length qs') \<and> (\<exists>t. pgtab k1 dir (PDX a) = Some t \<and> r = tslot t (PTX a))" for r k1 qs'
  proof (cases "r = 0")
    case True
    then show ?thesis using k1 by auto
  next
    case False
    then obtain t where t: "pgtab k1 dir (PDX a) = Some t" "r = tslot t (PTX a)" using k1(6) by auto
    let ?w = "pa OR perm OR PTE_P"
    let ?k2 = "kstore32 r ?w k1"
    note st = vm_store [OF k1(4) t(1) k1(3), of ?w, folded t(2)]
    have "pte_at k1 dir a = kload32 r k1" using t by (simp add: pte_at_def)
    then have np: "kload32 r k1 AND PTE_P = 0" using Suc.prems(7) Suc.prems(9) [of a] k1(5) by simp
    have k2: "hasl (km ?k2) ls" "pframe k ?k2"
      using k1(1) pframe_trans [OF k1(2) pframe_upd(2)] by (simp_all add: kstore32_def)
    show ?thesis
    proof (cases "a = lst")
      case True
      have "pte_at ?k2 dir x = mapped a lst pa perm (pte_at k dir) x" for x
        using st(1) [of x] k1(5) True by (auto simp: mapped_def)
      then show ?thesis using True False np k2 st(2,3) by (auto simp: Let_def)
    next
      case neq: False
      have lt: "page a < page lst"
        using neq Suc.prems(5-7) page_aligned_eq by (metis nat_less_le)
      note nx = page_next [OF lt Suc.prems(5)]
      have "wp (mappages_loop n dir (a + PGSIZE) lst (pa + PGSIZE) perm ?k2) (\<lambda>r k'. hasl (km k') ls \<and> pframe ?k2 k' \<and>
          (\<exists>qs. free_list k' qs \<and> vm_ok k' dir qs \<and>
            (r = 0 \<and> (\<forall>x. pte_at k' dir x = mapped (a + PGSIZE) lst (pa + PGSIZE) perm (pte_at ?k2 dir) x) \<or> r = - 1 \<and> length qs' \<le> page lst - page (a + PGSIZE))))"
        using k2(1) Suc.prems st k1(5) lt nx by (intro Suc.IH) auto
      moreover have "mapped (a + PGSIZE) lst (pa + PGSIZE) perm (pte_at ?k2 dir) x = mapped a lst pa perm (pte_at k dir) x" for x
        using nx st(1) [of x] k1(5) lt mapped_step [of a x pa] by (auto simp: mapped_def)
      ultimately show ?thesis
        using False np neq pframe_trans [OF k2(2)] k1(6) nx lt by (fastforce simp: Let_def elim!: wp_mono)
    qed
  qed
  show ?case
    unfolding mappages_loop.simps wp_bindR
    by (rule wp_mono [OF walkpgdir_wp [OF Suc.prems(1-4)]]) (use step in blast)
qed simp

lemma page_split: "x = 4096 * word_of_nat (page x) + (x AND 0xFFF)"
proof -
  have "unat (x AND 0xFFF) = unat x mod 4096" using unat_and_mask_u32 [of x 12] by (simp add: mask_eq_exp_minus_1)
  then have "word_of_nat (unat x mod 4096) = (word_of_nat (unat (x AND 0xFFF)) :: u32)" by (rule arg_cong [OF sym])
  then have "x AND 0xFFF = word_of_nat (unat x mod 4096)" by simp
  moreover have "x = word_of_nat (4096 * page x + unat x mod 4096)" by (simp add: page_def)
  ultimately show ?thesis by simp
qed

lemma page_aligned_split: "page_aligned a \<Longrightarrow> a = 4096 * word_of_nat (page a)"
  using unat_and_mask_u32 [of a 12] by (subst page_split) (simp add: page_aligned_def mask_eq_exp_minus_1 unat_eq_0)

lemma page_aligned_mult: "page_aligned (4096 * word_of_nat n)"
proof -
  have "unat (4096 * word_of_nat n :: u32) = (4096 * n) mod 2 ^ 32"
    by (simp add: unat_word_ariths unat_of_nat mod_mult_right_eq)
  then show ?thesis using mod_mod_cancel [of 4096 "2 ^ 32" "4096 * n"] by (simp add: page_aligned_def)
qed

lemma PGROUNDDOWN_facts: "page (PGROUNDDOWN a) = page a" "page_aligned (PGROUNDDOWN a)" "page_aligned a \<Longrightarrow> PGROUNDDOWN a = a"
proof -
  have "unat (PGROUNDDOWN a) = 4096 * page a" unfolding unat_PGROUNDDOWN page_def minus_mod_eq_mult_div ..
  then show "page (PGROUNDDOWN a) = page a" "page_aligned (PGROUNDDOWN a)" by (simp_all add: page_def page_aligned_def)
  show "PGROUNDDOWN a = a" if "page_aligned a"
    using that unat_PGROUNDDOWN [of a] by (simp add: page_aligned_def unsigned_word_eqI)
qed

lemma mappages_wp:
  assumes "hasl (km k) ls" "KMEM \<notin> set ls" "vm_ok k dir ps" "free_list k ps"
    and "page_aligned va" "page_aligned pa" "0 < len" "unat va + unat len \<le> 2 ^ 32" "perm AND NOT 0xFFF = 0"
    and "\<And>x. page va \<le> page x \<Longrightarrow> page x \<le> page (va + len - 1) \<Longrightarrow> translate (v2p dir) x (ram k) = None"
  shows "wp (mappages dir va len pa perm k) (\<lambda>r k'. hasl (km k') ls \<and> pframe k k' \<and> (\<exists>qs. free_list k' qs \<and> vm_ok k' dir qs \<and>
    (r = 0 \<and> (\<forall>x. translate (v2p dir) x (ram k') =
        (if page va \<le> page x \<and> page x \<le> page (va + len - 1) then Some (pa + (x - va)) else translate (v2p dir) x (ram k))) \<or>
     r = - 1 \<and> length ps \<le> page (va + len - 1) - page va)))"
proof -
  let ?l = "PGROUNDDOWN (va + len - 1)"
  have "unat (len - 1) = unat len - 1" using assms(7) by (intro unat_minus_one) auto
  moreover have "0 < unat len" using assms(7) by (simp add: word_less_nat_alt)
  ultimately have sum: "unat (va + len - 1) = unat va + (unat len - 1)"
    using assms(8) unat_word_ariths(1) [of va "len - 1"] unfolding add_diff_eq [symmetric] by simp
  have a: "PGROUNDDOWN va = va" "page ?l = page (va + len - 1)" "page_aligned ?l" "page va \<le> page ?l"
    using PGROUNDDOWN_facts assms(5) sum by (simp_all add: page_def div_le_mono)
  have pte: "translate (v2p dir) x (ram k') = Some (pa + (x - va))"
    if "pte_at k' dir x = (pa + 4096 * word_of_nat (page x - page va)) OR perm OR PTE_P" "page va \<le> page x" for x k'
  proof -
    let ?p = "pa + 4096 * word_of_nat (page x - page va)"
    have "page_aligned ?p" using page_aligned_add [OF page_aligned_mult] assms(6) by blast
    then have "PTE_ADDR (?p OR (perm OR PTE_P)) = ?p"
      using assms(9) by (intro PTE_ADDR_or) (simp_all add: bit.conj_disj_distrib2)
    moreover have "(?p OR perm OR PTE_P) AND PTE_P \<noteq> 0" by (simp add: bit.conj_disj_distrib2 or_eq_0_iff)
    moreover have "4096 * word_of_nat (page x - page va) + (x AND 0xFFF) = x - va"
      using page_split [of x] page_aligned_split [OF assms(5)] that(2) by (simp add: of_nat_diff algebra_simps)
    ultimately show ?thesis unfolding translate_pte_at that(1) by (simp add: or.assoc add.assoc)
  qed
  have tr: "translate (v2p dir) x (ram k') = translate (v2p dir) x (ram k)" if "pte_at k' dir x = pte_at k dir x" for x k'
    using that unfolding translate_pte_at by simp
  have free: "pte_at k dir x AND PTE_P = 0" if "page va \<le> page x" "page x \<le> page ?l" for x
    using assms(10) [of x] that a(2) unfolding translate_pte_at by (auto split: if_splits)
  have "page ?l - page va < 2 ^ 20"
    using unsigned_less [of ?l, where 'a = nat] by (simp add: page_def less_mult_imp_div_less less_imp_diff_less)
  then have loop: "wp (mappages_loop (2 ^ 20) dir va ?l pa perm k) (\<lambda>r k'. hasl (km k') ls \<and> pframe k k' \<and> (\<exists>qs. free_list k' qs \<and> vm_ok k' dir qs \<and>
      (r = 0 \<and> (\<forall>x. pte_at k' dir x = mapped va ?l pa perm (pte_at k dir) x) \<or> r = - 1 \<and> length ps \<le> page ?l - page va)))"
    by (intro mappages_loop_wp [OF assms(1-5) a(3,4)] free)
  have all: "translate (v2p dir) x (ram k') = (if page va \<le> page x \<and> page x \<le> page (va + len - 1) then Some (pa + (x - va)) else translate (v2p dir) x (ram k))"
    if "\<forall>x. pte_at k' dir x = mapped va ?l pa perm (pte_at k dir) x" for x k'
  proof (cases "page va \<le> page x \<and> page x \<le> page (va + len - 1)")
    case True
    then show ?thesis using that pte [of k' x] a(2) by (simp add: mapped_def)
  next
    case False
    then have "pte_at k' dir x = pte_at k dir x" using that a(2) unfolding mapped_def by auto
    from tr [OF this] False show ?thesis by auto
  qed
  show ?thesis
    unfolding mappages_def a(1) by (rule wp_mono [OF loop]) (use all a(2) in auto)
qed

text \<open>
  C5. \<open>mappages\<close> maps the pages of a range of addresses to consecutive physical pages, as the
  hardware reads the tables: afterwards every address of the range translates to the
  corresponding physical address and every other address translates as before. It fails
  only if fewer pages are free than it maps, and then leaves the page directory in order.
\<close>

theorem mappages_maps:
  assumes "hasl (km k) ls" "KMEM \<notin> set ls" "vm_ok k dir ps" "free_list k ps"
    and "page_aligned va" "page_aligned pa" "0 < len" "unat va + unat len \<le> 2 ^ 32" "perm AND NOT 0xFFF = 0"
    and "\<And>x. page va \<le> page x \<Longrightarrow> page x \<le> page (va + len - 1) \<Longrightarrow> translate (v2p dir) x (ram k) = None"
  shows "wp (mappages dir va len pa perm k) (\<lambda>r k'. hasl (km k') ls \<and> (\<exists>qs. free_list k' qs \<and> vm_ok k' dir qs \<and>
    (r = 0 \<and> (\<forall>x. translate (v2p dir) x (ram k') =
        (if page va \<le> page x \<and> page x \<le> page (va + len - 1) then Some (pa + (x - va)) else translate (v2p dir) x (ram k))) \<or>
     r = - 1 \<and> length ps \<le> page (va + len - 1) - page va)))"
  by (rule wp_mono [OF mappages_wp [OF assms]]) auto

text \<open>An empty page directory and two free pages.\<close>

definition vm_kern :: kern where
  "vm_kern = kern0\<lparr>freelist := 0x80401000, ram := store32 0x401000 0x80402000 (\<lambda>_. 0)\<rparr>"

lemma vm_kern_load: "load32 a (ram vm_kern) = (if a = 0x401000 then 0x80402000 else 0)" if "unat a mod 4 = 0"
  using load32_store32 [OF that, of "0x401000" "0x80402000" "\<lambda>_. 0"] by (simp add: vm_kern_def load32_zero)

lemma vm_kern_pgtab: "i < 1024 \<Longrightarrow> pgtab vm_kern 0x80400000 i = None"
proof -
  assume i: "i < 1024"
  have al: "page_aligned (0x400000 :: u32)" by (simp add: page_aligned_def)
  have "unat (tslot 0x400000 i) = 0x400000 + 4 * i" using tslot_unat [OF al i] by simp
  then have "tslot 0x400000 i \<noteq> 0x401000" using i by auto
  then show ?thesis
    using vm_kern_load [OF tslot_page(2) [OF al i]] by (simp add: pgtab_def kload32_def v2p_tslot) (simp add: v2p_def)
qed

lemma vm_kern_facts: "hasl (km vm_kern) []" "free_list vm_kern [0x80401000, 0x80402000]" "vm_ok vm_kern 0x80400000 [0x80401000, 0x80402000]"
  "translate 0x400000 x (ram vm_kern) = None"
proof -
  show "hasl (km vm_kern) []" using kern0_hasl by (simp add: vm_kern_def)
  have kp: "kpage vm_kern p" if "p \<in> {0x80400000, 0x80401000, 0x80402000}" for p
    using that by (auto simp: vm_kern_def kern0_def kpage_def page_aligned_def v2p_def)
  show "free_list vm_kern [0x80401000, 0x80402000]"
    using vm_kern_load [of "0x401000"] vm_kern_load [of "0x402000"] kp by (simp add: free_list_def v2p_def) (simp add: vm_kern_def kern0_def)
  show "vm_ok vm_kern 0x80400000 [0x80401000, 0x80402000]"
    using kp vm_kern_pgtab by (auto simp: vm_ok_def)
  have "v2p 0x80400000 = 0x400000" by (simp add: v2p_def)
  moreover have "pte_at vm_kern 0x80400000 x = 0" using vm_kern_pgtab [OF PDX_less] by (simp add: pte_at_def)
  ultimately show "translate 0x400000 x (ram vm_kern) = None"
    using translate_pte_at [of "0x80400000" x vm_kern] by simp
qed

theorem mappages_maps_witness:
  "wp (mappages 0x80400000 0x1000 4096 0x500000 6 vm_kern) (\<lambda>r k'. r = 0 \<and> translate 0x400000 0x1234 (ram k') = Some 0x500234)"
proof -
  have "v2p 0x80400000 = 0x400000" by (simp add: v2p_def)
  moreover have "page 0x1000 = 1" "page (0x1000 + 4096 - 1) = 1" "page 0x1234 = 1" by (simp_all add: page_def)
  ultimately show ?thesis
    using mappages_maps [OF vm_kern_facts(1) _ vm_kern_facts(3,2), of "0x1000" "0x500000" 4096 6] vm_kern_facts(4)
    by (auto simp: page_aligned_def elim!: wp_mono)
qed

section \<open>The kernel's half of the address space\<close>

lemma page_range:
  assumes "page_aligned va" "page_aligned len" "0 < len" "unat va + unat len \<le> 2 ^ 32"
  shows "page va \<le> page x \<and> page x \<le> page (va + len - 1) \<longleftrightarrow> unat va \<le> unat x \<and> unat x < unat va + unat len"
proof -
  obtain m n where mn: "unat va = 4096 * m" "unat len = 4096 * n" using assms(1,2) by (meson page_alignedE)
  have n: "0 < n" using assms(3) mn by (simp add: word_less_nat_alt)
  have "unat (len - 1) = unat len - 1" using assms(3) by (intro unat_minus_one) auto
  moreover have "unat va + (unat len - 1) < 2 ^ 32" using assms(4) mn n by linarith
  ultimately have "unat (va + len - 1) = unat va + (unat len - 1)"
    using unat_word_ariths(1) [of va "len - 1"] unfolding add_diff_eq [symmetric] by simp
  then have "unat (va + len - 1) = 4096 * (m + n) - 1" using mn n by simp
  then have "page (va + len - 1) = m + n - 1" "page va = m" using mn n by (simp_all add: page_def)
  then show ?thesis using mn n by (auto simp: page_def less_eq_div_iff_mult_less_eq div_less_iff_less_mult)
qed

text \<open>What a page directory translates, as a function.\<close>

definition vm_is :: "kern \<Rightarrow> lockid list \<Rightarrow> u32 \<Rightarrow> (u32 \<Rightarrow> u32 option) \<Rightarrow> bool" where
  "vm_is k ls dir f \<longleftrightarrow> hasl (km k) ls \<and> (\<exists>ps. vm_ok k dir ps \<and> free_list k ps) \<and> (\<forall>x. translate (v2p dir) x (ram k) = f x)"

lemma mappages_vm_is:
  assumes "vm_is k ls dir f" "KMEM \<notin> set ls"
    and "page_aligned va" "page_aligned pa" "page_aligned len" "0 < len" "unat va + unat len \<le> 2 ^ 32" "perm AND NOT 0xFFF = 0"
    and "\<And>x. unat va \<le> unat x \<Longrightarrow> unat x < unat va + unat len \<Longrightarrow> f x = None"
    and g: "\<And>x. g x = (if unat va \<le> unat x \<and> unat x < unat va + unat len then Some (pa + (x - va)) else f x)"
  shows "wp (mappages dir va len pa perm k) (\<lambda>r k'. pframe k k' \<and> (r = - 1 \<or> r = 0 \<and> vm_is k' ls dir g))"
proof -
  obtain ps where ps: "hasl (km k) ls" "vm_ok k dir ps" "free_list k ps" "\<forall>x. translate (v2p dir) x (ram k) = f x"
    using assms(1) by (auto simp: vm_is_def)
  note r = page_range [OF assms(3,5,6,7)]
  show ?thesis
    by (rule wp_mono [OF mappages_wp [OF ps(1) assms(2) ps(2,3) assms(3,4,6,7,8)]])
      (use ps(4) assms(9) r g in \<open>auto simp: vm_is_def\<close>)
qed

lemma new_directory:
  assumes h: "hasl (km k) ls" "KMEM \<notin> set ls" and ps: "free_list k ps"
  shows "wp (kalloc k) (\<lambda>dir k'. pframe k k' \<and> (dir = 0 \<or> vm_is (k'\<lparr>ram := memset (v2p dir) 0 PGSIZE (ram k')\<rparr>) ls dir (\<lambda>_. None)))"
proof (rule wp_mono [OF kalloc_wp [OF h ps]], elim conjE, intro conjI)
  fix dir k'
  assume k': "hasl (km k') ls" "ram k' = ram k" "pframe k k'" "case ps of [] \<Rightarrow> dir = 0 \<and> free_list k' [] | p # qs \<Rightarrow> dir = p \<and> free_list k' qs"
  let ?k = "k'\<lparr>ram := memset (v2p dir) 0 PGSIZE (ram k')\<rparr>"
  show "dir = 0 \<or> vm_is ?k ls dir (\<lambda>_. None)"
  proof (cases ps)
    case Nil
    then show ?thesis using k' by simp
  next
    case (Cons p qs)
    have d: "dir = p" "free_list k' qs" "kpage k dir" "dir \<notin> set qs" using Cons k'(4) ps by (auto simp: free_list_def)
    have kp: "kpage k' dir" using d(3) pframe_sel(8) [OF k'(3)] by (simp add: kpage_def)
    then have al: "page_aligned (v2p dir)" by (simp add: kpage_def page_aligned_v2p)
    have z: "kload32 (tslot dir i) ?k = 0" if "i < 1024" for i
    proof -
      have "load32 (tslot (v2p dir) i) (ram ?k) = load32 (tslot (v2p dir) i) (\<lambda>_. 0)"
        using tslot_page [OF al that] memset_page [OF al] by (intro load32_cong) auto
      then show ?thesis unfolding kload32_def v2p_tslot by (simp add: load32_zero)
    qed
    have tab: "pgtab ?k dir i = None" if "i < 1024" for i using z [OF that] by (simp add: pgtab_def)
    have "free_list ?k qs"
      using d(2,4) kp memset_page [OF al] by (intro free_list_ram [where P = "{dir}"]) (auto simp: same_outside_def kpage_def)
    moreover have "vm_ok ?k dir qs" using kp d(4) tab by (simp add: vm_ok_def)
    moreover have "translate (v2p dir) x (ram ?k) = None" for x
      using translate_pte_at [of dir x ?k] tab [OF PDX_less] by (simp add: pte_at_def)
    ultimately show ?thesis using k'(1) by (auto simp: vm_is_def)
  qed
qed

lemma setup_entry:
  assumes "wp (mappages dir (virt e) (phys_end e - phys_start e) (phys_start e) (kperm e) k) (\<lambda>r k'. pframe k k' \<and> (r = - 1 \<or> r = 0 \<and> I k'))"
    "\<And>k'. I k' \<Longrightarrow> wp (setupkvm_loop dir es k') Q" "\<And>k'. Q 0 k'"
  shows "wp (setupkvm_loop dir (e # es) k) Q"
  unfolding setupkvm_loop.simps wp_bindR using assms(1) by (rule wp_mono) (use assms(2,3) in auto)

lemma page_aligned_diff: "page_aligned a \<Longrightarrow> page_aligned b \<Longrightarrow> page_aligned (a - b)"
  using page_aligned_add [of b "a - b"] by simp

lemma setupkvm_loop_wp:
  assumes v: "vm_is k ls dir (\<lambda>_. None)" "KMEM \<notin> set ls" "page_aligned D" "2148532224 < unat D" "unat D < 2382364672" "D = sym_data sy"
  shows "wp (setupkvm_loop dir (kmap sy) k) (\<lambda>r k'. r = 0 \<or> r = dir \<and> vm_is k' ls dir (\<lambda>x.
    if 2147483648 \<le> unat x \<and> unat x < 2382364672 then Some (x - KERNBASE)
    else if 4261412864 \<le> unat x then Some x else None))"
proof -
  let ?f1 = "\<lambda>x :: u32. if 2147483648 \<le> unat x \<and> unat x < 2148532224 then Some (x - KERNBASE) else None"
  let ?f2 = "\<lambda>x. if 2148532224 \<le> unat x \<and> unat x < unat D then Some (x - KERNBASE) else ?f1 x"
  let ?f3 = "\<lambda>x. if unat D \<le> unat x \<and> unat x < 2382364672 then Some (x - KERNBASE) else ?f2 x"
  let ?f4 = "\<lambda>x :: u32. if 2147483648 \<le> unat x \<and> unat x < 2382364672 then Some (x - KERNBASE) else if 4261412864 \<le> unat x then Some x else None"
  have len: "unat (v2p D - v2p KERNLINK) = unat D - 2148532224" "unat (PHYSTOP - v2p D) = 2382364672 - unat D"
    using v(4,5) by (simp_all add: v2p_def unat_sub_if' word_le_nat_alt)
  have al: "page_aligned (v2p D - v2p KERNLINK)" "page_aligned (PHYSTOP - v2p D)" "page_aligned (v2p D)"
    using v(3) by (auto intro!: page_aligned_diff simp: page_aligned_v2p) (simp_all add: page_aligned_def)
  have bound: "unat x < 4294967296" for x :: u32 using unsigned_less [of x, where 'a = nat] by simp
  have e1: "wp (mappages dir KERNBASE (EXTMEM - 0) 0 PTE_W k) (\<lambda>r k'. pframe k k' \<and> (r = - 1 \<or> r = 0 \<and> vm_is k' ls dir ?f1))"
    by (rule mappages_vm_is [OF v(1,2)]) (auto simp: page_aligned_def)
  have e2: "wp (mappages dir KERNLINK (v2p D - v2p KERNLINK) (v2p KERNLINK) 0 k) (\<lambda>r k'. pframe k k' \<and> (r = - 1 \<or> r = 0 \<and> vm_is k' ls dir ?f2))"
    if "vm_is k ls dir ?f1" for k
    by (rule mappages_vm_is [OF that v(2)]) (use len al v(4,5) in \<open>auto simp: page_aligned_def word_less_nat_alt v2p_def\<close>)
  have e3: "wp (mappages dir D (PHYSTOP - v2p D) (v2p D) PTE_W k) (\<lambda>r k'. pframe k k' \<and> (r = - 1 \<or> r = 0 \<and> vm_is k' ls dir ?f3))"
    if "vm_is k ls dir ?f2" for k
    by (rule mappages_vm_is [OF that v(2) v(3) al(3,2)]) (use len v(4,5) in \<open>auto simp: word_less_nat_alt v2p_def\<close>)
  have e4: "wp (mappages dir DEVSPACE (0 - DEVSPACE) DEVSPACE PTE_W k) (\<lambda>r k'. pframe k k' \<and> (r = - 1 \<or> r = 0 \<and> vm_is k' ls dir ?f4))"
    if "vm_is k ls dir ?f3" for k
    by (rule mappages_vm_is [OF that v(2)]) (use v(4,5) bound in \<open>auto simp: page_aligned_def word_less_nat_alt\<close>)
  let ?Q = "\<lambda>r k'. r = 0 \<or> r = dir \<and> vm_is k' ls dir ?f4"
  have l4: "wp (setupkvm_loop dir [\<lparr>virt = DEVSPACE, phys_start = DEVSPACE, phys_end = 0, kperm = PTE_W\<rparr>] k) ?Q" if "vm_is k ls dir ?f3" for k
    by (rule setup_entry [where I = "\<lambda>k. vm_is k ls dir ?f4"]) (use e4 [OF that] in simp_all)
  show ?thesis
    unfolding kmap_def v(6) [symmetric]
    apply (rule setup_entry [where I = "\<lambda>k. vm_is k ls dir ?f1"])
    subgoal using e1 by (simp only: kmap_entry.simps)
    apply (rule setup_entry [where I = "\<lambda>k. vm_is k ls dir ?f2"])
    subgoal using e2 by (simp only: kmap_entry.simps)
    apply (rule setup_entry [where I = "\<lambda>k. vm_is k ls dir ?f3"])
    subgoal using e3 by (simp only: kmap_entry.simps)
    using l4 by simp_all
qed



end
