(* ===== verification/Pipe.thy ===== *)
theory Pipe
  imports Vm
begin

text \<open>
  Pipes (\<open>src/pipe.c\<close>, without \<open>pipealloc\<close>, which needs the file table). The buffer is a ring
  with free-running 32-bit counters. A full pipe puts its writer to sleep, an empty one its
  reader; both loops test their condition again when the process is resumed, so what a
  resumed call does is the loop from the byte it had reached. A use of a pipe that was freed
  is an error of its own in the model.
\<close>

abbreviation PIPESIZE :: nat where "PIPESIZE \<equiv> 512"

section \<open>pipe.c\<close>

definition with_pipe :: "u32 \<Rightarrow> (pipe \<Rightarrow> kern \<Rightarrow> ('a, kern) outcome) \<Rightarrow> kern \<Rightarrow> ('a, kern) outcome" where
  "with_pipe p f k = (case pipes k p of None \<Rightarrow> Panic ''freed pipe'' | Some q \<Rightarrow> f q k)"

definition set_pipe :: "u32 \<Rightarrow> pipe \<Rightarrow> kern \<Rightarrow> kern" where
  "set_pipe p q k = k\<lparr>pipes := (pipes k)(p \<mapsto> q)\<rparr>"

definition pipeclose :: "u32 \<Rightarrow> bool \<Rightarrow> kern \<Rightarrow> (unit, kern) outcome" where
  "pipeclose p writable k =
     bindR (kacquire (PIPELK p) k) (\<lambda>_.
     with_pipe p (\<lambda>q k.
       bindR (if writable
              then wakeup (ChNread p) (set_pipe p (q\<lparr>writeopen := False\<rparr>) k)
              else wakeup (ChNwrite p) (set_pipe p (q\<lparr>readopen := False\<rparr>) k)) (\<lambda>_.
       with_pipe p (\<lambda>q k.
         if \<not> readopen q \<and> \<not> writeopen q
         then bindR (krelease (PIPELK p) k) (\<lambda>_ k. kfree p (k\<lparr>pipes := (pipes k)(p := None)\<rparr>))
         else krelease (PIPELK p) k))))"

text \<open>The loop of \<open>pipewrite\<close> with \<open>m\<close> bytes still to write, from byte \<open>i\<close>.\<close>

fun pipewrite_loop :: "nat \<Rightarrow> u32 \<Rightarrow> u32 \<Rightarrow> nat \<Rightarrow> kern \<Rightarrow> (bool, kern) outcome" where
  "pipewrite_loop 0 p addr i k = Ret True k"
| "pipewrite_loop (Suc m) p addr i k =
     with_pipe p (\<lambda>q.
       if nwrite q = nread q + 512
       then with_proc (\<lambda>c k.
              if \<not> readopen q \<or> killed (ptable k ! c) then Ret False k
              else bindR (wakeup (ChNread p) k) (\<lambda>_ k.
                   bindR (sleep (ChNwrite p) (Some (PIPELK p)) k) (\<lambda>_. Ret True)))
       else (\<lambda>k. bindR (vread (addr + word_of_nat i) 1 k) (\<lambda>bs k.
              pipewrite_loop m p addr (Suc i)
                (set_pipe p (q\<lparr>pdata := (pdata q)[slot (pdata q) (nwrite q) := hd bs],
                              nwrite := nwrite q + 1\<rparr>) k)))) k"

definition pipewrite :: "u32 \<Rightarrow> u32 \<Rightarrow> int \<Rightarrow> kern \<Rightarrow> (int, kern) outcome" where
  "pipewrite p addr n k =
     bindR (kacquire (PIPELK p) k) (\<lambda>_ k.
     bindR (pipewrite_loop (nat n) p addr 0 k) (\<lambda>ok k.
     if \<not> ok then bindR (krelease (PIPELK p) k) (\<lambda>_. Ret (- 1))
     else bindR (wakeup (ChNread p) k) (\<lambda>_ k.
          bindR (krelease (PIPELK p) k) (\<lambda>_. Ret n))))"

text \<open>The copying loop of \<open>piperead\<close>: the number of bytes copied in the end.\<close>

fun piperead_loop :: "nat \<Rightarrow> u32 \<Rightarrow> u32 \<Rightarrow> nat \<Rightarrow> kern \<Rightarrow> (nat, kern) outcome" where
  "piperead_loop 0 p addr i k = Ret i k"
| "piperead_loop (Suc m) p addr i k =
     with_pipe p (\<lambda>q k.
       if nread q = nwrite q then Ret i k
       else bindR (vwrite (addr + word_of_nat i) [pdata q ! slot (pdata q) (nread q)] k) (\<lambda>_ k.
            piperead_loop m p addr (Suc i) (set_pipe p (q\<lparr>nread := nread q + 1\<rparr>) k))) k"

definition piperead :: "u32 \<Rightarrow> u32 \<Rightarrow> int \<Rightarrow> kern \<Rightarrow> (int, kern) outcome" where
  "piperead p addr n k =
     bindR (kacquire (PIPELK p) k) (\<lambda>_.
     with_pipe p (\<lambda>q.
       if nread q = nwrite q \<and> writeopen q
       then with_proc (\<lambda>c k.
              if killed (ptable k ! c) then bindR (krelease (PIPELK p) k) (\<lambda>_. Ret (- 1))
              else bindR (sleep (ChNread p) (Some (PIPELK p)) k) (\<lambda>_. Ret 0))
       else (\<lambda>k. bindR (piperead_loop (nat n) p addr 0 k) (\<lambda>i k.
              bindR (wakeup (ChNwrite p) k) (\<lambda>_ k.
              bindR (krelease (PIPELK p) k) (\<lambda>_. Ret (int i)))))))"

section \<open>The buffer as a queue\<close>

definition pipe_inv :: "pipe \<Rightarrow> bool" where
  "pipe_inv q \<longleftrightarrow> length (pdata q) = PIPESIZE \<and> unat (nwrite q - nread q) \<le> PIPESIZE"

definition pipe_bytes :: "pipe \<Rightarrow> bytes" where
  "pipe_bytes q = rbuf (pdata q) (nread q) (nwrite q)"

definition pipe_put :: "u8 \<Rightarrow> pipe \<Rightarrow> pipe" where
  "pipe_put b q = q\<lparr>pdata := (pdata q)[slot (pdata q) (nwrite q) := b], nwrite := nwrite q + 1\<rparr>"

text \<open>The pipe in page \<open>p\<close> holds the bytes \<open>bs\<close>; nothing else happened to the pipes.\<close>

definition pipe_becomes :: "u32 \<Rightarrow> bytes \<Rightarrow> kern \<Rightarrow> kern \<Rightarrow> bool" where
  "pipe_becomes p bs k k' \<longleftrightarrow>
     (\<exists>q. pipes k' = (pipes k)(p \<mapsto> q) \<and> pipe_inv q \<and> pipe_bytes q = bs)"

lemma pipe_rbuf_size: "pipe_inv q \<Longrightarrow> rbuf_size (pdata q)"
  by (simp add: pipe_inv_def rbuf_size_def)

lemma pipe_full_iff: "pipe_inv q \<Longrightarrow> nwrite q = nread q + 512 \<longleftrightarrow> length (pipe_bytes q) = PIPESIZE"
proof -
  have "nwrite q = nread q + 512 \<longleftrightarrow> nwrite q - nread q = 512" by (auto simp: algebra_simps)
  also have "\<dots> \<longleftrightarrow> unat (nwrite q - nread q) = unat (512 :: u32)" by (simp only: word_eq_iff_unsigned)
  finally show ?thesis by (simp add: pipe_bytes_def)
qed

lemma pipe_empty_iff: "nread q = nwrite q \<longleftrightarrow> pipe_bytes q = []"
  by (metis length_rbuf length_0_conv pipe_bytes_def rbuf_empty right_minus_eq unat_eq_0)

lemma pipe_put_inv:
  assumes "pipe_inv q" "length (pipe_bytes q) < PIPESIZE"
  shows "pipe_inv (pipe_put b q)" "pipe_bytes (pipe_put b q) = pipe_bytes q @ [b]"
proof -
  have len: "unat (nwrite q - nread q) < length (pdata q)"
    using assms by (simp add: pipe_bytes_def pipe_inv_def)
  from rbuf_push [OF pipe_rbuf_size [OF assms(1)] len, of b]
  show b: "pipe_bytes (pipe_put b q) = pipe_bytes q @ [b]" by (simp add: pipe_bytes_def pipe_put_def)
  have "unat (nwrite q + 1 - nread q) = Suc (unat (nwrite q - nread q))"
    using arg_cong [OF b, of length] by (simp add: pipe_bytes_def pipe_put_def)
  then show "pipe_inv (pipe_put b q)"
    using assms len by (simp add: pipe_inv_def pipe_put_def)
qed

lemma pipe_puts_inv:
  "pipe_inv q \<Longrightarrow> length (pipe_bytes q) + length bs \<le> PIPESIZE \<Longrightarrow>
    pipe_inv (fold pipe_put bs q) \<and> pipe_bytes (fold pipe_put bs q) = pipe_bytes q @ bs"
  by (induction bs arbitrary: q) (auto simp: pipe_put_inv)

lemma pipe_puts_sel: "readopen (fold pipe_put bs q) = readopen q" "writeopen (fold pipe_put bs q) = writeopen q"
  "nread (fold pipe_put bs q) = nread q"
  by (induction bs arbitrary: q) (auto simp: pipe_put_def)

lemma set_pipe_sel [simp]: "pipes (set_pipe p q k) = (pipes k)(p \<mapsto> q)" "km (set_pipe p q k) = km k" "ram (set_pipe p q k) = ram k"
  "ptable (set_pipe p q k) = ptable k" "set_pipe p q' (set_pipe p q k) = set_pipe p q' k" "curproc (set_pipe p q k) = curproc k"
  by (simp_all add: set_pipe_def curproc_def)

lemma set_pipe_same: "pipes k p = Some q \<Longrightarrow> set_pipe p q k = k"
  by (cases k) (simp add: set_pipe_def map_upd_triv)

lemma phys_set_pipe [simp]: "phys (set_pipe p q k) = phys k"
  by (simp add: phys_def fun_eq_iff)

lemma vload_set_pipe [simp]: "vload a n (set_pipe p q k) = vload a n k"
  by (induction n arbitrary: a) (auto split: option.split)

lemma vload_Suc:
  "vload a (Suc n) k = Some bs \<longleftrightarrow> (\<exists>b bs'. bs = b # bs' \<and> vread a 1 k = Ret [b] k \<and> vload (a + 1) n k = Some bs')"
  by (auto simp: vread_def split: option.splits)

lemma vload_length: "vload a n k = Some bs \<Longrightarrow> length bs = n"
  by (induction n arbitrary: a bs) (auto split: option.splits)

lemma vload_cong: "phys k = phys k' \<Longrightarrow> ram k = ram k' \<Longrightarrow> vload a n k = vload a n k'"
  by (induction n arbitrary: a) (simp_all cong: option.case_cong)

lemma kframe_phys: "kframe k k' \<Longrightarrow> phys k' = phys k"
proof -
  assume f: "kframe k k'"
  then have "cr3 (this_cpu (km k')) = cr3 (this_cpu (km k))" by (simp add: kframe_def mframe_def this_cpu_def)
  then show ?thesis using kframe_sel(8) [OF f] by (intro ext) (simp only: phys_def)
qed

lemma kframe_vload: "kframe k k' \<Longrightarrow> vload a n k' = vload a n k"
  by (rule vload_cong [OF kframe_phys kframe_sel(8)])

lemma wake_and_release:
  assumes "hasl (km k) [l]" "l \<noteq> PTABLE"
  shows "wp (bindR (wakeup ch k) (\<lambda>_ k. bindR (krelease l k) (\<lambda>_. Ret r)))
    (\<lambda>r' k'. r' = r \<and> hasl (km k') [] \<and> kframe (wakeup1 (Some ch) k) k')"
proof -
  have "wp (krelease l k2) (\<lambda>_ k'. hasl (km k') [] \<and> kframe (wakeup1 (Some ch) k) k')"
    if "hasl (km k2) [l]" "kframe (wakeup1 (Some ch) k) k2" for k2
    using krelease_wp [OF that(1), of l] that(2) by (auto elim!: wp_mono intro: kframe_trans)
  then show ?thesis
    using wakeup_wp [OF assms(1), of ch] assms(2) by (auto elim!: wp_mono)
qed

lemma wakeup1_sel: "pipes (wakeup1 ch k) = pipes k" "ram (wakeup1 ch k) = ram k" "curproc (wakeup1 ch k) = curproc k"
  "length (ptable (wakeup1 ch k)) = length (ptable k)"
  by (simp_all add: wakeup1_def curproc_def)

text \<open>What \<open>pipewrite\<close> does at a full pipe.\<close>

definition pipe_wait :: "u32 \<Rightarrow> pipe \<Rightarrow> kern \<Rightarrow> (bool, kern) outcome" where
  "pipe_wait p q =
     with_proc (\<lambda>c k.
       if \<not> readopen q \<or> killed (ptable k ! c) then Ret False k
       else bindR (wakeup (ChNread p) k) (\<lambda>_ k. bindR (sleep (ChNwrite p) (Some (PIPELK p)) k) (\<lambda>_. Ret True)))"

lemma pipewrite_loop_eq:
  assumes "pipes k p = Some q" "pipe_inv q" "vload (addr + word_of_nat i) m k = Some bs"
  shows "pipewrite_loop m p addr i k =
    (let room = PIPESIZE - length (pipe_bytes q); q' = fold pipe_put (take room bs) q; k' = set_pipe p q' k
     in if m = 0 then Ret True k else if m \<le> room then Ret True k' else pipe_wait p q' k')"
  using assms
proof (induction m arbitrary: i q k bs)
  case (Suc m)
  from Suc.prems(3) obtain b bs' where
    b: "bs = b # bs'" "vread (addr + word_of_nat i) 1 k = Ret [b] k" "vload (addr + word_of_nat (Suc i)) m k = Some bs'"
    unfolding vload_Suc by (auto simp: add.commute add.left_commute)
  show ?case
  proof (cases "length (pipe_bytes q) = PIPESIZE")
    case True
    then show ?thesis
      using Suc.prems(1) pipe_full_iff [OF Suc.prems(2)] set_pipe_same [OF Suc.prems(1)] by (simp add: with_pipe_def pipe_wait_def)
  next
    case False
    let ?q = "pipe_put b q"
    have lt: "length (pipe_bytes q) < PIPESIZE" using False Suc.prems(2) by (simp add: pipe_inv_def pipe_bytes_def)
    note q = pipe_put_inv [OF Suc.prems(2) lt, of b]
    have "pipewrite_loop (Suc m) p addr i k = pipewrite_loop m p addr (Suc i) (set_pipe p ?q k)"
      using False Suc.prems(1) pipe_full_iff [OF Suc.prems(2)] b(2) by (simp add: with_pipe_def pipe_put_def)
    moreover have "PIPESIZE - length (pipe_bytes q) = Suc (PIPESIZE - Suc (length (pipe_bytes q)))" using lt by simp
    moreover have "m = 0 \<Longrightarrow> bs' = []" using vload_length [OF b(3)] by simp
    ultimately show ?thesis
      using Suc.IH [of "set_pipe p ?q k" ?q "Suc i" bs'] q b(1,3) by (auto simp: Let_def)
  qed
qed simp

lemma sleep_pipes: "sleep ch l k = Asleep k' \<Longrightarrow> pipes k' = pipes k"
  by (auto simp: sleep_def sched_def with_proc_def kacquire_def krelease_def upd_proc_def zoom_def bindR_def
    split: option.splits if_splits outcome.splits)

text \<open>
  C8. \<open>pipewrite\<close> appends to the queue of bytes in the pipe, also when the counters wrap around.
  If there is room for everything it returns the number of bytes. Otherwise it fills the
  pipe; then it fails if nobody can read or the process was killed, and else sleeps until a
  reader made room.
\<close>

theorem pipewrite_appends:
  assumes h: "hasl (km k) []" and c: "curproc k = Some c" "c < length (ptable k)"
    and q: "pipes k p = Some q" "pipe_inv q" and bs: "vload addr n k = Some bs"
  shows "let room = PIPESIZE - length (pipe_bytes q) in
    if n \<le> room then wp (pipewrite p addr (int n) k) (\<lambda>r k'. r = int n \<and> hasl (km k') [] \<and>
        pipe_becomes p (pipe_bytes q @ bs) k k')
    else if \<not> readopen q \<or> killed (ptable k ! c) then wp (pipewrite p addr (int n) k) (\<lambda>r k'. r = - 1 \<and> hasl (km k') [] \<and>
        pipe_becomes p (pipe_bytes q @ take room bs) k k')
    else \<exists>k'. pipewrite p addr (int n) k = Asleep k' \<and> hasl (km k') [PTABLE] \<and>
        pstate (ptable k' ! c) = SLEEPING \<and> chan (ptable k' ! c) = Some (ChNwrite p) \<and>
        pipe_becomes p (pipe_bytes q @ take room bs) k k'"
proof -
  let ?l = "PIPELK p" and ?room = "PIPESIZE - length (pipe_bytes q)"
  let ?q = "fold pipe_put (take ?room bs) q"
  from kacquire_wp [OF h, of ?l] obtain k1 where
    k1: "kacquire ?l k = Ret () k1" "hasl (km k1) [?l]" "kframe k k1" by (auto simp: wp_iff)
  note f = kframe_sel [OF k1(3)]
  have q': "pipe_inv ?q" "pipe_bytes ?q = pipe_bytes q @ take ?room bs"
    using pipe_puts_inv [OF q(2), of "take ?room bs"] q(2) by (auto simp: pipe_inv_def pipe_bytes_def)
  have post: "pipe_becomes p (pipe_bytes q @ take ?room bs) k k'"
    if "pipes k' = (pipes k)(p \<mapsto> ?q)" for k' using that q' unfolding pipe_becomes_def by blast
  have loop: "pipewrite_loop n p addr 0 k1 = (if n = 0 then Ret True k1 else if n \<le> ?room then Ret True (set_pipe p ?q k1) else pipe_wait p ?q (set_pipe p ?q k1))"
    using pipewrite_loop_eq [of k1 p q addr 0 n bs] q bs f kframe_vload [OF k1(3)] by (simp add: Let_def)
  have fits: ?thesis if "n \<le> ?room"
  proof -
    let ?k2 = "if n = 0 then k1 else set_pipe p ?q k1"
    have k2: "pipewrite_loop n p addr 0 k1 = Ret True ?k2" "hasl (km ?k2) [?l]" "pipes ?k2 = (pipes k)(p \<mapsto> ?q)"
      using that loop k1(2) f q(1) vload_length [OF bs] by (auto simp: map_upd_triv)
    have "take ?room bs = bs" using that vload_length [OF bs] by simp
    then have "wp (pipewrite p addr (int n) k) (\<lambda>r k'. r = int n \<and> hasl (km k') [] \<and>
        pipe_becomes p (pipe_bytes q @ bs) k k')"
      using wake_and_release [OF k2(2), of "ChNread p" "int n"] k1(1) k2(1,3) post
      by (auto simp: pipewrite_def wakeup1_sel elim!: wp_mono dest!: kframe_sel(13) split del: if_split)
    then show ?thesis using that by simp
  qed
  have full: "pipewrite_loop n p addr 0 k1 = pipe_wait p ?q (set_pipe p ?q k1)" if "\<not> n \<le> ?room"
    using that loop by auto
  have fails: ?thesis if n: "\<not> n \<le> ?room" and r: "\<not> readopen q \<or> killed (ptable k ! c)"
  proof -
    have "pipewrite_loop n p addr 0 k1 = Ret False (set_pipe p ?q k1)"
      using full [OF n] r c f by (auto simp: pipe_wait_def with_proc_def pipe_puts_sel)
    moreover have "wp (krelease ?l (set_pipe p ?q k1)) (\<lambda>_ k'. hasl (km k') [] \<and> pipes k' = (pipes k)(p \<mapsto> ?q))"
      using krelease_wp [of "set_pipe p ?q k1" "[?l]" ?l] k1(2) f by (auto elim!: wp_mono dest!: kframe_sel(13))
    ultimately show ?thesis
      using n r k1(1) by (auto simp: pipewrite_def Let_def elim!: wp_mono intro!: post)
  qed
  have sleeps: ?thesis if n: "\<not> n \<le> ?room" and r: "readopen q" "\<not> killed (ptable k ! c)"
  proof -
    from wakeup_wp [of "set_pipe p ?q k1" "[?l]" "ChNread p"] k1(2) obtain k2 where
      k2: "wakeup (ChNread p) (set_pipe p ?q k1) = Ret () k2" "hasl (km k2) [?l]" "kframe (wakeup1 (Some (ChNread p)) (set_pipe p ?q k1)) k2"
      by (auto simp: wp_iff)
    note f2 = kframe_sel [OF k2(3)]
    have c2: "curproc k2 = Some c" "c < length (ptable k2)" using f2 f c by (simp_all add: wakeup1_sel)
    from sleep_asleep [OF k2(2) _ c2, of "ChNwrite p"] obtain k3 where
      k3: "sleep (ChNwrite p) (Some ?l) k2 = Asleep k3" "hasl (km k3) [PTABLE]"
        "ptable k3 = (ptable k2)[c := (ptable k2 ! c)\<lparr>chan := Some (ChNwrite p), pstate := SLEEPING\<rparr>]" by auto
    have "pipes k3 = (pipes k)(p \<mapsto> ?q)" using sleep_pipes [OF k3(1)] f2 f by (simp add: wakeup1_sel)
    moreover have "pipewrite_loop n p addr 0 k1 = Asleep k3"
      using full [OF n] r c f k2(1) k3(1) by (simp add: pipe_wait_def with_proc_def pipe_puts_sel)
    ultimately show ?thesis
      using n r post k1(1) k3 c2(2) by (auto simp: pipewrite_def Let_def)
  qed
  show ?thesis using fits fails sleeps by blast
qed

lemma pipe_get:
  assumes "pipe_inv q" "nread q \<noteq> nwrite q"
  shows "pipe_bytes q = pdata q ! slot (pdata q) (nread q) # pipe_bytes (q\<lparr>nread := nread q + 1\<rparr>)"
    "pipe_inv (q\<lparr>nread := nread q + 1\<rparr>)"
proof -
  show b: "pipe_bytes q = pdata q ! slot (pdata q) (nread q) # pipe_bytes (q\<lparr>nread := nread q + 1\<rparr>)"
    using rbuf_pop [of "nwrite q" "nread q" "pdata q"] assms(2) by (simp add: pipe_bytes_def)
  have "unat (nwrite q - nread q) = Suc (unat (nwrite q - (nread q + 1)))"
    using arg_cong [OF b, of length] by (simp add: pipe_bytes_def)
  then show "pipe_inv (q\<lparr>nread := nread q + 1\<rparr>)" using assms(1) by (simp add: pipe_inv_def)
qed

lemma vstore_set_pipe: "vstore a bs (set_pipe p q k) = map_option (set_pipe p q) (vstore a bs k)"
proof (induction bs arbitrary: a k)
  case (Cons b bs)
  have "(set_pipe p q k)\<lparr>ram := m\<rparr> = set_pipe p q (k\<lparr>ram := m\<rparr>)" for m by (simp add: set_pipe_def)
  then show ?case using Cons by (simp split: option.split)
qed simp

lemma vstore_frame: "vstore a bs k = Some k' \<Longrightarrow> k' = k\<lparr>ram := ram k'\<rparr>"
proof (induction bs arbitrary: a k)
  case (Cons b bs)
  then show ?case by (fastforce split: option.splits)
qed simp

lemma vstore_sel:
  assumes "vstore a bs k = Some k'"
  shows "km k' = km k" "ptable k' = ptable k" "pipes k' = pipes k"
  using arg_cong [OF vstore_frame [OF assms], of km] arg_cong [OF vstore_frame [OF assms], of ptable]
    arg_cong [OF vstore_frame [OF assms], of pipes] by simp_all

lemma vstore_cong:
  "cr3 (this_cpu (km k)) = cr3 (this_cpu (km k')) \<Longrightarrow> ram k = ram k' \<Longrightarrow> map_option ram (vstore a bs k) = map_option ram (vstore a bs k')"
proof (induction bs arbitrary: a k k')
  case (Cons b bs)
  have "phys k a = phys k' a" using Cons.prems by (simp add: phys_def)
  then show ?case using Cons.prems Cons.IH [of "k\<lparr>ram := m\<rparr>" "k'\<lparr>ram := m\<rparr>" for m] by (simp split: option.split)
qed simp

lemma piperead_loop_eq:
  assumes "pipes k p = Some q" "pipe_inv q" "vstore (addr + word_of_nat i) (take m (pipe_bytes q)) k = Some k'"
  shows "\<exists>q'. piperead_loop m p addr i k = Ret (i + length (take m (pipe_bytes q))) (set_pipe p q' k') \<and>
    pipe_inv q' \<and> pipe_bytes q' = drop m (pipe_bytes q)"
  using assms
proof (induction m arbitrary: i q k k')
  case 0
  then show ?case using set_pipe_same [OF 0(1)] by (intro exI [of _ q]) simp
next
  case (Suc m)
  show ?case
  proof (cases "nread q = nwrite q")
    case True
    then have e: "pipe_bytes q = []" by (simp add: pipe_bytes_def)
    then show ?thesis
      using True Suc.prems set_pipe_same [OF Suc.prems(1)] by (intro exI [of _ q]) (simp add: with_pipe_def)
  next
    case False
    let ?b = "pdata q ! slot (pdata q) (nread q)" and ?q = "q\<lparr>nread := nread q + 1\<rparr>"
    note g = pipe_get [OF Suc.prems(2) False]
    from Suc.prems(3) g(1) obtain k1 where
      k1: "vwrite (addr + word_of_nat i) [?b] k = Ret () k1" "vstore (addr + word_of_nat (Suc i)) (take m (pipe_bytes ?q)) k1 = Some k'"
      by (auto simp: vwrite_def add.commute add.left_commute split: option.splits)
    have "piperead_loop (Suc m) p addr i k = piperead_loop m p addr (Suc i) (set_pipe p ?q k1)"
      using Suc.prems(1) False k1(1) by (simp add: with_pipe_def)
    moreover have "vstore (addr + word_of_nat (Suc i)) (take m (pipe_bytes ?q)) (set_pipe p ?q k1) = Some (set_pipe p ?q k')"
      using k1(2) by (simp add: vstore_set_pipe)
    ultimately show ?thesis
      using Suc.IH [of "set_pipe p ?q k1" ?q "Suc i" "set_pipe p ?q k'"] g by auto
  qed
qed

text \<open>
  C9. \<open>piperead\<close> takes bytes from the front of the queue: it stores up to \<open>n\<close> of them at the
  address, returns their number, leaves the rest and wakes the writers. With nothing to read
  it returns 0 once no writer is left; while there is one it sleeps, or fails if the process
  was killed.
\<close>

theorem piperead_takes:
  assumes h: "hasl (km k) []" and c: "curproc k = Some c" "c < length (ptable k)"
    and q: "pipes k p = Some q" "pipe_inv q" and st: "vstore addr (take n (pipe_bytes q)) k = Some ks"
  shows "if pipe_bytes q = [] \<and> writeopen q then
      if killed (ptable k ! c) then wp (piperead p addr (int n) k) (\<lambda>r k'. r = - 1 \<and> hasl (km k') [] \<and> pipes k' = pipes k)
      else \<exists>k'. piperead p addr (int n) k = Asleep k' \<and> hasl (km k') [PTABLE] \<and> pipes k' = pipes k \<and>
        pstate (ptable k' ! c) = SLEEPING \<and> chan (ptable k' ! c) = Some (ChNread p)
    else wp (piperead p addr (int n) k) (\<lambda>r k'. r = int (length (take n (pipe_bytes q))) \<and> hasl (km k') [] \<and>
      pipe_becomes p (drop n (pipe_bytes q)) k k' \<and> ram k' = ram ks \<and> ptable k' = ptable (wakeup1 (Some (ChNwrite p)) k))"
proof -
  let ?l = "PIPELK p"
  from kacquire_wp [OF h, of ?l] obtain k1 where
    k1: "kacquire ?l k = Ret () k1" "hasl (km k1) [?l]" "kframe k k1" by (auto simp: wp_iff)
  note f = kframe_sel [OF k1(3)]
  show ?thesis
  proof (cases "pipe_bytes q = [] \<and> writeopen q")
    case wait: True
    then have e: "nread q = nwrite q" by (simp add: pipe_empty_iff)
    show ?thesis
    proof (cases "killed (ptable k ! c)")
      case True
      have "wp (krelease ?l k1) (\<lambda>_ k'. hasl (km k') [] \<and> pipes k' = pipes k)"
        using krelease_wp [OF k1(2), of ?l] f by (auto elim!: wp_mono dest!: kframe_sel(13))
      then show ?thesis
        using True wait e k1(1) q(1) c f by (auto simp: piperead_def with_pipe_def with_proc_def elim!: wp_mono)
    next
      case False
      from sleep_asleep [OF k1(2), of c "ChNread p"] c f obtain k2 where
        k2: "sleep (ChNread p) (Some ?l) k1 = Asleep k2" "hasl (km k2) [PTABLE]"
          "ptable k2 = (ptable k1)[c := (ptable k1 ! c)\<lparr>chan := Some (ChNread p), pstate := SLEEPING\<rparr>]" by auto
      then show ?thesis
        using False wait e k1(1) q(1) c f sleep_pipes [OF k2(1)] by (auto simp: piperead_def with_pipe_def with_proc_def)
    qed
  next
    case False
    have "cr3 (this_cpu (km k1)) = cr3 (this_cpu (km k))" using k1(3) by (simp add: kframe_def mframe_def this_cpu_def)
    then obtain ks1 where ks1: "vstore addr (take n (pipe_bytes q)) k1 = Some ks1" "ram ks1 = ram ks"
      using vstore_cong [of k1 k addr "take n (pipe_bytes q)"] f(8) st by auto
    obtain q' where q': "piperead_loop n p addr 0 k1 = Ret (length (take n (pipe_bytes q))) (set_pipe p q' ks1)"
        "pipe_inv q'" "pipe_bytes q' = drop n (pipe_bytes q)"
      using piperead_loop_eq [of k1 p q addr 0 n ks1] q f(13) ks1(1) by auto
    let ?k = "set_pipe p q' ks1"
    have k: "hasl (km ?k) [?l]" "ptable ?k = ptable k" "pipes ?k = (pipes k)(p \<mapsto> q')" "ram ?k = ram ks"
      using vstore_sel [OF ks1(1)] k1(2) f ks1(2) by simp_all
    have "wp (bindR (wakeup (ChNwrite p) ?k) (\<lambda>_ k. bindR (krelease ?l k) (\<lambda>_. Ret r)))
      (\<lambda>r' k'. r' = r \<and> hasl (km k') [] \<and> pipe_becomes p (drop n (pipe_bytes q)) k k' \<and> ram k' = ram ks \<and>
         ptable k' = ptable (wakeup1 (Some (ChNwrite p)) k))" for r :: int
    proof -
      have "pipe_becomes p (drop n (pipe_bytes q)) k k' \<and> ram k' = ram ks \<and> ptable k' = ptable (wakeup1 (Some (ChNwrite p)) k)"
        if "kframe (wakeup1 (Some (ChNwrite p)) ?k) k'" for k'
        using kframe_sel [OF that] k(2-4) q'(2,3) unfolding pipe_becomes_def by (auto simp: wakeup1_def)
      then show ?thesis
        by (intro wp_mono [OF wake_and_release [OF k(1)]]) auto
    qed
    then have "wp (piperead p addr (int n) k) (\<lambda>r k'. r = int (length (take n (pipe_bytes q))) \<and> hasl (km k') [] \<and>
      pipe_becomes p (drop n (pipe_bytes q)) k k' \<and> ram k' = ram ks \<and> ptable k' = ptable (wakeup1 (Some (ChNwrite p)) k))"
      using False k1(1) q(1) f(13) q'(1) by (auto simp: piperead_def with_pipe_def pipe_empty_iff simp del: length_take)
    then show ?thesis using False by auto
  qed
qed

text \<open>A process in the kernel, with a pipe whose counters are about to wrap around, for the examples.\<close>

definition pipe_kern :: kern where
  "pipe_kern = set_pipe 0x80300000 \<lparr>pdata = replicate PIPESIZE 0, nread = 0xFFFFFFFF, nwrite = 0xFFFFFFFF,
     readopen = True, writeopen = True\<rparr> (running0 3)"

lemma pipe_kern_facts:
  "hasl (km pipe_kern) []" "curproc pipe_kern = Some 3" "3 < length (ptable pipe_kern)" "ram pipe_kern = (\<lambda>_. 0)"
  using running0_facts [of 3] by (simp_all add: pipe_kern_def NPROC_def) (simp add: running0_def set_curproc_def kern0_def)

theorem pipewrite_appends_witness:
  "wp (pipewrite 0x80300000 0x80400000 3 pipe_kern) (\<lambda>r k'. r = 3 \<and> pipe_becomes 0x80300000 [0, 0, 0] pipe_kern k')"
proof -
  let ?q = "\<lparr>pdata = replicate PIPESIZE 0, nread = 0xFFFFFFFF, nwrite = 0xFFFFFFFF, readopen = True, writeopen = True\<rparr> :: pipe"
  have q: "pipes pipe_kern 0x80300000 = Some ?q" "pipe_inv ?q" "pipe_bytes ?q = []"
    by (simp_all add: pipe_kern_def pipe_inv_def pipe_bytes_def)
  have "vload 0x80400000 3 pipe_kern = Some [0, 0, 0]"
    by (simp add: numeral_3_eq_3 phys_def pipe_kern_facts)
  then show ?thesis
    using pipewrite_appends [OF pipe_kern_facts(1-3) q(1,2)] q(3) by (fastforce elim!: wp_mono)
qed

theorem piperead_takes_witness:
  "\<exists>k'. piperead 0x80300000 0x80400000 3 pipe_kern = Asleep k' \<and> pstate (ptable k' ! 3) = SLEEPING"
proof -
  let ?q = "\<lparr>pdata = replicate PIPESIZE 0, nread = 0xFFFFFFFF, nwrite = 0xFFFFFFFF, readopen = True, writeopen = True\<rparr> :: pipe"
  have q: "pipes pipe_kern 0x80300000 = Some ?q" "pipe_inv ?q" "pipe_bytes ?q = []"
    by (simp_all add: pipe_kern_def pipe_inv_def pipe_bytes_def)
  moreover have "\<not> killed (ptable pipe_kern ! 3)"
    using running0_facts(3) [of 3] by (simp add: pipe_kern_def NPROC_def unused_proc_def)
  ultimately show ?thesis
    using piperead_takes [OF pipe_kern_facts(1-3) q(1,2), where addr = "0x80400000" and n = 3 and ks = pipe_kern] q(3) by fastforce
qed

end
