(* ===== verification/Kbd.thy ===== *)
theory Kbd
  imports Console
begin

text \<open>
  The keyboard driver (\<open>src/kbd.c\<close>, the tables of \<open>src/kbd.h\<close>) and the receive side of the
  serial port (\<open>src/uart.c\<close>). The keyboard controller is the list of scan codes it holds, the
  serial port the list of bytes received; \<open>kbdgetc\<close> and \<open>uartgetc\<close> take the next one, and the
  interrupt handlers pass what they deliver to \<open>consoleintr\<close>.
\<close>

section \<open>kbd.h\<close>

abbreviation SHIFT :: u32 where "SHIFT \<equiv> 1"
abbreviation CTL :: u32 where "CTL \<equiv> 2"
abbreviation ALT :: u32 where "ALT \<equiv> 4"
abbreviation CAPSLOCK :: u32 where "CAPSLOCK \<equiv> 8"
abbreviation NUMLOCK :: u32 where "NUMLOCK \<equiv> 16"
abbreviation SCROLLLOCK :: u32 where "SCROLLLOCK \<equiv> 32"
abbreviation E0ESC :: u32 where "E0ESC \<equiv> 64"

definition shiftcode :: "u8 \<Rightarrow> u32" where
  "shiftcode d =
     (if d = 0x1D then CTL else if d = 0x2A then SHIFT else if d = 0x36 then SHIFT
      else if d = 0x38 then ALT else if d = 0x9D then CTL else if d = 0xB8 then ALT else 0)"

definition togglecode :: "u8 \<Rightarrow> u32" where
  "togglecode d =
     (if d = 0x3A then CAPSLOCK else if d = 0x45 then NUMLOCK else if d = 0x46 then SCROLLLOCK else 0)"

text \<open>The entries from 0x9C on, which the three character tables share up to keypad Enter and \<open>/\<close>.\<close>

definition keypad :: "u8 \<Rightarrow> u8 \<Rightarrow> u8 \<Rightarrow> u8" where
  "keypad enter slash d =
     (if d = 0x9C then enter else if d = 0xB5 then slash
      else if d = 0xC8 then 0xE2 else if d = 0xD0 then 0xE3
      else if d = 0xC9 then 0xE6 else if d = 0xD1 then 0xE7
      else if d = 0xCB then 0xE4 else if d = 0xCD then 0xE5
      else if d = 0x97 then 0xE0 else if d = 0xCF then 0xE1
      else if d = 0xD2 then 0xE8 else if d = 0xD3 then 0xE9 else 0)"

definition normal_row :: bytes where
  "normal_row =
     [0, 0x1B] @ str ''1234567890-='' @ [8, 9] @ str ''qwertyuiop[]'' @ [10, 0] @ str ''asdfghjkl;'' @
     [39, 96, 0, 92] @ str ''zxcvbnm,./'' @ [0, 42, 0, 32] @ replicate 13 0 @ str ''789-456+1230.'' @ replicate 4 0"

definition normalmap :: "u8 \<Rightarrow> u8" where
  "normalmap d = (if unat d < length normal_row then normal_row ! unat d else keypad 10 47 d)"

definition shift_row :: bytes where
  "shift_row =
     [0, 27] @ str ''!@#$%^&*()_+'' @ [8, 9] @ str ''QWERTYUIOP{}'' @ [10, 0] @ str ''ASDFGHJKL:'' @
     [34, 126, 0, 124] @ str ''ZXCVBNM<>?'' @ [0, 42, 0, 32] @ replicate 13 0 @ str ''789-456+1230.'' @ replicate 4 0"

definition shiftmap :: "u8 \<Rightarrow> u8" where
  "shiftmap d = (if unat d < length shift_row then shift_row ! unat d else keypad 10 47 d)"

text \<open>\<open>C(x)\<close>, Control-\<open>x\<close>.\<close>

definition ctrl :: "string \<Rightarrow> bytes" where
  "ctrl s = map (\<lambda>c. chr c - 64) s"

definition ctl_row :: bytes where
  "ctl_row =
     replicate 16 0 @ ctrl ''QWERTYUIOP'' @ [0, 0, 13, 0] @ ctrl ''ASDFGHJKL'' @ [0, 0, 0, 0] @ [92 - 64] @
     ctrl ''ZXCVBNM'' @ [0, 0] @ ctrl ''/'' @ [0, 0]"

definition ctlmap :: "u8 \<Rightarrow> u8" where
  "ctlmap d = (if unat d < length ctl_row then ctl_row ! unat d else keypad 13 (47 - 64) d)"

section \<open>kbd.c\<close>

definition charcode :: "u32 \<Rightarrow> u8 \<Rightarrow> u8" where
  "charcode i = (if i = 0 then normalmap else if i = 1 then shiftmap else ctlmap)"

text \<open>
  The keyboard state: the static variable \<open>shift\<close> and the scan codes in the controller.
\<close>

record kbd =
  kshift :: u32
  kcodes :: bytes

definition kbdgetc :: "kbd \<Rightarrow> int \<times> kbd" where
  "kbdgetc s =
     (case kcodes s of
        [] \<Rightarrow> (- 1, s)
      | code # rest \<Rightarrow>
          (let s = s\<lparr>kcodes := rest\<rparr>; shift = kshift s
           in if code = 0xE0 then (0, s\<lparr>kshift := shift OR E0ESC\<rparr>)
              else if code AND 0x80 \<noteq> 0
              then let code = (if shift AND E0ESC \<noteq> 0 then code else code AND 0x7F)
                   in (0, s\<lparr>kshift := shift AND NOT (shiftcode code OR E0ESC)\<rparr>)
              else let esc = (shift AND E0ESC \<noteq> 0);
                       code = (if esc then code OR 0x80 else code);
                       shift = (if esc then shift AND NOT E0ESC else shift);
                       shift = (shift OR shiftcode code) XOR togglecode code;
                       c = charcode (shift AND (CTL OR SHIFT)) code;
                       c = (if shift AND CAPSLOCK \<noteq> 0
                            then if 97 \<le> c \<and> c \<le> 122 then c - 32
                                 else if 65 \<le> c \<and> c \<le> 90 then c + 32 else c
                            else c)
                   in (uint c, s\<lparr>kshift := shift\<rparr>)))"

text \<open>What the loop of \<open>consoleintr\<close> gets from \<open>kbdgetc\<close> before its first negative value.\<close>

fun kbd_drain :: "nat \<Rightarrow> kbd \<Rightarrow> int list \<times> kbd" where
  "kbd_drain 0 s = ([], s)"
| "kbd_drain (Suc n) s =
     (let (c, s) = kbdgetc s
      in if c < 0 then ([], s) else let (cs, s) = kbd_drain n s in (c # cs, s))"

text \<open>Each call takes a scan code, so one more call than there are scan codes ends the loop.\<close>

definition kbdintr :: "kbd \<Rightarrow> kern \<Rightarrow> (unit, kern) outcome \<times> kbd" where
  "kbdintr s k = (let (cs, s) = kbd_drain (Suc (length (kcodes s))) s in (consoleintr cs k, s))"

section \<open>uart.c\<close>

definition uartgetc :: "bool \<Rightarrow> bytes \<Rightarrow> int \<times> bytes" where
  "uartgetc present rx =
     (if \<not> present then (- 1, rx) else case rx of [] \<Rightarrow> (- 1, rx) | c # rest \<Rightarrow> (uint c, rest))"

definition uartintr :: "bytes \<Rightarrow> kern \<Rightarrow> (unit, kern) outcome \<times> bytes" where
  "uartintr rx k =
     (if uart (con k) then (consoleintr (map uint rx) k, []) else (consoleintr [] k, rx))"

section \<open>The keyboard delivers bytes and the loop ends\<close>

lemma kbdgetc_pending:
  "kcodes s = c # rest \<Longrightarrow> \<exists>v s'. kbdgetc s = (v, s') \<and> 0 \<le> v \<and> v < 256 \<and> kcodes s' = rest"
  using uint_lt2p [where 'a = 8] by (auto simp: kbdgetc_def Let_def)

lemma kbd_drain_complete:
  assumes "length (kcodes s) < n"
  shows "\<exists>cs s'. kbd_drain n s = (cs, s') \<and> (\<forall>c \<in> set cs. 0 \<le> c \<and> c < 256) \<and> kcodes s' = [] \<and>
    length cs = length (kcodes s) \<and> fst (kbdgetc s') < 0"
  using assms
proof (induction n arbitrary: s)
  case 0
  then show ?case by simp
next
  case (Suc n)
  show ?case
  proof (cases "kcodes s")
    case Nil
    then show ?thesis by (simp add: kbdgetc_def)
  next
    case (Cons c rest)
    from kbdgetc_pending [OF this] obtain v s' where v: "kbdgetc s = (v, s')" "0 \<le> v" "v < 256" "kcodes s' = rest"
      by blast
    then show ?thesis using Suc.IH [of s'] Suc.prems Cons by auto
  qed
qed

lemma uart_drain: "fst (uartgetc True (c # rx)) = uint c \<and> snd (uartgetc True (c # rx)) = rx \<and> fst (uartgetc True []) < 0"
  by (simp add: uartgetc_def)

end
