(* ===== verification/File.thy ===== *)
theory File
  imports Fs Pipe Kbd
begin

text \<open>
  Open files (\<open>src/file.c\<close>) and \<open>pipealloc\<close> of \<open>src/pipe.c\<close>. The state of the whole kernel
  adds to the file system the table of open files, the flag \<open>first\<close> of \<open>forkret\<close>, the
  input devices, and the bytes an uninitialised local variable on the kernel stack holds. A pointer to a file is its index in the table. The routines take addresses
  of the calling process and move the bytes through its page table.
\<close>

section \<open>State\<close>

definition NFILE :: nat where "NFILE = 100"

datatype fdtype = FD_NONE | FD_PIPE | FD_INODE

record kfile =
  ftype :: fdtype
  fref :: int
  freadable :: bool
  fwritable :: bool
  fpipe :: u32
  fip :: nat
  foff :: u32

record sys =
  sfs :: fs
  ftable :: "kfile list"
  first :: bool
  kbdst :: kbd
  uart_rx :: bytes
  stale :: bytes

definition on_fs :: "(fs \<Rightarrow> ('a, fs) outcome) \<Rightarrow> sys \<Rightarrow> ('a, sys) outcome" where
  "on_fs = zoom sfs (\<lambda>f s. s\<lparr>sfs := f\<rparr>)"

definition on_slog :: "(log \<Rightarrow> ('a, log) outcome) \<Rightarrow> sys \<Rightarrow> ('a, sys) outcome" where
  "on_slog f = on_fs (on_log f)"

definition on_skern :: "(kern \<Rightarrow> ('a, kern) outcome) \<Rightarrow> sys \<Rightarrow> ('a, sys) outcome" where
  "on_skern f = on_fs (on_fkern f)"

abbreviation skern :: "sys \<Rightarrow> kern" where "skern s \<equiv> fkern (sfs s)"

definition upd_file :: "nat \<Rightarrow> (kfile \<Rightarrow> kfile) \<Rightarrow> sys \<Rightarrow> sys" where
  "upd_file f g s = s\<lparr>ftable := (ftable s)[f := g (ftable s ! f)]\<rparr>"

section \<open>file.c\<close>

definition fileinit :: "sys \<Rightarrow> (unit, sys) outcome" where
  "fileinit = on_skern (\<lambda>k. Ret () (k\<lparr>km := initlock FTABLE ''ftable'' (km k)\<rparr>))"

definition filealloc :: "sys \<Rightarrow> (nat option, sys) outcome" where
  "filealloc s =
     bindR (on_skern (kacquire FTABLE) s) (\<lambda>_ s.
     case first_idx (\<lambda>f. fref f = 0) (ftable s) of
       Some f \<Rightarrow> bindR (on_skern (krelease FTABLE) (upd_file f (\<lambda>x. x\<lparr>fref := 1\<rparr>) s)) (\<lambda>_. Ret (Some f))
     | None \<Rightarrow> bindR (on_skern (krelease FTABLE) s) (\<lambda>_. Ret None))"

definition filedup :: "nat \<Rightarrow> sys \<Rightarrow> (nat, sys) outcome" where
  "filedup f s =
     bindR (on_skern (kacquire FTABLE) s) (\<lambda>_ s.
     if fref (ftable s ! f) < 1 then Panic ''filedup''
     else bindR (on_skern (krelease FTABLE) (upd_file f (\<lambda>x. x\<lparr>fref := fref x + 1\<rparr>) s)) (\<lambda>_. Ret f))"

definition fileclose :: "nat \<Rightarrow> sys \<Rightarrow> (unit, sys) outcome" where
  "fileclose f s =
     bindR (on_skern (kacquire FTABLE) s) (\<lambda>_ s.
     if fref (ftable s ! f) < 1 then Panic ''fileclose''
     else let s = upd_file f (\<lambda>x. x\<lparr>fref := fref x - 1\<rparr>) s
          in if fref (ftable s ! f) > 0 then on_skern (krelease FTABLE) s
             else let ff = ftable s ! f;
                      s = upd_file f (\<lambda>x. x\<lparr>fref := 0, ftype := FD_NONE\<rparr>) s
                  in bindR (on_skern (krelease FTABLE) s) (\<lambda>_ s.
                     case ftype ff of
                       FD_PIPE \<Rightarrow> on_skern (pipeclose (fpipe ff) (fwritable ff)) s
                     | FD_INODE \<Rightarrow>
                         bindR (on_slog begin_op s) (\<lambda>_ s.
                         bindR (on_fs (iput (fip ff)) s) (\<lambda>_.
                         on_slog end_op))
                     | FD_NONE \<Rightarrow> Ret () s))"

definition filestat :: "nat \<Rightarrow> sys \<Rightarrow> (stat option, sys) outcome" where
  "filestat f s =
     (if ftype (ftable s ! f) = FD_INODE
      then let ip = fip (ftable s ! f)
           in bindR (on_fs (ilock (Some ip)) s) (\<lambda>_ s.
              let st = stati (inodes (sfs s) ! ip)
              in bindR (on_fs (iunlock (Some ip)) s) (\<lambda>_. Ret (Some st)))
      else Ret None s)"

definition fileread :: "nat \<Rightarrow> u32 \<Rightarrow> int \<Rightarrow> sys \<Rightarrow> (int, sys) outcome" where
  "fileread f addr n s =
     (let x = ftable s ! f
      in if \<not> freadable x then Ret (- 1) s
         else case ftype x of
           FD_PIPE \<Rightarrow> on_skern (piperead (fpipe x) addr n) s
         | FD_INODE \<Rightarrow>
             bindR (on_fs (ilock (Some (fip x))) s) (\<lambda>_ s.
             bindR (on_fs (readi (fip x) (foff (ftable s ! f)) (word_of_int n)) s) (\<lambda>r s.
             bindR (case r of None \<Rightarrow> Ret () s | Some bs \<Rightarrow> on_skern (vwrite addr bs) s) (\<lambda>_ s.
             let r = (case r of None \<Rightarrow> - 1 | Some bs \<Rightarrow> int (length bs));
                 s = (if r > 0 then upd_file f (\<lambda>x. x\<lparr>foff := foff x + word_of_int r\<rparr>) s else s)
             in bindR (on_fs (iunlock (Some (fip x))) s) (\<lambda>_. Ret r))))
         | FD_NONE \<Rightarrow> Panic ''fileread'')"

text \<open>One transaction of \<open>filewrite\<close>, and its loop; every full turn writes at least one byte.\<close>

definition filewrite_chunk :: "nat \<Rightarrow> u32 \<Rightarrow> nat \<Rightarrow> sys \<Rightarrow> (int, sys) outcome" where
  "filewrite_chunk f addr n1 s =
     (let ip = fip (ftable s ! f)
      in bindR (on_slog begin_op s) (\<lambda>_ s.
         bindR (on_fs (ilock (Some ip)) s) (\<lambda>_ s.
         bindR (on_skern (vread addr n1) s) (\<lambda>bs s.
         bindR (on_fs (writei ip bs (foff (ftable s ! f))) s) (\<lambda>r s.
         let s = (if r > 0 then upd_file f (\<lambda>x. x\<lparr>foff := foff x + word_of_int r\<rparr>) s else s)
         in bindR (on_fs (iunlock (Some ip)) s) (\<lambda>_ s.
            bindR (on_slog end_op s) (\<lambda>_. Ret r)))))))"

definition maxwrite :: nat where
  "maxwrite = ((LOGSIZE - 1 - 1 - 2) div 2) * 512"

fun filewrite_loop :: "nat \<Rightarrow> nat \<Rightarrow> u32 \<Rightarrow> nat \<Rightarrow> nat \<Rightarrow> sys \<Rightarrow> (nat, sys) outcome" where
  "filewrite_loop 0 f addr i n s = Diverge"
| "filewrite_loop (Suc fuel) f addr i n s =
     (if i < n
      then let n1 = (if n - i > maxwrite then maxwrite else n - i)
           in bindR (filewrite_chunk f (addr + word_of_nat i) n1 s) (\<lambda>r s.
              if r < 0 then Ret i s
              else if r \<noteq> int n1 then Panic ''short filewrite''
              else filewrite_loop fuel f addr (i + nat r) n s)
      else Ret i s)"

definition filewrite :: "nat \<Rightarrow> u32 \<Rightarrow> int \<Rightarrow> sys \<Rightarrow> (int, sys) outcome" where
  "filewrite f addr n s =
     (let x = ftable s ! f
      in if \<not> fwritable x then Ret (- 1) s
         else case ftype x of
           FD_PIPE \<Rightarrow> on_skern (pipewrite (fpipe x) addr n) s
         | FD_INODE \<Rightarrow>
             bindR (filewrite_loop (Suc (nat n)) f addr 0 (nat n) s) (\<lambda>i.
             Ret (if int i = n then n else - 1))
         | FD_NONE \<Rightarrow> Panic ''filewrite'')"

section \<open>pipealloc\<close>

definition zero_pipe :: "bytes \<Rightarrow> pipe" where
  "zero_pipe d = \<lparr>pdata = d, nread = 0, nwrite = 0, readopen = True, writeopen = True\<rparr>"

text \<open>
  \<open>pipealloc\<close>: the read end and the write end, or \<open>None\<close> after releasing what was allocated.
  The data bytes of a new pipe are whatever the page held.
\<close>

definition pipealloc :: "sys \<Rightarrow> ((nat \<times> nat) option, sys) outcome" where
  "pipealloc s =
     bindR (filealloc s) (\<lambda>r0 s.
     case r0 of
       None \<Rightarrow> Ret None s
     | Some f0 \<Rightarrow>
         bindR (filealloc s) (\<lambda>r1 s.
         case r1 of
           None \<Rightarrow> bindR (fileclose f0 s) (\<lambda>_. Ret None)
         | Some f1 \<Rightarrow>
             bindR (on_skern kalloc s) (\<lambda>p s.
             if p = 0 then bindR (fileclose f0 s) (\<lambda>_ s. bindR (fileclose f1 s) (\<lambda>_. Ret None))
             else bindR (on_skern (\<lambda>k. Ret () (k\<lparr>pipes := (pipes k)(p \<mapsto> zero_pipe (load_list (v2p p) PIPESIZE (ram k))),
                           km := initlock (PIPELK p) ''pipe'' (km k)\<rparr>)) s) (\<lambda>_ s.
                  let s = upd_file f0 (\<lambda>x. x\<lparr>ftype := FD_PIPE, freadable := True, fwritable := False, fpipe := p\<rparr>) s;
                      s = upd_file f1 (\<lambda>x. x\<lparr>ftype := FD_PIPE, freadable := False, fwritable := True, fpipe := p\<rparr>) s
                  in Ret (Some (f0, f1)) s))))"

section \<open>Reference counts\<close>

lemma on_skern_wp: "wp (on_skern h s) Q \<longleftrightarrow>
    wp (h (skern s)) (\<lambda>x k. Q x (s\<lparr>sfs := (sfs s)\<lparr>fl := (fl (sfs s))\<lparr>lb := (lb (fl (sfs s)))\<lparr>bk := k\<rparr>\<rparr>\<rparr>\<rparr>))"
  by (simp add: on_skern_def on_fs_def on_fkern_def on_log_def on_lkern_def on_bio_def on_kern_def)

text \<open>What taking and releasing the lock of the file table leaves alone.\<close>

definition sframe :: "sys \<Rightarrow> sys \<Rightarrow> bool" where
  "sframe s t \<longleftrightarrow> kframe (skern s) (skern t) \<and> ftable t = ftable s \<and> inodes (sfs t) = inodes (sfs s) \<and>
     bufs (lb (fl (sfs t))) = bufs (lb (fl (sfs s))) \<and> disk (lb (fl (sfs t))) = disk (lb (fl (sfs s)))"

lemma sframe_trans: "sframe a b \<Longrightarrow> sframe b c \<Longrightarrow> sframe a c"
  by (auto simp: sframe_def intro: kframe_trans)

lemma sframe_ftable: "sframe s t \<Longrightarrow> ftable t = ftable s"
  by (simp add: sframe_def)

lemma slock_wp:
  assumes "hasl (km (skern s)) []"
  shows "wp (on_skern (kacquire FTABLE) s) (\<lambda>_ t. hasl (km (skern t)) [FTABLE] \<and> sframe s t)"
  unfolding on_skern_wp by (rule wp_mono [OF kacquire_wp [OF assms]]) (auto simp: sframe_def)

lemma sunlock_wp:
  assumes "hasl (km (skern s)) [FTABLE]"
  shows "wp (on_skern (krelease FTABLE) s) (\<lambda>_ t. hasl (km (skern t)) [] \<and> sframe s t)"
  unfolding on_skern_wp using krelease_wp [OF assms, of FTABLE] by (auto simp: sframe_def elim!: wp_mono)

lemma upd_file_frame: "sframe s t \<Longrightarrow> sframe (upd_file f g s) (upd_file f g t)" "skern (upd_file f g s) = skern s"
  "ftable (upd_file f g s) = (ftable s)[f := g (ftable s ! f)]"
  by (auto simp: sframe_def upd_file_def)

lemma filedup_wp:
  assumes "hasl (km (skern s)) []" "1 \<le> fref (ftable s ! f)"
  shows "wp (filedup f s) (\<lambda>r t. r = f \<and> hasl (km (skern t)) [] \<and> sframe (upd_file f (\<lambda>x. x\<lparr>fref := fref x + 1\<rparr>) s) t)"
proof -
  let ?g = "\<lambda>x :: kfile. x\<lparr>fref := fref x + 1\<rparr>"
  have "wp (on_skern (krelease FTABLE) (upd_file f ?g t)) (\<lambda>_ u. hasl (km (skern u)) [] \<and> sframe (upd_file f ?g s) u)"
    if "hasl (km (skern t)) [FTABLE]" "sframe s t" for t
    using sunlock_wp [of "upd_file f ?g t"] that upd_file_frame(1) [OF that(2), of f ?g]
    by (auto simp: upd_file_frame(2) elim!: wp_mono intro: sframe_trans)
  then show ?thesis
    using slock_wp [OF assms(1)] assms(2) by (auto simp: filedup_def sframe_ftable elim!: wp_mono)
qed

lemma fileclose_shared_wp:
  assumes "hasl (km (skern s)) []" "2 \<le> fref (ftable s ! f)" "f < length (ftable s)"
  shows "wp (fileclose f s) (\<lambda>_ t. hasl (km (skern t)) [] \<and> sframe (upd_file f (\<lambda>x. x\<lparr>fref := fref x - 1\<rparr>) s) t)"
proof -
  let ?g = "\<lambda>x :: kfile. x\<lparr>fref := fref x - 1\<rparr>"
  have "wp (on_skern (krelease FTABLE) (upd_file f ?g t)) (\<lambda>_ u. hasl (km (skern u)) [] \<and> sframe (upd_file f ?g s) u)"
    if "hasl (km (skern t)) [FTABLE]" "sframe s t" for t
    using sunlock_wp [of "upd_file f ?g t"] that upd_file_frame(1) [OF that(2), of f ?g]
    by (auto simp: upd_file_frame(2) elim!: wp_mono intro: sframe_trans)
  then show ?thesis
    using slock_wp [OF assms(1)] assms(2,3)
    by (auto simp: fileclose_def Let_def sframe_ftable upd_file_frame(3) elim!: wp_mono)
qed

text \<open>
  C0. A reference taken with \<open>filedup\<close> and given back with \<open>fileclose\<close> leaves the file table, the
  inodes, the buffers and the disk exactly as they were: the file is not closed as long as
  somebody else has it open.
\<close>

theorem filedup_fileclose:
  assumes "hasl (km (skern s)) []" "f < length (ftable s)" "1 \<le> fref (ftable s ! f)"
  shows "wp (bindR (filedup f s) (\<lambda>f. fileclose f)) (\<lambda>_ t. hasl (km (skern t)) [] \<and> ftable t = ftable s \<and>
    inodes (sfs t) = inodes (sfs s) \<and> bufs (lb (fl (sfs t))) = bufs (lb (fl (sfs s))) \<and> disk (lb (fl (sfs t))) = disk (lb (fl (sfs s))))"
proof -
  have "wp (fileclose f t) (\<lambda>_ u. hasl (km (skern u)) [] \<and> ftable u = ftable s \<and> inodes (sfs u) = inodes (sfs s) \<and>
      bufs (lb (fl (sfs u))) = bufs (lb (fl (sfs s))) \<and> disk (lb (fl (sfs u))) = disk (lb (fl (sfs s))))"
    if t: "hasl (km (skern t)) []" "sframe (upd_file f (\<lambda>x. x\<lparr>fref := fref x + 1\<rparr>) s) t" for t
  proof -
    have ft: "ftable t = (ftable s)[f := (ftable s ! f)\<lparr>fref := fref (ftable s ! f) + 1\<rparr>]"
      using sframe_ftable [OF t(2)] by (simp add: upd_file_frame(3))
    have "wp (fileclose f t) (\<lambda>_ u. hasl (km (skern u)) [] \<and> sframe (upd_file f (\<lambda>x. x\<lparr>fref := fref x - 1\<rparr>) t) u)"
      using t(1) ft assms(2,3) by (intro fileclose_shared_wp) simp_all
    then show ?thesis
      using t(2) ft assms(2) by (auto simp: sframe_def upd_file_def elim!: wp_mono)
  qed
  then show ?thesis
    using filedup_wp [OF assms(1,3)] by (auto elim!: wp_mono)
qed

text \<open>A system around a kernel, for the examples.\<close>

definition sys_of :: "kern \<Rightarrow> sys" where
  "sys_of k =
     \<lparr>sfs = \<lparr>fl = (reboot 0 (\<lambda>_. []))\<lparr>lb := (lb (reboot 0 (\<lambda>_. [])))\<lparr>bk := k\<rparr>\<rparr>,
             fsb = \<lparr>sb_size = 0, sb_nblocks = 0, sb_ninodes = 0, sb_nlog = 0, sb_logstart = 0, sb_inodestart = 0, sb_bmapstart = 0\<rparr>,
             inodes = [], dev_read = (\<lambda>_. None), dev_write = (\<lambda>_. None)\<rparr>,
      ftable = [\<lparr>ftype = FD_PIPE, fref = 1, freadable = True, fwritable = False, fpipe = 0x80300000, fip = 0, foff = 0\<rparr>],
      first = False, kbdst = \<lparr>kshift = 0, kcodes = []\<rparr>, uart_rx = [], stale = []\<rparr>"

lemma sys_of_kern [simp]: "skern (sys_of k) = k"
  by (simp add: sys_of_def)

theorem filedup_fileclose_witness:
  "wp (bindR (filedup 0 (sys_of kern0)) (\<lambda>f. fileclose f)) (\<lambda>_ t. ftable t = ftable (sys_of kern0))"
proof -
  have "0 < length (ftable (sys_of kern0))" "1 \<le> fref (ftable (sys_of kern0) ! 0)" by (simp_all add: sys_of_def)
  then show ?thesis
    using filedup_fileclose [of "sys_of kern0" 0] kern0_hasl by (auto elim!: wp_mono)
qed

end
