(* ===== verification/Proc.thy ===== *)
theory Proc
  imports File
begin

text \<open>
  The life of a process (\<open>src/proc.c\<close>): \<open>allocproc\<close>, \<open>userinit\<close>, \<open>growproc\<close>, \<open>fork\<close>, \<open>clone\<close>,
  \<open>exit\<close>, \<open>wait\<close>, \<open>join\<close> and \<open>forkret\<close>. The trap frame and the saved context of a process
  live on its kernel stack; the process record holds their values. Storing through a user
  address goes through the current page table, and an address that is not mapped is the page
  fault that ends in \<open>panic("trap")\<close>. \<open>exit\<close>, \<open>wait\<close> and \<open>join\<close> end in \<open>Asleep\<close> when they switch
  to the scheduler; a resumed \<open>wait\<close> or \<open>join\<close> scans the table again.
\<close>

section \<open>Creating processes\<close>

definition pinit :: "kern \<Rightarrow> kern" where
  "pinit k = k\<lparr>km := initlock PTABLE ''ptable'' (km k)\<rparr>"

definition load16 :: "u32 \<Rightarrow> kern \<Rightarrow> u16" where
  "load16 a k = ucast (kload32 a k)"

text \<open>The trap frame a stack page happens to hold at an address.\<close>

definition load_tf :: "u32 \<Rightarrow> kern \<Rightarrow> trapframe" where
  "load_tf a k =
     \<lparr>tf_edi = kload32 a k, tf_esi = kload32 (a + 4) k, tf_ebp = kload32 (a + 8) k,
      tf_oesp = kload32 (a + 12) k, tf_ebx = kload32 (a + 16) k, tf_edx = kload32 (a + 20) k,
      tf_ecx = kload32 (a + 24) k, tf_eax = kload32 (a + 28) k,
      tf_gs = load16 (a + 32) k, tf_fs = load16 (a + 36) k, tf_es = load16 (a + 40) k, tf_ds = load16 (a + 44) k,
      tf_trapno = kload32 (a + 48) k, tf_err = kload32 (a + 52) k, tf_eip = kload32 (a + 56) k,
      tf_cs = load16 (a + 60) k, tf_eflags = kload32 (a + 64) k, tf_esp = kload32 (a + 68) k,
      tf_ss = load16 (a + 72) k\<rparr>"

definition zero_tf :: trapframe where
  "zero_tf =
     \<lparr>tf_edi = 0, tf_esi = 0, tf_ebp = 0, tf_oesp = 0, tf_ebx = 0, tf_edx = 0, tf_ecx = 0, tf_eax = 0,
      tf_gs = 0, tf_fs = 0, tf_es = 0, tf_ds = 0, tf_trapno = 0, tf_err = 0, tf_eip = 0, tf_cs = 0,
      tf_eflags = 0, tf_esp = 0, tf_ss = 0\<rparr>"

definition forkret_context :: "u32 \<Rightarrow> kcontext" where
  "forkret_context entry = \<lparr>cx_edi = 0, cx_esi = 0, cx_ebx = 0, cx_ebp = 0, cx_eip = entry\<rparr>"

definition allocproc :: "kern \<Rightarrow> (nat option, kern) outcome" where
  "allocproc k =
     bindR (kacquire PTABLE k) (\<lambda>_ k.
     case first_idx (\<lambda>p. pstate p = UNUSED) (ptable k) of
       None \<Rightarrow> bindR (krelease PTABLE k) (\<lambda>_. Ret None)
     | Some p \<Rightarrow>
         let n = nextpid k;
             k = upd_proc p (\<lambda>q. q\<lparr>pstate := EMBRYO, pid := n\<rparr>) (k\<lparr>nextpid := n + 1\<rparr>)
         in bindR (krelease PTABLE k) (\<lambda>_ k.
            bindR (kalloc k) (\<lambda>stk k.
            let k = upd_proc p (\<lambda>q. q\<lparr>kstack := stk\<rparr>) k
            in if stk = 0 then Ret None (upd_proc p (\<lambda>q. q\<lparr>pstate := UNUSED\<rparr>) k)
               else let sp = stk + KSTACKSIZE - 76;
                        k = upd_proc p (\<lambda>q. q\<lparr>tf := load_tf sp k\<rparr>) k;
                        k = kstore32 (sp - 4) (sym_trapret (syms k)) k
                    in Ret (Some p) (upd_proc p (\<lambda>q. q\<lparr>ctx := forkret_context (sym_forkret (syms k))\<rparr>) k))))"

text \<open>\<open>safestrcpy(p->name, ..., sizeof(p->name))\<close> and \<open>p->name[0] = 0\<close>.\<close>

definition set_pname :: "(nat \<Rightarrow> u8) \<Rightarrow> proc \<Rightarrow> proc" where
  "set_pname s p = p\<lparr>pname := splice_at 0 (safestrcpy s 16) (pname p)\<rparr>"

definition clear_pname :: "proc \<Rightarrow> proc" where
  "clear_pname p = p\<lparr>pname := (pname p)[0 := 0]\<rparr>"

abbreviation upd_sproc :: "nat \<Rightarrow> (proc \<Rightarrow> proc) \<Rightarrow> sys \<Rightarrow> (unit, sys) outcome" where
  "upd_sproc p f \<equiv> on_skern (\<lambda>k. Ret () (upd_proc p f k))"

definition with_sproc :: "(nat \<Rightarrow> sys \<Rightarrow> ('a, sys) outcome) \<Rightarrow> sys \<Rightarrow> ('a, sys) outcome" where
  "with_sproc f s = (case curproc (skern s) of None \<Rightarrow> Panic ''trap'' | Some p \<Rightarrow> f p s)"

definition user_tf :: trapframe where
  "user_tf = zero_tf\<lparr>tf_cs := 0x23, tf_ds := 0x2B, tf_es := 0x2B, tf_ss := 0x2B,
     tf_eflags := 0x200, tf_esp := PGSIZE, tf_eip := 0\<rparr>"

definition userinit :: "sys \<Rightarrow> (unit, sys) outcome" where
  "userinit s =
     bindR (on_skern allocproc s) (\<lambda>r s.
     bindR (on_skern (\<lambda>k. Ret () (k\<lparr>initproc := r\<rparr>)) s) (\<lambda>_ s.
     case r of
       None \<Rightarrow> Panic ''trap''
     | Some p \<Rightarrow>
         bindR (on_skern setupkvm s) (\<lambda>dir s.
         bindR (upd_sproc p (\<lambda>q. q\<lparr>pgdir := dir\<rparr>) s) (\<lambda>_ s.
         if dir = 0 then Panic ''userinit: out of memory?''
         else bindR (on_skern (\<lambda>k. inituvm dir (sym_initcode (syms k)) k) s) (\<lambda>_ s.
              bindR (upd_sproc p (\<lambda>q. set_pname (cstr (str ''initcode''))
                       (q\<lparr>sz := PGSIZE, tf := user_tf\<rparr>)) s) (\<lambda>_ s.
              bindR (on_fs (namei [slash]) s) (\<lambda>ip.
              upd_sproc p (\<lambda>q. q\<lparr>cwd := ip, pstate := RUNNABLE\<rparr>))))))))"

definition growproc :: "int \<Rightarrow> kern \<Rightarrow> (int, kern) outcome" where
  "growproc n k =
     with_proc (\<lambda>c k.
       let old = sz (ptable k ! c); dir = pgdir (ptable k ! c)
       in bindR (if n > 0 then allocuvm dir old (old + word_of_int n) k
                 else if n < 0 then deallocuvm dir old (old + word_of_int n) k
                 else Ret old k) (\<lambda>new k.
          if n \<noteq> 0 \<and> new = 0 then Ret (- 1) k
          else bindR (switchuvm c (upd_proc c (\<lambda>p. p\<lparr>sz := new\<rparr>) k)) (\<lambda>_. Ret 0))) k"

text \<open>The part that \<open>fork\<close> and \<open>clone\<close> share: the descriptors, the directory and the name.\<close>

definition dup_file :: "nat \<Rightarrow> nat \<Rightarrow> nat \<Rightarrow> sys \<Rightarrow> (unit, sys) outcome" where
  "dup_file c np i s =
     (case ofile (ptable (skern s) ! c) ! i of
        None \<Rightarrow> Ret () s
      | Some f \<Rightarrow> bindR (filedup f s) (\<lambda>f. upd_sproc np (\<lambda>p. p\<lparr>ofile := (ofile p)[i := Some f]\<rparr>)))"

definition dup_cwd :: "nat \<Rightarrow> nat \<Rightarrow> sys \<Rightarrow> (unit, sys) outcome" where
  "dup_cwd c np s =
     (case cwd (ptable (skern s) ! c) of
        None \<Rightarrow> Panic ''trap''
      | Some ip \<Rightarrow> bindR (on_fs (idup ip) s) (\<lambda>ip. upd_sproc np (\<lambda>p. p\<lparr>cwd := Some ip\<rparr>)))"

definition inherit :: "nat \<Rightarrow> nat \<Rightarrow> sys \<Rightarrow> (unit, sys) outcome" where
  "inherit c np s =
     bindR (foreach (dup_file c np) [0..<NOFILE] s) (\<lambda>_ s.
     bindR (dup_cwd c np s) (\<lambda>_ s.
     upd_sproc np (set_pname (cstr (pname (ptable (skern s) ! c)))) s))"

definition start_proc :: "nat \<Rightarrow> kern \<Rightarrow> (int, kern) outcome" where
  "start_proc np k =
     (let n = pid (ptable k ! np)
      in bindR (kacquire PTABLE k) (\<lambda>_ k.
         bindR (krelease PTABLE (upd_proc np (\<lambda>p. p\<lparr>pstate := RUNNABLE\<rparr>) k)) (\<lambda>_. Ret n)))"

definition fork :: "sys \<Rightarrow> (int, sys) outcome" where
  "fork s =
     bindR (on_skern allocproc s) (\<lambda>r s.
     case r of
       None \<Rightarrow> Ret (- 1) s
     | Some np \<Rightarrow> with_sproc (\<lambda>c s.
         let p = ptable (skern s) ! c
         in bindR (on_skern (copyuvm (pgdir p) (sz p)) s) (\<lambda>dir s.
            bindR (upd_sproc np (\<lambda>q. q\<lparr>pgdir := dir\<rparr>) s) (\<lambda>_ s.
            if dir = 0
            then bindR (on_skern (\<lambda>k. kfree (kstack (ptable k ! np)) k) s) (\<lambda>_ s.
                 bindR (upd_sproc np (\<lambda>q. q\<lparr>kstack := 0, pstate := UNUSED\<rparr>) s) (\<lambda>_. Ret (- 1)))
            else bindR (upd_sproc np (\<lambda>q. q\<lparr>sz := sz p, parent := Some c, tf := (tf p)\<lparr>tf_eax := 0\<rparr>\<rparr>) s) (\<lambda>_ s.
                 bindR (inherit c np s) (\<lambda>_.
                 on_skern (start_proc np)))))) s)"

definition clone :: "u32 \<Rightarrow> u32 \<Rightarrow> u32 \<Rightarrow> sys \<Rightarrow> (int, sys) outcome" where
  "clone fn arg stack s =
     bindR (on_skern allocproc s) (\<lambda>r s.
     case r of
       None \<Rightarrow> Ret (- 1) s
     | Some np \<Rightarrow> with_sproc (\<lambda>c s.
         let p = ptable (skern s) ! c
         in bindR (upd_sproc np (\<lambda>q. q\<lparr>pgdir := pgdir p, sz := sz p, parent := Some c, tf := tf p\<rparr>) s) (\<lambda>_ s.
            bindR (on_skern (vwrite32 (stack + 4096 - 8) 0xFFFFFFF) s) (\<lambda>_ s.
            bindR (on_skern (vwrite32 (stack + 4096 - 4) arg) s) (\<lambda>_ s.
            bindR (on_skern (vread stack 4096) s) (\<lambda>bs s.
            bindR (on_skern (vwrite stack bs) s) (\<lambda>_ s.
            bindR (upd_sproc np (\<lambda>q. q\<lparr>tf := (tf q)\<lparr>tf_esp := stack + PGSIZE - 8,
                     tf_ebp := stack + PGSIZE - 8, tf_eip := fn\<rparr>\<rparr>) s) (\<lambda>_ s.
            bindR (inherit c np s) (\<lambda>_ s.
            bindR (upd_sproc np (\<lambda>q. q\<lparr>tf := (tf q)\<lparr>tf_eax := 0\<rparr>\<rparr>) s) (\<lambda>_.
            on_skern (start_proc np)))))))))) s)"

section \<open>Ending processes\<close>

definition close_file :: "nat \<Rightarrow> nat \<Rightarrow> sys \<Rightarrow> (unit, sys) outcome" where
  "close_file c fd s =
     (case ofile (ptable (skern s) ! c) ! fd of
        None \<Rightarrow> Ret () s
      | Some f \<Rightarrow> bindR (fileclose f s) (\<lambda>_. upd_sproc c (\<lambda>p. p\<lparr>ofile := (ofile p)[fd := None]\<rparr>)))"

text \<open>The loop that passes abandoned children to init.\<close>

fun reparent :: "nat \<Rightarrow> nat list \<Rightarrow> kern \<Rightarrow> kern" where
  "reparent c [] k = k"
| "reparent c (i # is) k =
     (if parent (ptable k ! i) = Some c
      then let k = upd_proc i (\<lambda>p. p\<lparr>parent := initproc k\<rparr>) k
           in reparent c is (if pstate (ptable k ! i) = ZOMBIE then wakeup1 (map_option ChProc (initproc k)) k else k)
      else reparent c is k)"

definition exit_sched :: "nat \<Rightarrow> kern \<Rightarrow> (unit, kern) outcome" where
  "exit_sched c k =
     bindR (kacquire PTABLE k) (\<lambda>_ k.
     let k = wakeup1 (map_option ChProc (parent (ptable k ! c))) k;
         k = reparent c [0..<length (ptable k)] k;
         k = upd_proc c (\<lambda>p. p\<lparr>pstate := ZOMBIE\<rparr>) k
     in bindR (sched k) (\<lambda>_ _. Panic ''zombie exit''))"

definition exit :: "sys \<Rightarrow> (unit, sys) outcome" where
  "exit s =
     (if curproc (skern s) = initproc (skern s) then Panic ''init exiting''
      else with_sproc (\<lambda>c s.
        bindR (foreach (close_file c) [0..<NOFILE] s) (\<lambda>_ s.
        bindR (on_slog begin_op s) (\<lambda>_ s.
        bindR (case cwd (ptable (skern s) ! c) of None \<Rightarrow> Panic ''trap'' | Some ip \<Rightarrow> on_fs (iput ip) s) (\<lambda>_ s.
        bindR (on_slog end_op s) (\<lambda>_ s.
        bindR (upd_sproc c (\<lambda>p. p\<lparr>cwd := None\<rparr>) s) (\<lambda>_.
        on_skern (exit_sched c))))))) s)"

definition free_slot :: "proc \<Rightarrow> proc" where
  "free_slot p = clear_pname (p\<lparr>pstate := UNUSED, pid := 0, parent := None, killed := False\<rparr>)"

text \<open>One turn of the loop of \<open>wait\<close>, with the table lock held.\<close>

definition wait_scan :: "nat \<Rightarrow> kern \<Rightarrow> (int, kern) outcome" where
  "wait_scan c k =
     (case first_idx (\<lambda>p. parent p = Some c \<and> pstate p = ZOMBIE) (ptable k) of
        Some i \<Rightarrow>
          let n = pid (ptable k ! i)
          in bindR (kfree (kstack (ptable k ! i)) k) (\<lambda>_ k.
             bindR (freevm (pgdir (ptable k ! i)) (upd_proc i (\<lambda>p. p\<lparr>kstack := 0\<rparr>) k)) (\<lambda>_ k.
             bindR (krelease PTABLE (upd_proc i free_slot k)) (\<lambda>_. Ret n)))
      | None \<Rightarrow>
          if \<not> list_ex (\<lambda>p. parent p = Some c) (ptable k) \<or> killed (ptable k ! c)
          then bindR (krelease PTABLE k) (\<lambda>_. Ret (- 1))
          else bindR (sleep (ChProc c) (Some PTABLE) k) (\<lambda>_. Ret 0))"

definition wait :: "kern \<Rightarrow> (int, kern) outcome" where
  "wait k = bindR (kacquire PTABLE k) (\<lambda>_. with_proc wait_scan)"

definition is_thread :: "nat \<Rightarrow> kern \<Rightarrow> proc \<Rightarrow> bool" where
  "is_thread c k p \<longleftrightarrow> parent p = Some c \<and> pgdir p = pgdir (ptable k ! c)"

text \<open>
  One turn of the loop of \<open>join\<close>: the base of the thread's stack is stored at a fixed offset
  of the caller's user stack.
\<close>

definition join_scan :: "nat \<Rightarrow> kern \<Rightarrow> (int, kern) outcome" where
  "join_scan c k =
     (case first_idx (\<lambda>p. is_thread c k p \<and> pstate p = ZOMBIE) (ptable k) of
        Some i \<Rightarrow>
          let addr = tf_esp (tf (ptable k ! c)) + 7 * 4
          in bindR (vwrite32 addr (tf_ebp (tf (ptable k ! i))) k) (\<lambda>_ k.
             bindR (vread32 addr k) (\<lambda>w k.
             bindR (vwrite32 addr (w + 3 * 4 - PGSIZE) k) (\<lambda>_ k.
             let n = pid (ptable k ! i)
             in bindR (kfree (kstack (ptable k ! i)) k) (\<lambda>_ k.
                bindR (krelease PTABLE (upd_proc i (\<lambda>p. free_slot (p\<lparr>kstack := 0\<rparr>)) k)) (\<lambda>_. Ret n)))))
      | None \<Rightarrow>
          if \<not> list_ex (is_thread c k) (ptable k) \<or> killed (ptable k ! c)
          then bindR (krelease PTABLE k) (\<lambda>_. Ret (- 1))
          else bindR (sleep (ChProc c) (Some PTABLE) k) (\<lambda>_. Ret 0))"

definition join :: "u32 \<Rightarrow> kern \<Rightarrow> (int, kern) outcome" where
  "join stack k = bindR (kacquire PTABLE k) (\<lambda>_. with_proc join_scan)"

definition forkret :: "sys \<Rightarrow> (unit, sys) outcome" where
  "forkret s =
     bindR (on_skern (krelease PTABLE) s) (\<lambda>_ s.
     if first s
     then bindR (on_fs (iinit ROOTDEV) (s\<lparr>first := False\<rparr>)) (\<lambda>_.
          on_slog (initlog ROOTDEV))
     else Ret () s)"

section \<open>Parents and children\<close>

text \<open>What \<open>reparent\<close> does to an entry of the table.\<close>

definition adopted :: "nat \<Rightarrow> nat option \<Rightarrow> bool \<Rightarrow> bool \<Rightarrow> proc \<Rightarrow> proc" where
  "adopted c init visited wake p =
     (let p = (if visited \<and> parent p = Some c then p\<lparr>parent := init\<rparr> else p)
      in if wake \<and> pstate p = SLEEPING \<and> chan p = map_option ChProc init then p\<lparr>pstate := RUNNABLE\<rparr> else p)"

definition zombie_child :: "nat \<Rightarrow> proc \<Rightarrow> bool" where
  "zombie_child c p \<longleftrightarrow> parent p = Some c \<and> pstate p = ZOMBIE"

lemma adopted_sel:
  "parent (adopted c init v w p) = (if v \<and> parent p = Some c then init else parent p)"
  "pstate (adopted c init v w p) = (if w \<and> pstate p = SLEEPING \<and> chan p = map_option ChProc init then RUNNABLE else pstate p)"
  "zombie_child c (adopted c init False w p) = zombie_child c p"
  by (auto simp: adopted_def zombie_child_def Let_def)

lemma adopted_twice: "adopted c init v w (adopted c init v' w' p) = adopted c init (v \<or> v') (w \<or> w') p"
  by (cases v; cases v'; cases w; cases w') (simp_all add: adopted_def Let_def)

lemma reparent_frame: "km (reparent c is k) = km k" "initproc (reparent c is k) = initproc k" "length (ptable (reparent c is k)) = length (ptable k)"
  by (induction c "is" k rule: reparent.induct) (auto simp: Let_def upd_proc_def wakeup1_def)

lemma reparent_nth:
  assumes "distinct is" "set is \<subseteq> {..<length (ptable k)}" "j < length (ptable k)"
  shows "ptable (reparent c is k) ! j = adopted c (initproc k) (j \<in> set is) (\<exists>i \<in> set is. zombie_child c (ptable k ! i)) (ptable k ! j)"
  using assms
proof (induction "is" arbitrary: k)
  case Nil
  then show ?case by (simp add: adopted_def)
next
  case (Cons i "is")
  show ?case
  proof (cases "parent (ptable k ! i) = Some c")
    case False
    then show ?thesis using Cons by (auto simp: zombie_child_def adopted_def)
  next
    case True
    let ?k1 = "upd_proc i (\<lambda>p. p\<lparr>parent := initproc k\<rparr>) k"
    let ?k2 = "if pstate (ptable k ! i) = ZOMBIE then wakeup1 (map_option ChProc (initproc k)) ?k1 else ?k1"
    have i: "i < length (ptable k)" "i \<notin> set is" using Cons.prems by auto
    have sel: "initproc ?k2 = initproc k" "length (ptable ?k2) = length (ptable k)"
      by (simp_all add: upd_proc_def wakeup1_def)
    have step: "reparent c (i # is) k = reparent c is ?k2"
      using True i by (simp add: Let_def upd_proc_def)
    have nth: "ptable ?k2 ! x = adopted c (initproc k) (x = i) (pstate (ptable k ! i) = ZOMBIE) (ptable k ! x)"
      if "x < length (ptable k)" for x
      using that True i by (auto simp: upd_proc_def wakeup1_def adopted_def nth_list_update Let_def)
    have z: "zombie_child c (ptable ?k2 ! x) = zombie_child c (ptable k ! x)" if "x \<in> set is" for x
    proof -
      have "x < length (ptable k)" "x \<noteq> i" using that i Cons.prems(2) by auto
      then show ?thesis using nth [of x] by (simp add: adopted_sel)
    qed
    have "ptable (reparent c (i # is) k) ! j =
      adopted c (initproc k) (j \<in> set is) (\<exists>x \<in> set is. zombie_child c (ptable k ! x)) (ptable ?k2 ! j)"
      using Cons.IH [of ?k2] Cons.prems sel z unfolding step by auto
    then show ?thesis
      using True Cons.prems(3) nth [of j] by (simp add: adopted_twice zombie_child_def disj_commute)
  qed
qed

text \<open>
  C10. The end of \<open>exit\<close>: the process becomes a zombie and the processor is given up, its parent is
  woken if it waits, every child is handed to the first process, which is woken if it waits and
  one of the children is a zombie already; the children of other processes keep their parents.
\<close>

theorem exit_hands_over:
  assumes h: "hasl (km k) []" and c: "curproc k = Some c" "c < length (ptable k)"
  shows "\<exists>k'. exit_sched c k = Asleep k' \<and> hasl (km k') [PTABLE] \<and> pstate (ptable k' ! c) = ZOMBIE \<and>
    (\<forall>i < length (ptable k). parent (ptable k' ! i) = (if parent (ptable k ! i) = Some c then initproc k else parent (ptable k ! i))) \<and>
    (\<forall>i < length (ptable k). i \<noteq> c \<longrightarrow> pstate (ptable k' ! i) =
      (if pstate (ptable k ! i) = SLEEPING \<and>
          (chan (ptable k ! i) = map_option ChProc (parent (ptable k ! c)) \<or>
           chan (ptable k ! i) = map_option ChProc (initproc k) \<and> (\<exists>j < length (ptable k). zombie_child c (ptable k ! j)))
       then RUNNABLE else pstate (ptable k ! i)))"
proof -
  from kacquire_wp [OF h, of PTABLE] obtain k1 where
    k1: "kacquire PTABLE k = Ret () k1" "hasl (km k1) [PTABLE]" "kframe k k1" by (auto simp: wp_iff)
  note f = kframe_sel [OF k1(3)]
  let ?w = "map_option ChProc (parent (ptable k ! c))"
  let ?k2 = "wakeup1 ?w k1"
  let ?k3 = "reparent c [0..<length (ptable k)] ?k2"
  let ?k4 = "upd_proc c (\<lambda>p. p\<lparr>pstate := ZOMBIE\<rparr>) ?k3"
  have len: "length (ptable ?k2) = length (ptable k)" "length (ptable ?k3) = length (ptable k)"
    using f by (simp_all add: reparent_frame wakeup1_def)
  have k2: "ptable ?k2 ! i = (if pstate (ptable k ! i) = SLEEPING \<and> chan (ptable k ! i) = ?w then (ptable k ! i)\<lparr>pstate := RUNNABLE\<rparr> else ptable k ! i)"
    if "i < length (ptable k)" for i using that f by (simp add: wakeup1_def)
  have z: "zombie_child c (ptable ?k2 ! i) = zombie_child c (ptable k ! i)" if "i < length (ptable k)" for i
    using k2 [OF that] by (auto simp: zombie_child_def)
  have i2: "initproc ?k2 = initproc k" using f by (simp add: wakeup1_def)
  have k3: "ptable ?k3 ! i = adopted c (initproc k) True (\<exists>j < length (ptable k). zombie_child c (ptable k ! j)) (ptable ?k2 ! i)"
    if "i < length (ptable k)" for i
  proof -
    have "(\<exists>j \<in> set [0..<length (ptable k)]. zombie_child c (ptable ?k2 ! j)) = (\<exists>j < length (ptable k). zombie_child c (ptable k ! j))"
      using z by auto
    then show ?thesis
      using reparent_nth [of "[0..<length (ptable k)]" ?k2 i c] that len(1) i2 by (simp add: subset_eq)
  qed
  have sel: "hasl (km ?k4) [PTABLE]" "curproc ?k4 = Some c" "pstate (ptable ?k4 ! c) = ZOMBIE"
    using k1(2) f c len by (simp_all add: upd_proc_def curproc_def reparent_frame)
  have ex: "exit_sched c k = Asleep ?k4"
    using k1(1) f sched_asleep [OF sel(1,2)] sel(3) by (simp add: exit_sched_def Let_def wakeup1_def)
  have k4: "parent (ptable ?k4 ! i) = parent (ptable ?k3 ! i)" "i \<noteq> c \<Longrightarrow> pstate (ptable ?k4 ! i) = pstate (ptable ?k3 ! i)"
    if "i < length (ptable k)" for i
    using that len c(2) by (simp_all add: upd_proc_def nth_list_update)
  have par: "parent (ptable ?k4 ! i) = (if parent (ptable k ! i) = Some c then initproc k else parent (ptable k ! i))"
    if "i < length (ptable k)" for i
    unfolding k4(1) [OF that] using k3 [OF that] k2 [OF that] by (simp add: adopted_sel)
  have st: "pstate (ptable ?k4 ! i) =
      (if pstate (ptable k ! i) = SLEEPING \<and>
          (chan (ptable k ! i) = map_option ChProc (parent (ptable k ! c)) \<or>
           chan (ptable k ! i) = map_option ChProc (initproc k) \<and> (\<exists>j < length (ptable k). zombie_child c (ptable k ! j)))
       then RUNNABLE else pstate (ptable k ! i))" if "i < length (ptable k)" "i \<noteq> c" for i
    unfolding k4(2) [OF that] using k3 [OF that(1)] k2 [OF that(1)] by (auto simp: adopted_sel)
  show ?thesis
    by (intro exI [of _ ?k4] conjI allI impI ex sel par st)
qed

theorem exit_hands_over_witness:
  "\<exists>k'. exit_sched 3 (running0 3) = Asleep k' \<and> pstate (ptable k' ! 3) = ZOMBIE"
  using exit_hands_over [OF running0_facts(1,2) [of 3]] running0_facts(3) [of 3] by (auto simp: NPROC_def)

section \<open>Waiting\<close>

lemma sleep_ptable:
  assumes "hasl (km k) [PTABLE]" "curproc k = Some c" "c < length (ptable k)"
  shows "sleep ch (Some PTABLE) k = Asleep (upd_proc c (\<lambda>p. p\<lparr>chan := Some ch, pstate := SLEEPING\<rparr>) k)"
proof -
  let ?k = "upd_proc c (\<lambda>p. p\<lparr>chan := Some ch, pstate := SLEEPING\<rparr>) k"
  have "hasl (km ?k) [PTABLE]" "curproc ?k = Some c" "pstate (ptable ?k ! c) \<noteq> RUNNING"
    using assms by (simp_all add: upd_proc_def curproc_def)
  then show ?thesis using sched_asleep [of ?k c] assms(2) by (simp add: sleep_def)
qed



end
