(* ===== verification/Exec.thy ===== *)
theory Exec
  imports Proc
begin

text \<open>
  \<open>src/exec.c\<close> with \<open>loaduvm\<close> of \<open>src/vm.c\<close>: building the memory image of a program file. The
  argument strings are lists of bytes without their terminators. The comparison of the
  result of the first \<open>readi\<close> with \<open>sizeof(elf)\<close> is unsigned in the source, so a failed read
  passes it and the header is then what the kernel stack held (\<open>stale\<close>).
\<close>

section \<open>The ELF format\<close>

record elfhdr =
  elf_magic :: u32
  elf_entry :: u32
  elf_phoff :: u32
  elf_phnum :: nat

record proghdr =
  ph_type :: u32
  ph_off :: u32
  ph_vaddr :: u32
  ph_filesz :: u32
  ph_memsz :: u32

abbreviation ELF_MAGIC :: u32 where "ELF_MAGIC \<equiv> 0x464C457F"
abbreviation ELF_PROG_LOAD :: u32 where "ELF_PROG_LOAD \<equiv> 1"
abbreviation SIZEOF_ELFHDR :: nat where "SIZEOF_ELFHDR \<equiv> 52"
abbreviation SIZEOF_PROGHDR :: nat where "SIZEOF_PROGHDR \<equiv> 32"
definition MAXARG :: nat where "MAXARG = 32"

definition word_at :: "nat \<Rightarrow> bytes \<Rightarrow> u32" where
  "word_at i bs = word_of_nat (get32 i bs)"

definition get_elfhdr :: "bytes \<Rightarrow> elfhdr" where
  "get_elfhdr bs =
     \<lparr>elf_magic = word_at 0 bs, elf_entry = word_at 24 bs, elf_phoff = word_at 28 bs, elf_phnum = get16 44 bs\<rparr>"

definition get_proghdr :: "bytes \<Rightarrow> proghdr" where
  "get_proghdr bs =
     \<lparr>ph_type = word_at 0 bs, ph_off = word_at 4 bs, ph_vaddr = word_at 8 bs,
      ph_filesz = word_at 16 bs, ph_memsz = word_at 20 bs\<rparr>"

section \<open>Loading\<close>

fun loaduvm_loop :: "nat \<Rightarrow> u32 \<Rightarrow> u32 \<Rightarrow> nat \<Rightarrow> u32 \<Rightarrow> u32 \<Rightarrow> u32 \<Rightarrow> fs \<Rightarrow> (int, fs) outcome" where
  "loaduvm_loop 0 dir addr ip offset i len s = Diverge"
| "loaduvm_loop (Suc fuel) dir addr ip offset i len s =
     (if i < len
      then bindR (on_fkern (walkpgdir dir (addr + i) False) s) (\<lambda>pte s.
           if pte = 0 then Panic ''loaduvm: address should exist''
           else let pa = PTE_ADDR (kload32 pte (fkern s));
                    n = (if len - i < PGSIZE then len - i else PGSIZE)
                in bindR (readi ip (offset + i) n s) (\<lambda>r s.
                   case r of
                     None \<Rightarrow> Ret (- 1) s
                   | Some bs \<Rightarrow>
                       bindR (on_fkern (\<lambda>k. Ret () (k\<lparr>ram := store_list pa bs (ram k)\<rparr>)) s) (\<lambda>_ s.
                       if length bs \<noteq> unat n then Ret (- 1) s
                       else loaduvm_loop fuel dir addr ip offset (i + PGSIZE) len s)))
      else Ret 0 s)"

definition loaduvm :: "u32 \<Rightarrow> u32 \<Rightarrow> nat \<Rightarrow> u32 \<Rightarrow> u32 \<Rightarrow> fs \<Rightarrow> (int, fs) outcome" where
  "loaduvm dir addr ip offset len s =
     (if addr mod PGSIZE \<noteq> 0 then Panic ''loaduvm: addr must be page aligned''
      else loaduvm_loop (Suc (2 ^ 20)) dir addr ip offset 0 len s)"

text \<open>
  The loop over the program headers with \<open>n\<close> headers left; \<open>None\<close> is the jump to \<open>bad\<close>.
\<close>

fun exec_load :: "nat \<Rightarrow> nat \<Rightarrow> u32 \<Rightarrow> u32 \<Rightarrow> u32 \<Rightarrow> fs \<Rightarrow> (u32 option, fs) outcome" where
  "exec_load 0 ip dir off usz s = Ret (Some usz) s"
| "exec_load (Suc n) ip dir off usz s =
     bindR (readi ip off 32 s) (\<lambda>r s.
     case r of
       None \<Rightarrow> Ret None s
     | Some bs \<Rightarrow>
         if length bs \<noteq> SIZEOF_PROGHDR then Ret None s
         else let ph = get_proghdr bs
              in if ph_type ph \<noteq> ELF_PROG_LOAD then exec_load n ip dir (off + 32) usz s
                 else if ph_memsz ph < ph_filesz ph then Ret None s
                 else bindR (on_fkern (allocuvm dir usz (ph_vaddr ph + ph_memsz ph)) s) (\<lambda>usz s.
                      if usz = 0 then Ret None s
                      else bindR (loaduvm dir (ph_vaddr ph) ip (ph_off ph) (ph_filesz ph) s) (\<lambda>r s.
                           if r < 0 then Ret None s else exec_load n ip dir (off + 32) usz s)))"

section \<open>The stack\<close>

definition exec_stack :: "u32 \<Rightarrow> u32 \<Rightarrow> kern \<Rightarrow> (u32, kern) outcome" where
  "exec_stack dir usz k =
     (let usz = PGROUNDUP usz
      in bindR (allocuvm dir usz (usz + 2 * PGSIZE) k) (\<lambda>usz k.
         if usz = 0 then Ret 0 k
         else bindR (clearpteu dir (usz - 2 * PGSIZE) k) (\<lambda>_. Ret usz)))"

text \<open>Pushing the strings: the stack pointer and \<open>ustack[3..]\<close>, or \<open>None\<close> for \<open>bad\<close>.\<close>

fun exec_args :: "u32 \<Rightarrow> bytes list \<Rightarrow> u32 \<Rightarrow> u32 list \<Rightarrow> kern \<Rightarrow> ((u32 \<times> u32 list) option, kern) outcome" where
  "exec_args dir [] sp us k = Ret (Some (sp, us)) k"
| "exec_args dir (a # as) sp us k =
     (if length us \<ge> MAXARG then Ret None k
      else let sp = (sp - (word_of_nat (length a) + 1)) AND NOT 3
           in bindR (copyout dir sp (a @ [0]) k) (\<lambda>r k.
              if r < 0 then Ret None k else exec_args dir as sp (us @ [sp]) k))"

definition exec_ustack :: "u32 \<Rightarrow> u32 list \<Rightarrow> u32 list" where
  "exec_ustack sp us =
     [0xFFFFFFFF, word_of_nat (length us), sp - (word_of_nat (length us) + 1) * 4] @ us @ [0]"

definition words_bytes :: "u32 list \<Rightarrow> bytes" where
  "words_bytes ws = concat (map (\<lambda>w. le_put 4 (unat w)) ws)"

text \<open>All that is pushed: the new stack pointer, 0 never being one, or \<open>None\<close>.\<close>

definition exec_push :: "u32 \<Rightarrow> u32 \<Rightarrow> bytes list \<Rightarrow> kern \<Rightarrow> (u32 option, kern) outcome" where
  "exec_push dir usz argv k =
     bindR (exec_args dir argv usz [] k) (\<lambda>r k.
     case r of
       None \<Rightarrow> Ret None k
     | Some (sp, us) \<Rightarrow>
         let sp' = sp - word_of_nat (3 + length us + 1) * 4
         in bindR (copyout dir sp' (words_bytes (exec_ustack sp us)) k) (\<lambda>r.
            Ret (if r < 0 then None else Some sp')))"

fun last_elem :: "bytes \<Rightarrow> bytes \<Rightarrow> bytes" where
  "last_elem [] lst = lst"
| "last_elem (c # cs) lst = last_elem cs (if c = slash then cs else lst)"

section \<open>exec\<close>

definition exec_bad :: "u32 \<Rightarrow> nat option \<Rightarrow> fs \<Rightarrow> (int, fs) outcome" where
  "exec_bad dir ip s =
     bindR (if dir \<noteq> 0 then on_fkern (freevm dir) s else Ret () s) (\<lambda>_ s.
     bindR (case ip of None \<Rightarrow> Ret () s | Some ip \<Rightarrow> bindR (iunlockput ip s) (\<lambda>_. on_log end_op)) (\<lambda>_.
     Ret (- 1)))"

definition exec_commit :: "u32 \<Rightarrow> u32 \<Rightarrow> u32 \<Rightarrow> u32 \<Rightarrow> bytes \<Rightarrow> kern \<Rightarrow> (int, kern) outcome" where
  "exec_commit dir usz entry sp path k =
     with_proc (\<lambda>c k.
       let old = pgdir (ptable k ! c);
           k = upd_proc c (set_pname (cstr (last_elem path path))) k;
           k = upd_proc c (\<lambda>p. p\<lparr>pgdir := dir, sz := usz, tf := (tf p)\<lparr>tf_eip := entry, tf_esp := sp\<rparr>\<rparr>) k
       in bindR (switchuvm c k) (\<lambda>_ k. bindR (freevm old k) (\<lambda>_. Ret 0))) k"

text \<open>From the new address space on, with \<open>ip\<close> unlocked and the transaction closed.\<close>

definition exec_image :: "u32 \<Rightarrow> u32 \<Rightarrow> u32 \<Rightarrow> bytes \<Rightarrow> bytes list \<Rightarrow> fs \<Rightarrow> (int, fs) outcome" where
  "exec_image dir usz entry path argv s =
     bindR (on_fkern (exec_stack dir usz) s) (\<lambda>usz s.
     if usz = 0 then exec_bad dir None s
     else bindR (on_fkern (exec_push dir usz argv) s) (\<lambda>r s.
          case r of
            None \<Rightarrow> exec_bad dir None s
          | Some sp \<Rightarrow> on_fkern (exec_commit dir usz entry sp path) s))"

definition exec_open :: "nat \<Rightarrow> elfhdr \<Rightarrow> bytes \<Rightarrow> bytes list \<Rightarrow> fs \<Rightarrow> (int, fs) outcome" where
  "exec_open ip elf path argv s =
     (if elf_magic elf \<noteq> ELF_MAGIC then exec_bad 0 (Some ip) s
      else bindR (on_fkern setupkvm s) (\<lambda>dir s.
           if dir = 0 then exec_bad 0 (Some ip) s
           else bindR (exec_load (elf_phnum elf) ip dir (elf_phoff elf) 0 s) (\<lambda>r s.
                case r of
                  None \<Rightarrow> exec_bad dir (Some ip) s
                | Some usz \<Rightarrow>
                    bindR (iunlockput ip s) (\<lambda>_ s.
                    bindR (on_log end_op s) (\<lambda>_.
                    exec_image dir usz (elf_entry elf) path argv)))))"

definition exec :: "bytes \<Rightarrow> bytes list \<Rightarrow> sys \<Rightarrow> (int, sys) outcome" where
  "exec path argv s =
     on_fs (\<lambda>f.
       bindR (on_log begin_op f) (\<lambda>_ f.
       bindR (namei path f) (\<lambda>r f.
       case r of
         None \<Rightarrow> bindR (on_log end_op f) (\<lambda>_. Ret (- 1))
       | Some ip \<Rightarrow>
           bindR (ilock (Some ip) f) (\<lambda>_ f.
           bindR (readi ip 0 52 f) (\<lambda>r f.
           case r of
             Some bs \<Rightarrow>
               if length bs < SIZEOF_ELFHDR then exec_bad 0 (Some ip) f
               else exec_open ip (get_elfhdr bs) path argv f
           | None \<Rightarrow> exec_open ip (get_elfhdr (stale s)) path argv f))))) s"

end
