(* ===== verification/Syscall.thy ===== *)
theory Syscall
  imports Exec
begin

text \<open>
  Fetching system call arguments (\<open>src/syscall.c\<close>) and the process system calls
  (\<open>src/sysproc.c\<close>). Arguments lie on the user stack of the calling process; \<open>None\<close> is the
  return value -1. A pointer argument is checked against the size of the process with
  32-bit arithmetic.
\<close>

section \<open>Arguments\<close>

definition fetchint :: "u32 \<Rightarrow> kern \<Rightarrow> (int option, kern) outcome" where
  "fetchint addr =
     with_proc (\<lambda>c k.
       let usz = sz (ptable k ! c)
       in if addr \<ge> usz \<or> addr + 4 > usz then Ret None k
          else bindR (vread32 addr k) (\<lambda>w. Ret (Some (sint w))))"

text \<open>The loop of \<open>fetchstr\<close> with \<open>n\<close> bytes left before the end of the process.\<close>

fun fetchstr_loop :: "nat \<Rightarrow> u32 \<Rightarrow> bytes \<Rightarrow> kern \<Rightarrow> (bytes option, kern) outcome" where
  "fetchstr_loop 0 a got k = Ret None k"
| "fetchstr_loop (Suc n) a got k =
     bindR (vread a 1 k) (\<lambda>bs.
     if hd bs = 0 then Ret (Some got) else fetchstr_loop n (a + 1) (got @ [hd bs]))"

definition fetchstr :: "u32 \<Rightarrow> kern \<Rightarrow> (bytes option, kern) outcome" where
  "fetchstr addr =
     with_proc (\<lambda>c k.
       let usz = sz (ptable k ! c)
       in if addr \<ge> usz then Ret None k else fetchstr_loop (unat (usz - addr)) addr [] k)"

definition argint :: "nat \<Rightarrow> kern \<Rightarrow> (int option, kern) outcome" where
  "argint n = with_proc (\<lambda>c k. fetchint (tf_esp (tf (ptable k ! c)) + 4 + 4 * word_of_nat n) k)"

definition argptr :: "nat \<Rightarrow> int \<Rightarrow> kern \<Rightarrow> (u32 option, kern) outcome" where
  "argptr n len k =
     bindR (argint n k) (\<lambda>r.
     case r of
       None \<Rightarrow> Ret None
     | Some i \<Rightarrow> with_proc (\<lambda>c k.
         let a = word_of_int i; usz = sz (ptable k ! c)
         in if a \<ge> usz \<or> a + word_of_int len > usz then Ret None k else Ret (Some a) k))"

definition argstr :: "nat \<Rightarrow> kern \<Rightarrow> (bytes option, kern) outcome" where
  "argstr n k =
     bindR (argint n k) (\<lambda>r. case r of None \<Rightarrow> Ret None | Some i \<Rightarrow> fetchstr (word_of_int i))"

text \<open>\<open>if(... < 0) return -1\<close> around an argument.\<close>

definition arg :: "(kern \<Rightarrow> ('b option, kern) outcome) \<Rightarrow> ('b \<Rightarrow> sys \<Rightarrow> (int, sys) outcome) \<Rightarrow> sys \<Rightarrow> (int, sys) outcome" where
  "arg g f s = bindR (on_skern g s) (\<lambda>r. case r of None \<Rightarrow> Ret (- 1) | Some x \<Rightarrow> f x)"

section \<open>sysproc.c\<close>

definition sys_fork :: "sys \<Rightarrow> (int, sys) outcome" where
  "sys_fork s = fork s"

definition sys_exit :: "sys \<Rightarrow> (int, sys) outcome" where
  "sys_exit s = bindR (exit s) (\<lambda>_. Ret 0)"

definition sys_wait :: "sys \<Rightarrow> (int, sys) outcome" where
  "sys_wait = on_skern wait"

definition sys_kill :: "sys \<Rightarrow> (int, sys) outcome" where
  "sys_kill = arg (argint 0) (\<lambda>n. on_skern (kill n))"

definition sys_getpid :: "sys \<Rightarrow> (int, sys) outcome" where
  "sys_getpid = with_sproc (\<lambda>c s. Ret (pid (ptable (skern s) ! c)) s)"

definition sys_sbrk :: "sys \<Rightarrow> (int, sys) outcome" where
  "sys_sbrk =
     arg (argint 0) (\<lambda>n. with_sproc (\<lambda>c s.
       let addr = sint (sz (ptable (skern s) ! c))
       in bindR (on_skern (growproc n) s) (\<lambda>r. Ret (if r < 0 then - 1 else addr))))"

text \<open>
  The loop of \<open>sys_sleep\<close>, with \<open>tickslock\<close> held: the condition compares unsigned. A resumed
  process runs it again with the same \<open>ticks0\<close>.
\<close>

definition sys_sleep_loop :: "u32 \<Rightarrow> int \<Rightarrow> kern \<Rightarrow> (int, kern) outcome" where
  "sys_sleep_loop ticks0 n k =
     (if ticks k - ticks0 < word_of_int n
      then with_proc (\<lambda>c k.
             if killed (ptable k ! c) then bindR (krelease TICKSLK k) (\<lambda>_. Ret (- 1))
             else bindR (sleep ChTicks (Some TICKSLK) k) (\<lambda>_. Ret 0)) k
      else bindR (krelease TICKSLK k) (\<lambda>_. Ret 0))"

definition sys_sleep :: "sys \<Rightarrow> (int, sys) outcome" where
  "sys_sleep =
     arg (argint 0) (\<lambda>n. on_skern (\<lambda>k.
       bindR (kacquire TICKSLK k) (\<lambda>_ k. sys_sleep_loop (ticks k) n k)))"

text \<open>\<open>sys_join\<close> passes on the result code of \<open>argint\<close>.\<close>

definition sys_join :: "sys \<Rightarrow> (int, sys) outcome" where
  "sys_join s =
     bindR (on_skern (argint 0) s) (\<lambda>r.
     on_skern (join (word_of_int (case r of None \<Rightarrow> - 1 | Some _ \<Rightarrow> 0))))"

definition sys_uptime :: "sys \<Rightarrow> (int, sys) outcome" where
  "sys_uptime =
     on_skern (\<lambda>k. bindR (kacquire TICKSLK k) (\<lambda>_ k.
       let x = ticks k in bindR (krelease TICKSLK k) (\<lambda>_. Ret (sint x))))"

definition sys_clone :: "sys \<Rightarrow> (int, sys) outcome" where
  "sys_clone =
     arg (argptr 0 4) (\<lambda>fcn. arg (argptr 1 4) (\<lambda>a. arg (argptr 2 4) (\<lambda>stack. clone fcn a stack)))"

section \<open>Pointers from user code\<close>

lemma vread_Ret: "vread a n k = Ret bs k' \<longleftrightarrow> vload a n k = Some bs \<and> k' = k"
  by (auto simp: vread_def split: option.splits)

lemma argint_Ret: "argint n k = Ret r k' \<Longrightarrow> k' = k"
  by (auto simp: argint_def fetchint_def with_proc_def Let_def vread32_def vread_Ret split: option.splits if_splits)

text \<open>
  C0. The pointer check of the system calls: when \<open>argptr\<close> lets a block of \<open>len\<close> bytes through,
  all of it lies inside the memory of the calling process. The sum of the check is one of machine
  words; as the process ends below \<open>KERNBASE\<close> and the length is not negative it cannot wrap around.
\<close>

theorem argptr_in_bounds:
  assumes "argptr n len k = Ret (Some a) k'" "curproc k = Some c" "sz (ptable k ! c) \<le> KERNBASE" "0 \<le> len" "len < 2 ^ 31"
  shows "k' = k \<and> uint a + len \<le> uint (sz (ptable k ! c))"
proof -
  have k: "k' = k" "a < sz (ptable k ! c)" "a + word_of_int len \<le> sz (ptable k ! c)"
    using assms(1,2) by (auto simp: argptr_def with_proc_def Let_def not_le not_less split: option.splits if_splits dest!: argint_Ret)
  have "uint (sz (ptable k ! c)) \<le> 2 ^ 31"
    using assms(3) by (simp add: word_le_def)
  moreover have "uint a < uint (sz (ptable k ! c))"
    using k(2) by (simp add: word_less_def)
  ultimately have "uint a + len < 2 ^ 32" using assms(5) by simp
  then have "uint (a + word_of_int len) = uint a + len"
    using assms(4) by (simp add: uint_word_ariths uint_word_of_int mod_simps)
  then show ?thesis
    using k(1,3) by (simp add: word_le_def)
qed

text \<open>A process whose memory holds the same byte everywhere, page tables included.\<close>

definition ones_kern :: kern where
  "ones_kern = (running0 3)\<lparr>ram := (\<lambda>_. 1), ptable := (replicate NPROC unused_proc)[3 := unused_proc\<lparr>sz := 0x2000000\<rparr>]\<rparr>"

lemma ones_kern_facts: "curproc ones_kern = Some 3" "ram ones_kern = (\<lambda>_. 1)"
  "ptable ones_kern ! 3 = unused_proc\<lparr>sz := 0x2000000\<rparr>"
  by (simp_all add: ones_kern_def curproc_def running0_def set_curproc_def mach_defs kern0_def mach0_def NPROC_def)

lemma ones_load: "load32 a (\<lambda>_. 1) = 0x1010101"
proof -
  have "load_list a 4 (\<lambda>_. 1) = [1, 1, 1, 1]" by (simp add: numeral_nat)
  then show ?thesis by (simp add: load32_def)
qed

lemma ones_phys: "a < KERNBASE \<Longrightarrow> phys ones_kern a \<noteq> None"
  by (simp add: phys_def translate_def ones_kern_facts ones_load Let_def)

theorem argptr_in_bounds_witness:
  "argptr 0 16 ones_kern = Ret (Some 0x1010101) ones_kern \<and> uint (0x1010101 :: u32) + 16 \<le> uint (sz (ptable ones_kern ! 3))"
proof -
  have v: "vload a (Suc n) ones_kern = map_option ((#) 1) (vload (a + 1) n ones_kern)" if "a < KERNBASE" for a n
    using ones_phys [OF that] by (auto simp: ones_kern_facts)
  have four: "(4 :: nat) = Suc (Suc (Suc (Suc 0)))" by simp
  have "vload 4 4 ones_kern = Some [1, 1, 1, 1]"
    unfolding four by (simp add: v del: vload.simps(2))
  then have "argptr 0 16 ones_kern = Ret (Some 0x1010101) ones_kern"
    by (simp add: argptr_def argint_def fetchint_def with_proc_def vread32_def vread_def ones_kern_facts unused_proc_def zero_tf_def)
  then show ?thesis
    using argptr_in_bounds [of 0 16 ones_kern "0x1010101" ones_kern 3] by (simp add: ones_kern_facts)
qed

end
