(* ===== verification/Sysfile.thy ===== *)
theory Sysfile
  imports Syscall
begin

text \<open>
  The file system calls (\<open>src/sysfile.c\<close>): each checks its arguments, opens a transaction
  where it may write, and ends it on every path. Local variables that a failing argument
  leaves unset are not read.
\<close>

section \<open>Descriptors\<close>

definition argfd :: "nat \<Rightarrow> kern \<Rightarrow> ((nat \<times> nat) option, kern) outcome" where
  "argfd n k =
     bindR (argint n k) (\<lambda>r.
     case r of
       None \<Rightarrow> Ret None
     | Some fd \<Rightarrow> with_proc (\<lambda>c k.
         if fd < 0 \<or> fd \<ge> int NOFILE then Ret None k
         else case ofile (ptable k ! c) ! nat fd of
                None \<Rightarrow> Ret None k
              | Some f \<Rightarrow> Ret (Some (nat fd, f)) k))"

definition fdalloc :: "nat \<Rightarrow> kern \<Rightarrow> (int, kern) outcome" where
  "fdalloc f =
     with_proc (\<lambda>c k.
       case first_idx (\<lambda>x. x = None) (ofile (ptable k ! c)) of
         Some fd \<Rightarrow> Ret (int fd) (upd_proc c (\<lambda>p. p\<lparr>ofile := (ofile p)[fd := Some f]\<rparr>) k)
       | None \<Rightarrow> Ret (- 1) k)"

definition clear_fd :: "nat \<Rightarrow> sys \<Rightarrow> (unit, sys) outcome" where
  "clear_fd fd = with_sproc (\<lambda>c. upd_sproc c (\<lambda>p. p\<lparr>ofile := (ofile p)[fd := None]\<rparr>))"

definition sys_dup :: "sys \<Rightarrow> (int, sys) outcome" where
  "sys_dup =
     arg (argfd 0) (\<lambda>(_, f) s.
       bindR (on_skern (fdalloc f) s) (\<lambda>fd s.
       if fd < 0 then Ret (- 1) s else bindR (filedup f s) (\<lambda>_. Ret fd)))"

definition sys_read :: "sys \<Rightarrow> (int, sys) outcome" where
  "sys_read =
     arg (argfd 0) (\<lambda>(_, f). arg (argint 2) (\<lambda>n. arg (argptr 1 n) (\<lambda>p. fileread f p n)))"

definition sys_write :: "sys \<Rightarrow> (int, sys) outcome" where
  "sys_write =
     arg (argfd 0) (\<lambda>(_, f). arg (argint 2) (\<lambda>n. arg (argptr 1 n) (\<lambda>p. filewrite f p n)))"

definition sys_close :: "sys \<Rightarrow> (int, sys) outcome" where
  "sys_close =
     arg (argfd 0) (\<lambda>(fd, f) s.
       bindR (clear_fd fd s) (\<lambda>_ s.
       bindR (fileclose f s) (\<lambda>_. Ret 0)))"

text \<open>The fields of \<open>struct stat\<close> at their offsets; the padding is not written.\<close>

definition put_stat :: "u32 \<Rightarrow> stat \<Rightarrow> kern \<Rightarrow> (unit, kern) outcome" where
  "put_stat a st k =
     bindR (vwrite (a + 4) (le_put 4 (st_dev st)) k) (\<lambda>_ k.
     bindR (vwrite (a + 8) (le_put 4 (st_ino st)) k) (\<lambda>_ k.
     bindR (vwrite a (le_put 2 (unat (st_type st))) k) (\<lambda>_ k.
     bindR (vwrite (a + 12) (le_put 2 (unat (st_nlink st))) k) (\<lambda>_ k.
     vwrite (a + 16) (le_put 4 (unat (st_size st))) k))))"

definition sys_fstat :: "sys \<Rightarrow> (int, sys) outcome" where
  "sys_fstat =
     arg (argfd 0) (\<lambda>(_, f). arg (argptr 1 20) (\<lambda>a s.
       bindR (filestat f s) (\<lambda>r s.
       case r of
         None \<Rightarrow> Ret (- 1) s
       | Some st \<Rightarrow> bindR (on_skern (put_stat a st) s) (\<lambda>_. Ret 0))))"

section \<open>Links\<close>

text \<open>\<open>end_op(); return v\<close> at the end of a call.\<close>

definition end_with :: "int \<Rightarrow> fs \<Rightarrow> (int, fs) outcome" where
  "end_with v s = bindR (on_log end_op s) (\<lambda>_. Ret v)"

definition upd_nlink :: "nat \<Rightarrow> u16 \<Rightarrow> fs \<Rightarrow> (unit, fs) outcome" where
  "upd_nlink ip d s = iupdate ip (upd_inode ip (\<lambda>i. i\<lparr>inlink := inlink i + d\<rparr>) s)"

definition link_bad :: "nat \<Rightarrow> fs \<Rightarrow> (int, fs) outcome" where
  "link_bad ip s =
     bindR (ilock (Some ip) s) (\<lambda>_ s.
     bindR (upd_nlink ip (- 1) s) (\<lambda>_ s.
     bindR (iunlockput ip s) (\<lambda>_. end_with (- 1))))"

definition link_into :: "nat \<Rightarrow> bytes \<Rightarrow> fs \<Rightarrow> (int, fs) outcome" where
  "link_into ip new s =
     bindR (nameiparent new s) (\<lambda>(r, name) s.
     case r of
       None \<Rightarrow> link_bad ip s
     | Some dp \<Rightarrow>
         bindR (ilock (Some dp) s) (\<lambda>_ s.
         bindR (if idev (inodes s ! dp) \<noteq> idev (inodes s ! ip) then Ret (- 1) s
                else dirlink dp name (inum (inodes s ! ip)) s) (\<lambda>r s.
         if r < 0 then bindR (iunlockput dp s) (\<lambda>_. link_bad ip)
         else bindR (iunlockput dp s) (\<lambda>_ s.
              bindR (iput ip s) (\<lambda>_. end_with 0)))))"

definition link_op :: "bytes \<Rightarrow> bytes \<Rightarrow> fs \<Rightarrow> (int, fs) outcome" where
  "link_op old new s =
     bindR (on_log begin_op s) (\<lambda>_ s.
     bindR (namei old s) (\<lambda>r s.
     case r of
       None \<Rightarrow> end_with (- 1) s
     | Some ip \<Rightarrow>
         bindR (ilock (Some ip) s) (\<lambda>_ s.
         if itype (inodes s ! ip) = T_DIR then bindR (iunlockput ip s) (\<lambda>_. end_with (- 1))
         else bindR (upd_nlink ip 1 s) (\<lambda>_ s.
              bindR (iunlock (Some ip) s) (\<lambda>_. link_into ip new)))))"

definition sys_link :: "sys \<Rightarrow> (int, sys) outcome" where
  "sys_link = arg (argstr 0) (\<lambda>old. arg (argstr 1) (\<lambda>new. on_fs (link_op old new)))"

fun isdirempty_loop :: "nat \<Rightarrow> nat list \<Rightarrow> fs \<Rightarrow> (bool, fs) outcome" where
  "isdirempty_loop dp [] s = Ret True s"
| "isdirempty_loop dp (off # offs) s =
     bindR (readi dp (word_of_nat off) 16 s) (\<lambda>r s.
     case r of
       None \<Rightarrow> Panic ''isdirempty: readi''
     | Some de \<Rightarrow>
         if length de \<noteq> DIRENT then Panic ''isdirempty: readi''
         else if de_inum de \<noteq> 0 then Ret False s
         else isdirempty_loop dp offs s)"

definition isdirempty :: "nat \<Rightarrow> fs \<Rightarrow> (bool, fs) outcome" where
  "isdirempty dp s = isdirempty_loop dp (dir_offs 2 (isize (inodes s ! dp))) s"

definition unlink_bad :: "nat \<Rightarrow> fs \<Rightarrow> (int, fs) outcome" where
  "unlink_bad dp s = bindR (iunlockput dp s) (\<lambda>_. end_with (- 1))"

definition unlink_entry :: "nat \<Rightarrow> nat \<Rightarrow> nat \<Rightarrow> fs \<Rightarrow> (int, fs) outcome" where
  "unlink_entry dp ip off s =
     bindR (writei dp (replicate DIRENT 0) (word_of_nat off) s) (\<lambda>w s.
     if w \<noteq> 16 then Panic ''unlink: writei''
     else bindR (if itype (inodes s ! ip) = T_DIR then upd_nlink dp (- 1) s else Ret () s) (\<lambda>_ s.
          bindR (iunlockput dp s) (\<lambda>_ s.
          bindR (upd_nlink ip (- 1) s) (\<lambda>_ s.
          bindR (iunlockput ip s) (\<lambda>_. end_with 0)))))"

definition dot :: bytes where "dot = [46]"
definition dotdot :: bytes where "dotdot = [46, 46]"

definition unlink_op :: "bytes \<Rightarrow> fs \<Rightarrow> (int, fs) outcome" where
  "unlink_op path s =
     bindR (on_log begin_op s) (\<lambda>_ s.
     bindR (nameiparent path s) (\<lambda>(r, name) s.
     case r of
       None \<Rightarrow> end_with (- 1) s
     | Some dp \<Rightarrow>
         bindR (ilock (Some dp) s) (\<lambda>_ s.
         if namecmp (cstr name) (cstr dot) = 0 \<or> namecmp (cstr name) (cstr dotdot) = 0 then unlink_bad dp s
         else bindR (dirlookup dp name s) (\<lambda>r s.
              case r of
                None \<Rightarrow> unlink_bad dp s
              | Some (ip, off) \<Rightarrow>
                  bindR (ilock (Some ip) s) (\<lambda>_ s.
                  if sint (inlink (inodes s ! ip)) < 1 then Panic ''unlink: nlink < 1''
                  else bindR (if itype (inodes s ! ip) = T_DIR then isdirempty ip s else Ret True s) (\<lambda>e s.
                       if \<not> e then bindR (iunlockput ip s) (\<lambda>_. unlink_bad dp)
                       else unlink_entry dp ip off s))))))"

definition sys_unlink :: "sys \<Rightarrow> (int, sys) outcome" where
  "sys_unlink = arg (argstr 0) (\<lambda>path. on_fs (unlink_op path))"

section \<open>Creating and opening\<close>

abbreviation T_FILE :: u16 where "T_FILE \<equiv> 2"

text \<open>The entries \<open>.\<close> and \<open>..\<close> of a new directory.\<close>

definition create_dots :: "nat \<Rightarrow> nat \<Rightarrow> fs \<Rightarrow> (unit, fs) outcome" where
  "create_dots dp ip s =
     bindR (upd_nlink dp 1 s) (\<lambda>_ s.
     bindR (dirlink ip dot (inum (inodes s ! ip)) s) (\<lambda>r s.
     if r < 0 then Panic ''create dots''
     else bindR (dirlink ip dotdot (inum (inodes s ! dp)) s) (\<lambda>r s.
          if r < 0 then Panic ''create dots'' else Ret () s)))"

definition create_new :: "nat \<Rightarrow> bytes \<Rightarrow> u16 \<Rightarrow> u16 \<Rightarrow> u16 \<Rightarrow> fs \<Rightarrow> (nat option, fs) outcome" where
  "create_new dp name type major minor s =
     bindR (ialloc (idev (inodes s ! dp)) type s) (\<lambda>ip s.
     bindR (ilock (Some ip) s) (\<lambda>_ s.
     bindR (iupdate ip (upd_inode ip (\<lambda>i. i\<lparr>imajor := major, iminor := minor, inlink := 1\<rparr>) s)) (\<lambda>_ s.
     bindR (if type = T_DIR then create_dots dp ip s else Ret () s) (\<lambda>_ s.
     bindR (dirlink dp name (inum (inodes s ! ip)) s) (\<lambda>r s.
     if r < 0 then Panic ''create: dirlink''
     else bindR (iunlockput dp s) (\<lambda>_. Ret (Some ip)))))))"

definition create :: "bytes \<Rightarrow> u16 \<Rightarrow> u16 \<Rightarrow> u16 \<Rightarrow> fs \<Rightarrow> (nat option, fs) outcome" where
  "create path type major minor s =
     bindR (nameiparent path s) (\<lambda>(r, name) s.
     case r of
       None \<Rightarrow> Ret None s
     | Some dp \<Rightarrow>
         bindR (ilock (Some dp) s) (\<lambda>_ s.
         bindR (dirlookup dp name s) (\<lambda>r s.
         case r of
           Some (ip, _) \<Rightarrow>
             bindR (iunlockput dp s) (\<lambda>_ s.
             bindR (ilock (Some ip) s) (\<lambda>_ s.
             if type = T_FILE \<and> itype (inodes s ! ip) = T_FILE then Ret (Some ip) s
             else bindR (iunlockput ip s) (\<lambda>_. Ret None)))
         | None \<Rightarrow> create_new dp name type major minor s)))"

text \<open>The inode \<open>sys_open\<close> works on, locked, or \<open>None\<close> once the transaction is closed.\<close>

definition open_inode :: "bytes \<Rightarrow> u32 \<Rightarrow> fs \<Rightarrow> (nat option, fs) outcome" where
  "open_inode path omode s =
     bindR (on_log begin_op s) (\<lambda>_ s.
     if omode AND 0x200 \<noteq> 0
     then bindR (create path T_FILE 0 0 s) (\<lambda>r s.
          if r = None then bindR (on_log end_op s) (\<lambda>_. Ret None) else Ret r s)
     else bindR (namei path s) (\<lambda>r s.
          case r of
            None \<Rightarrow> bindR (on_log end_op s) (\<lambda>_. Ret None)
          | Some ip \<Rightarrow>
              bindR (ilock (Some ip) s) (\<lambda>_ s.
              if itype (inodes s ! ip) = T_DIR \<and> omode \<noteq> 0
              then bindR (iunlockput ip s) (\<lambda>_ s. bindR (on_log end_op s) (\<lambda>_. Ret None))
              else Ret (Some ip) s)))"

definition open_bad :: "nat \<Rightarrow> sys \<Rightarrow> (int, sys) outcome" where
  "open_bad ip s = on_fs (\<lambda>f. bindR (iunlockput ip f) (\<lambda>_. end_with (- 1))) s"

definition open_file :: "nat \<Rightarrow> u32 \<Rightarrow> sys \<Rightarrow> (int, sys) outcome" where
  "open_file ip omode s =
     bindR (filealloc s) (\<lambda>r s.
     case r of
       None \<Rightarrow> open_bad ip s
     | Some f \<Rightarrow>
         bindR (on_skern (fdalloc f) s) (\<lambda>fd s.
         if fd < 0 then bindR (fileclose f s) (\<lambda>_. open_bad ip)
         else bindR (on_fs (iunlock (Some ip)) s) (\<lambda>_ s.
              bindR (on_slog end_op s) (\<lambda>_ s.
              Ret fd (upd_file f (\<lambda>x. x\<lparr>ftype := FD_INODE, fip := ip, foff := 0,
                freadable := (omode AND 1 = 0), fwritable := (omode AND 1 \<noteq> 0 \<or> omode AND 2 \<noteq> 0)\<rparr>) s)))))"

definition sys_open :: "sys \<Rightarrow> (int, sys) outcome" where
  "sys_open =
     arg (argstr 0) (\<lambda>path. arg (argint 1) (\<lambda>omode s.
       bindR (on_fs (open_inode path (word_of_int omode)) s) (\<lambda>r.
       case r of None \<Rightarrow> Ret (- 1) | Some ip \<Rightarrow> open_file ip (word_of_int omode))))"

text \<open>The common end of \<open>sys_mkdir\<close> and \<open>sys_mknod\<close>.\<close>

definition create_op :: "bytes \<Rightarrow> u16 \<Rightarrow> u16 \<Rightarrow> u16 \<Rightarrow> fs \<Rightarrow> (int, fs) outcome" where
  "create_op path type major minor s =
     bindR (create path type major minor s) (\<lambda>r s.
     case r of
       None \<Rightarrow> end_with (- 1) s
     | Some ip \<Rightarrow> bindR (iunlockput ip s) (\<lambda>_. end_with 0))"

text \<open>An argument of a call that has begun its transaction.\<close>

definition arg_op :: "(kern \<Rightarrow> ('b option, kern) outcome) \<Rightarrow> ('b \<Rightarrow> sys \<Rightarrow> (int, sys) outcome) \<Rightarrow> sys \<Rightarrow> (int, sys) outcome" where
  "arg_op g f s =
     bindR (on_skern g s) (\<lambda>r. case r of None \<Rightarrow> on_fs (end_with (- 1)) | Some x \<Rightarrow> f x)"

definition sys_mkdir :: "sys \<Rightarrow> (int, sys) outcome" where
  "sys_mkdir s =
     bindR (on_slog begin_op s) (\<lambda>_.
     arg_op (argstr 0) (\<lambda>path. on_fs (create_op path T_DIR 0 0)))"

definition sys_mknod :: "sys \<Rightarrow> (int, sys) outcome" where
  "sys_mknod s =
     bindR (on_slog begin_op s) (\<lambda>_.
     arg_op (argstr 0) (\<lambda>path. arg_op (argint 1) (\<lambda>major. arg_op (argint 2) (\<lambda>minor.
       on_fs (create_op path T_DEV (word_of_int major) (word_of_int minor))))))"

definition chdir_to :: "nat \<Rightarrow> sys \<Rightarrow> (int, sys) outcome" where
  "chdir_to ip s =
     bindR (on_fs (ilock (Some ip)) s) (\<lambda>_ s.
     if itype (inodes (sfs s) ! ip) \<noteq> T_DIR
     then on_fs (\<lambda>f. bindR (iunlockput ip f) (\<lambda>_. end_with (- 1))) s
     else bindR (on_fs (iunlock (Some ip)) s) (\<lambda>_. with_sproc (\<lambda>c s.
          bindR (case cwd (ptable (skern s) ! c) of None \<Rightarrow> Panic ''trap'' | Some old \<Rightarrow> on_fs (iput old) s) (\<lambda>_ s.
          bindR (on_slog end_op s) (\<lambda>_ s.
          bindR (upd_sproc c (\<lambda>p. p\<lparr>cwd := Some ip\<rparr>) s) (\<lambda>_. Ret 0))))))"

definition sys_chdir :: "sys \<Rightarrow> (int, sys) outcome" where
  "sys_chdir s =
     bindR (on_slog begin_op s) (\<lambda>_.
     arg_op (argstr 0) (\<lambda>path s.
       bindR (on_fs (namei path) s) (\<lambda>r.
       case r of None \<Rightarrow> on_fs (end_with (- 1)) | Some ip \<Rightarrow> chdir_to ip)))"

section \<open>exec and pipe\<close>

text \<open>The loop of \<open>sys_exec\<close> over the argument vector, with \<open>n\<close> entries of \<open>argv\<close> left.\<close>

fun exec_argv :: "nat \<Rightarrow> u32 \<Rightarrow> bytes list \<Rightarrow> kern \<Rightarrow> (bytes list option, kern) outcome" where
  "exec_argv 0 a got k = Ret None k"
| "exec_argv (Suc n) a got k =
     bindR (fetchint a k) (\<lambda>r k.
     case r of
       None \<Rightarrow> Ret None k
     | Some uarg \<Rightarrow>
         if uarg = 0 then Ret (Some got) k
         else bindR (fetchstr (word_of_int uarg) k) (\<lambda>r k.
              case r of None \<Rightarrow> Ret None k | Some s \<Rightarrow> exec_argv n (a + 4) (got @ [s]) k))"

definition sys_exec :: "sys \<Rightarrow> (int, sys) outcome" where
  "sys_exec =
     arg (argstr 0) (\<lambda>path. arg (argint 1) (\<lambda>uargv.
       arg (exec_argv MAXARG (word_of_int uargv) []) (\<lambda>argv. exec path argv)))"

definition pipe_bad :: "nat \<Rightarrow> nat \<Rightarrow> sys \<Rightarrow> (int, sys) outcome" where
  "pipe_bad rend wend s = bindR (fileclose rend s) (\<lambda>_ s. bindR (fileclose wend s) (\<lambda>_. Ret (- 1)))"

definition sys_pipe :: "sys \<Rightarrow> (int, sys) outcome" where
  "sys_pipe =
     arg (argptr 0 8) (\<lambda>fd s.
       bindR (pipealloc s) (\<lambda>r s.
       case r of
         None \<Rightarrow> Ret (- 1) s
       | Some (rend, wend) \<Rightarrow>
           bindR (on_skern (fdalloc rend) s) (\<lambda>fd0 s.
           if fd0 < 0 then pipe_bad rend wend s
           else bindR (on_skern (fdalloc wend) s) (\<lambda>fd1 s.
                if fd1 < 0 then bindR (clear_fd (nat fd0) s) (\<lambda>_. pipe_bad rend wend)
                else bindR (on_skern (vwrite32 fd (word_of_int fd0)) s) (\<lambda>_ s.
                     bindR (on_skern (vwrite32 (fd + 4) (word_of_int fd1)) s) (\<lambda>_. Ret 0))))))"

end
