(* ===== verification/Trap.thy ===== *)
theory Trap
  imports Sysfile
begin

text \<open>
  Dispatching system calls (\<open>syscall\<close> of \<open>src/syscall.c\<close>) and traps (\<open>src/trap.c\<close>). A trap gets
  the frame the entry code saved and the faulting address \<open>cr2\<close>. The acknowledgements sent to
  the interrupt controller have no effect on the modelled state, and neither has the disk
  interrupt, since the disk of \<open>src/memide.c\<close> needs none.
\<close>

section \<open>System calls\<close>

definition syscalls :: "int \<Rightarrow> (sys \<Rightarrow> (int, sys) outcome) option" where
  "syscalls num =
     (if num = 1 then Some sys_fork else if num = 2 then Some sys_exit else if num = 3 then Some sys_wait
      else if num = 4 then Some sys_pipe else if num = 5 then Some sys_read else if num = 6 then Some sys_kill
      else if num = 7 then Some sys_exec else if num = 8 then Some sys_fstat else if num = 9 then Some sys_chdir
      else if num = 10 then Some sys_dup else if num = 11 then Some sys_getpid else if num = 12 then Some sys_sbrk
      else if num = 13 then Some sys_sleep else if num = 14 then Some sys_uptime else if num = 15 then Some sys_open
      else if num = 16 then Some sys_write else if num = 17 then Some sys_mknod else if num = 18 then Some sys_unlink
      else if num = 19 then Some sys_link else if num = 20 then Some sys_mkdir else if num = 21 then Some sys_close
      else if num = 22 then Some sys_clone else if num = 23 then Some sys_join else None)"

definition NSYSCALLS :: int where "NSYSCALLS = 24"

definition set_eax :: "nat \<Rightarrow> int \<Rightarrow> sys \<Rightarrow> (unit, sys) outcome" where
  "set_eax c v = upd_sproc c (\<lambda>p. p\<lparr>tf := (tf p)\<lparr>tf_eax := word_of_int v\<rparr>\<rparr>)"

definition syscall :: "sys \<Rightarrow> (unit, sys) outcome" where
  "syscall =
     with_sproc (\<lambda>c s.
       let p = ptable (skern s) ! c; num = sint (tf_eax (tf p))
       in case (if num > 0 \<and> num < NSYSCALLS then syscalls num else None) of
            Some call \<Rightarrow> bindR (call s) (set_eax c)
          | None \<Rightarrow>
              bindR (on_skern (cprintf (''%d %s: unknown sys call %d'' @ [CHR 0x0A])
                       [CWord (word_of_int (pid p)), CStr (Some (cname p)), CWord (word_of_int num)]) s) (\<lambda>_.
              set_eax c (- 1)))"

section \<open>Interrupts\<close>

abbreviation T_SYSCALL :: u32 where "T_SYSCALL \<equiv> 64"
abbreviation T_IRQ0 :: u32 where "T_IRQ0 \<equiv> 32"

definition timer_tick :: "kern \<Rightarrow> (unit, kern) outcome" where
  "timer_tick k =
     (if self (km k) = 0
      then bindR (kacquire TICKSLK k) (\<lambda>_ k.
           bindR (wakeup ChTicks (k\<lparr>ticks := ticks k + 1\<rparr>)) (\<lambda>_.
           krelease TICKSLK))
      else Ret () k)"

definition kbd_irq :: "sys \<Rightarrow> (unit, sys) outcome" where
  "kbd_irq s = on_skern (\<lambda>k. fst (kbdintr (kbdst s) k)) (s\<lparr>kbdst := snd (kbdintr (kbdst s) (skern s))\<rparr>)"

definition uart_irq :: "sys \<Rightarrow> (unit, sys) outcome" where
  "uart_irq s = on_skern (\<lambda>k. fst (uartintr (uart_rx s) k)) (s\<lparr>uart_rx := snd (uartintr (uart_rx s) (skern s))\<rparr>)"

definition from_user :: "trapframe \<Rightarrow> bool" where
  "from_user f \<longleftrightarrow> tf_cs f AND 3 = 3"

text \<open>The \<open>default\<close> case.\<close>

definition bad_trap :: "trapframe \<Rightarrow> u32 \<Rightarrow> kern \<Rightarrow> (unit, kern) outcome" where
  "bad_trap f cr2 k =
     (case curproc k of
        Some c \<Rightarrow>
          if tf_cs f AND 3 \<noteq> 0
          then bindR (cprintf (''pid %d %s: trap %d err %d on cpu %d eip 0x%x addr 0x%x--kill proc'' @ [CHR 0x0A])
                 [CWord (word_of_int (pid (ptable k ! c))), CStr (Some (cname (ptable k ! c))), CWord (tf_trapno f), CWord (tf_err f),
                  CWord (word_of_nat (self (km k))), CWord (tf_eip f), CWord cr2] k) (\<lambda>_ k.
               Ret () (upd_proc c (\<lambda>p. p\<lparr>killed := True\<rparr>) k))
          else bindR (cprintf (''unexpected trap %d from cpu %d eip %x (cr2=0x%x)'' @ [CHR 0x0A])
                 [CWord (tf_trapno f), CWord (word_of_nat (self (km k))), CWord (tf_eip f), CWord cr2] k) (\<lambda>_ _. Panic ''trap'')
      | None \<Rightarrow> bindR (cprintf (''unexpected trap %d from cpu %d eip %x (cr2=0x%x)'' @ [CHR 0x0A])
                 [CWord (tf_trapno f), CWord (word_of_nat (self (km k))), CWord (tf_eip f), CWord cr2] k) (\<lambda>_ _. Panic ''trap''))"

definition trap_switch :: "trapframe \<Rightarrow> u32 \<Rightarrow> sys \<Rightarrow> (unit, sys) outcome" where
  "trap_switch f cr2 s =
     (let n = tf_trapno f
      in if n = T_IRQ0 + 0 then on_skern timer_tick s
         else if n = T_IRQ0 + 14 then Ret () s
         else if n = T_IRQ0 + 14 + 1 then Ret () s
         else if n = T_IRQ0 + 1 then kbd_irq s
         else if n = T_IRQ0 + 4 then uart_irq s
         else if n = T_IRQ0 + 7 \<or> n = T_IRQ0 + 31
         then on_skern (\<lambda>k. cprintf (''cpu%d: spurious interrupt at %x:%x'' @ [CHR 0x0A])
                [CWord (word_of_nat (self (km k))), CWord (ucast (tf_cs f)), CWord (tf_eip f)] k) s
         else on_skern (bad_trap f cr2) s)"

text \<open>\<open>if(proc && proc->killed && (tf->cs&3) == DPL_USER) exit()\<close>.\<close>

definition exit_if_killed :: "trapframe \<Rightarrow> sys \<Rightarrow> (unit, sys) outcome" where
  "exit_if_killed f s =
     (case curproc (skern s) of
        None \<Rightarrow> Ret () s
      | Some c \<Rightarrow> if killed (ptable (skern s) ! c) \<and> from_user f then exit s else Ret () s)"

definition yield_on_tick :: "trapframe \<Rightarrow> kern \<Rightarrow> (unit, kern) outcome" where
  "yield_on_tick f k =
     (case curproc k of
        None \<Rightarrow> Ret () k
      | Some c \<Rightarrow> if pstate (ptable k ! c) = RUNNING \<and> tf_trapno f = T_IRQ0 + 0 then yield k else Ret () k)"

definition exit_killed :: "sys \<Rightarrow> (unit, sys) outcome" where
  "exit_killed = with_sproc (\<lambda>c s. if killed (ptable (skern s) ! c) then exit s else Ret () s)"

definition trap :: "trapframe \<Rightarrow> u32 \<Rightarrow> sys \<Rightarrow> (unit, sys) outcome" where
  "trap f cr2 s =
     (if tf_trapno f = T_SYSCALL
      then bindR (exit_killed s) (\<lambda>_ s.
           bindR (with_sproc (\<lambda>c. upd_sproc c (\<lambda>p. p\<lparr>tf := f\<rparr>)) s) (\<lambda>_ s.
           bindR (syscall s) (\<lambda>_. exit_killed)))
      else bindR (trap_switch f cr2 s) (\<lambda>_ s.
           bindR (exit_if_killed f s) (\<lambda>_ s.
           bindR (on_skern (yield_on_tick f) s) (\<lambda>_.
           exit_if_killed f))))"

text \<open>What a preempted process does when the scheduler resumes it.\<close>

definition trap_resume :: "bool \<Rightarrow> trapframe \<Rightarrow> sys \<Rightarrow> (unit, sys) outcome" where
  "trap_resume ie f s = bindR (on_skern (yield_return ie) s) (\<lambda>_. exit_if_killed f)"

section \<open>The interrupt descriptor table\<close>

record gatedesc =
  off_15_0 :: u16
  gcs :: u16
  gargs :: nat
  rsv1 :: nat
  gtype :: nat
  gs :: bool
  dpl :: nat
  gpresent :: bool
  off_31_16 :: u16

definition SETGATE :: "bool \<Rightarrow> u16 \<Rightarrow> u32 \<Rightarrow> nat \<Rightarrow> gatedesc" where
  "SETGATE istrap sel off d =
     \<lparr>off_15_0 = ucast (off AND 0xFFFF), gcs = sel, gargs = 0, rsv1 = 0,
      gtype = (if istrap then 0xF else 0xE), gs = False, dpl = d, gpresent = True,
      off_31_16 = ucast (drop_bit 16 off)\<rparr>"

definition tvinit_idt :: "(nat \<Rightarrow> u32) \<Rightarrow> gatedesc list" where
  "tvinit_idt vectors =
     (map (\<lambda>i. SETGATE False 8 (vectors i) 0) [0..<256])[64 := SETGATE True 8 (vectors 64) 3]"

definition tvinit :: "(nat \<Rightarrow> u32) \<Rightarrow> kern \<Rightarrow> gatedesc list \<times> kern" where
  "tvinit vectors k = (tvinit_idt vectors, k\<lparr>km := initlock TICKSLK ''time'' (km k)\<rparr>)"

section \<open>Entering the kernel\<close>

text \<open>
  C0. The interrupt table lets user code in by one door: of the 256 gates only the system call
  gate may be called from user mode, it alone leaves interrupts on, and every gate leads to its
  vector in the kernel's code segment.
\<close>

theorem tvinit_gates:
  assumes "i < 256"
  shows "let g = fst (tvinit vectors k) ! i in
    gpresent g \<and> gcs g = 8 \<and> dpl g = (if i = 64 then 3 else 0) \<and> gtype g = (if i = 64 then 0xF else 0xE) \<and>
    push_bit 16 (ucast (off_31_16 g)) OR ucast (off_15_0 g) = vectors i"
proof -
  have off: "push_bit 16 (ucast (ucast (drop_bit 16 x) :: u16) :: u32) OR ucast (ucast (x AND 0xFFFF) :: u16) = x" for x :: u32
  proof (rule bit_word_eqI)
    fix n assume "n < LENGTH(32)"
    have m: "(0xFFFF :: u32) = mask 16" by (simp add: mask_eq_exp_minus_1)
    show "bit (push_bit 16 (ucast (ucast (drop_bit 16 x) :: u16) :: u32) OR ucast (ucast (x AND 0xFFFF) :: u16)) n = bit x n"
      unfolding m using \<open>n < LENGTH(32)\<close> by (cases "16 \<le> n") (auto simp: bit_simps)
  qed
  show ?thesis
    using assms off [of "vectors i"] by (auto simp: tvinit_def tvinit_idt_def SETGATE_def Let_def nth_list_update)
qed

theorem tvinit_gates_witness: "dpl (fst (tvinit (\<lambda>n. word_of_nat n) kern0) ! 13) = 0"
  using tvinit_gates [of 13 "\<lambda>n. word_of_nat n" kern0] by (simp add: Let_def)

lemma cframe_ptable: "cframe k k' \<Longrightarrow> ptable k' = ptable k"
  by (auto simp: cframe_def dest: kframe_sel(1))

lemma print_wp:
  assumes "hasl (km k) []" "con_ok (con k)" "\<And>k'. hasl (km k') [] \<Longrightarrow> ptable k' = ptable k \<Longrightarrow> Q () k'"
  shows "wp (cprintf fmt args k) Q"
  by (rule wp_mono [OF cprintf_wp [OF assms(1) _ assms(2)]]) (auto intro: assms(3) cframe_ptable)

text \<open>
  C0. A system call number the kernel does not know, also a negative one or one beyond the
  table, is an error of the caller: it gets -1 and nothing else of any process changes.
\<close>

theorem unknown_syscall:
  assumes "hasl (km (skern s)) []" "con_ok (con (skern s))" "curproc (skern s) = Some c"
    and "sint (tf_eax (tf (ptable (skern s) ! c))) \<notin> {1..23}"
  shows "wp (syscall s) (\<lambda>_ s'. hasl (km (skern s')) [] \<and> ftable s' = ftable s \<and>
    ptable (skern s') = (ptable (skern s))[c := (ptable (skern s) ! c)\<lparr>tf := (tf (ptable (skern s) ! c))\<lparr>tf_eax := - 1\<rparr>\<rparr>])"
proof -
  let ?n = "sint (tf_eax (tf (ptable (skern s) ! c)))"
  have "(if 0 < ?n \<and> ?n < NSYSCALLS then syscalls ?n else None) = None"
    using assms(4) by (auto simp: NSYSCALLS_def syscalls_def)
  then show ?thesis
    using assms(3) by (auto simp: syscall_def with_sproc_def Let_def on_skern_wp set_eax_def upd_proc_def intro!: print_wp [OF assms(1,2)])
qed

text \<open>
  C0. A fault in user code is the end of that process only: the process is marked as killed and
  no other entry of the table changes; the same fault in the kernel stops the machine.
\<close>

theorem user_fault_kills:
  assumes "hasl (km (skern s)) []" "con_ok (con (skern s))" "curproc (skern s) = Some c" "tf_trapno f < 32"
  shows "if tf_cs f AND 3 \<noteq> 0
    then wp (trap_switch f cr2 s) (\<lambda>_ s'. hasl (km (skern s')) [] \<and> ftable s' = ftable s \<and>
      ptable (skern s') = (ptable (skern s))[c := (ptable (skern s) ! c)\<lparr>killed := True\<rparr>])
    else trap_switch f cr2 s = Panic ''trap''"
proof -
  have sw: "trap_switch f cr2 s = on_skern (bad_trap f cr2) s"
    using assms(4) by (auto simp: trap_switch_def Let_def)
  show ?thesis
  proof (cases "tf_cs f AND 3 = 0")
    case False
    then show ?thesis
      unfolding sw using assms(3) by (auto simp: bad_trap_def on_skern_wp upd_proc_def intro!: print_wp [OF assms(1,2)])
  next
    case True
    have "\<exists>k. cprintf fmt args (skern s) = Ret () k" for fmt args
      using cprintf_wp [OF assms(1) _ assms(2), of fmt args] by (auto simp: wp_iff)
    then have "bad_trap f cr2 (skern s) = Panic ''trap''"
      using True assms(3) by (auto simp: bad_trap_def) (metis bindR_simps(1))
    then show ?thesis
      using True unfolding sw by (simp add: on_skern_def on_fs_def on_fkern_def on_log_def on_lkern_def on_bio_def on_kern_def zoom_def)
  qed
qed

lemma con_running0: "con_ok (con (running0 p))"
  by (simp add: running0_def set_curproc_def kern0_def console0_def con_ok_def)

theorem unknown_syscall_witness:
  "wp (syscall (sys_of (running0 3))) (\<lambda>_ s'. tf_eax (tf (ptable (skern s') ! 3)) = - 1)"
proof -
  have "wp (syscall (sys_of (running0 3))) (\<lambda>_ s'. hasl (km (skern s')) [] \<and> ftable s' = ftable (sys_of (running0 3)) \<and>
      ptable (skern s') = (ptable (running0 3))[3 := (ptable (running0 3) ! 3)\<lparr>tf := (tf (ptable (running0 3) ! 3))\<lparr>tf_eax := - 1\<rparr>\<rparr>])"
    using unknown_syscall [of "sys_of (running0 3)" 3] running0_facts [of 3] con_running0 [of 3]
    by (simp add: NPROC_def unused_proc_def)
  then show ?thesis
    by (rule wp_mono) (simp add: running0_facts NPROC_def)
qed

theorem user_fault_kills_witness:
  "wp (trap_switch (user_tf\<lparr>tf_trapno := 14\<rparr>) 0 (sys_of (running0 3))) (\<lambda>_ s'. killed (ptable (skern s') ! 3))"
proof -
  have "wp (trap_switch (user_tf\<lparr>tf_trapno := 14\<rparr>) 0 (sys_of (running0 3))) (\<lambda>_ s'. hasl (km (skern s')) [] \<and>
      ftable s' = ftable (sys_of (running0 3)) \<and> ptable (skern s') = (ptable (running0 3))[3 := (ptable (running0 3) ! 3)\<lparr>killed := True\<rparr>])"
    using user_fault_kills [of "sys_of (running0 3)" 3 "user_tf\<lparr>tf_trapno := 14\<rparr>" 0] running0_facts [of 3] con_running0 [of 3]
    by (simp add: user_tf_def zero_tf_def)
  then show ?thesis
    by (rule wp_mono) (simp add: running0_facts NPROC_def)
qed

end
