(* ===== verification/Kinv.thy ===== *)
theory Kinv
  imports File
begin

text \<open>
  The invariant of the kernel below the file system, and the proof that every routine of the
  scheduler, the console, the page allocator, the page tables and the pipes keeps it and ends.
  \<open>oc\<close> is the judgement used for this: whatever way a routine ends, the state it leaves
  satisfies the invariant, and it does not run forever. Its rules for single routines are
  collected in \<open>okI\<close>, so that the proof for a composite routine follows its text.
\<close>

section \<open>Outcomes that keep an invariant\<close>

definition oc :: "('a \<Rightarrow> 's \<Rightarrow> bool) \<Rightarrow> ('s \<Rightarrow> bool) \<Rightarrow> ('a, 's) outcome \<Rightarrow> bool" where
  "oc Q A m \<longleftrightarrow> (case m of Ret x s \<Rightarrow> Q x s | Asleep s \<Rightarrow> A s | Diverge \<Rightarrow> False | _ \<Rightarrow> True)"

named_theorems okI \<open>rules for the routines that keep the invariant\<close>
named_theorems okR \<open>rules that say more about the result than those of okI\<close>

lemma oc_simps [simp]:
  "oc Q A (Ret x s) \<longleftrightarrow> Q x s"
  "oc Q A (Panic e) \<longleftrightarrow> True"
  "oc Q A (Asleep s) \<longleftrightarrow> A s"
  "oc Q A (Spin s) \<longleftrightarrow> True"
  "oc Q A Diverge \<longleftrightarrow> False"
  by (simp_all add: oc_def)

lemma oc_bindR [simp]: "oc Q A (bindR m f) \<longleftrightarrow> oc (\<lambda>x s. oc Q A (f x s)) A m"
  by (cases m) simp_all

lemma oc_zoom [simp]: "oc Q A (zoom g p f s) \<longleftrightarrow> oc (\<lambda>x t. Q x (p t s)) (\<lambda>t. A (p t s)) (f (g s))"
  by (cases "f (g s)") (simp_all add: zoom_def)

lemma oc_conseq: "oc P B m \<Longrightarrow> (\<And>x s. P x s \<Longrightarrow> Q x s) \<Longrightarrow> (\<And>s. B s \<Longrightarrow> A s) \<Longrightarrow> oc Q A m"
  by (cases m) simp_all

lemma oc_lift:
  "oc (\<lambda>_. I) I (f (g s)) \<Longrightarrow> (\<And>x t. I t \<Longrightarrow> Q x (p t s)) \<Longrightarrow> (\<And>t. I t \<Longrightarrow> A (p t s)) \<Longrightarrow> oc Q A (zoom g p f s)"
  unfolding oc_zoom by (rule oc_conseq)

lemma oc_wp: "wp m P \<Longrightarrow> (\<And>x s. P x s \<Longrightarrow> Q x s) \<Longrightarrow> oc Q A m"
  by (cases m) simp_all

lemma oc_foreach:
  assumes "\<And>x s. x \<in> set xs \<Longrightarrow> I s \<Longrightarrow> oc (\<lambda>_. I) I (f x s)" "I s"
  shows "oc (\<lambda>_. I) I (foreach f xs s)"
  using assms
proof (induction xs arbitrary: s)
  case (Cons x xs)
  have "oc (\<lambda>_. I) I (f x s)" using Cons.prems by simp
  then show ?case
    unfolding foreach.simps oc_bindR by (rule oc_conseq) (use Cons in auto)
qed simp

lemma oc_not_Diverge: "oc Q A m \<Longrightarrow> m \<noteq> Diverge"
  by auto

section \<open>The invariant\<close>

text \<open>
  The input ring of the console holds what it says; the processors' current processes are
  entries of the process table.
\<close>

definition con_inv :: "console \<Rightarrow> bool" where
  "con_inv s \<longleftrightarrow> con_ok s \<and> length (in_buf s) = INPUT_BUF \<and>
     unat (in_w s - in_r s) + unat (in_e s - in_w s) \<le> INPUT_BUF"

definition mach_inv :: "mach \<Rightarrow> bool" where
  "mach_inv m \<longleftrightarrow> (\<forall>c p. cproc (cpus m c) = Some p \<longrightarrow> p < NPROC)"

definition proc_inv :: "int \<Rightarrow> proc \<Rightarrow> bool" where
  "proc_inv n p \<longleftrightarrow>
     length (ofile p) = NOFILE \<and> (\<forall>f. Some f \<in> set (ofile p) \<longrightarrow> f < NFILE) \<and>
     (\<forall>ip. cwd p = Some ip \<longrightarrow> ip < NINODE) \<and> (\<forall>q. parent p = Some q \<longrightarrow> q < NPROC) \<and>
     length (pname p) = 16 \<and> sz p < KERNBASE \<and> 0 \<le> pid p \<and> pid p < n"

text \<open>No two entries of the table have the same process identifier, except 0 for none.\<close>

definition pids_unique :: "proc list \<Rightarrow> bool" where
  "pids_unique ps \<longleftrightarrow> (\<forall>i < length ps. \<forall>j < length ps. pid (ps ! i) = pid (ps ! j) \<longrightarrow> i = j \<or> pid (ps ! i) = 0)"

definition ptable_inv :: "int \<Rightarrow> proc list \<Rightarrow> bool" where
  "ptable_inv n ps \<longleftrightarrow> length ps = NPROC \<and> 0 < n \<and> (\<forall>p \<in> set ps. proc_inv n p) \<and> pids_unique ps"

definition kinv :: "kern \<Rightarrow> bool" where
  "kinv k \<longleftrightarrow> mach_inv (km k) \<and> ptable_inv (nextpid k) (ptable k) \<and>
     (\<forall>p. initproc k = Some p \<longrightarrow> p < NPROC) \<and> con_inv (con k) \<and> (\<forall>p q. pipes k p = Some q \<longrightarrow> pipe_inv q)"

lemma kinv_simps [simp]:
  "kinv (k\<lparr>ram := m\<rparr>) = kinv k" "kinv (k\<lparr>freelist := f\<rparr>) = kinv k" "kinv (k\<lparr>ticks := t\<rparr>) = kinv k"
  "kinv (k\<lparr>kpgdir := d\<rparr>) = kinv k" "kinv (kstore32 a v k) = kinv k" "kinv (k\<lparr>use_lock := u\<rparr>) = kinv k"
  by (simp_all add: kinv_def kstore32_def)

lemma kinv_con [simp]: "kinv k \<Longrightarrow> con_inv (con k)"
  and kinv_set_con [simp]: "kinv k \<Longrightarrow> con_inv cn \<Longrightarrow> kinv (k\<lparr>con := cn\<rparr>)"
  and kinv_set_km: "kinv k \<Longrightarrow> mach_inv m \<Longrightarrow> kinv (k\<lparr>km := m\<rparr>)"
  and kinv_km: "kinv k \<Longrightarrow> mach_inv (km k)"
  and kinv_pipe: "kinv k \<Longrightarrow> pipes k a = Some q \<Longrightarrow> pipe_inv q"
  and kinv_set_pipe: "kinv k \<Longrightarrow> pipe_inv q \<Longrightarrow> kinv (set_pipe a q k)"
  and kinv_drop_pipe: "kinv k \<Longrightarrow> kinv (k\<lparr>pipes := (pipes k)(a := None)\<rparr>)"
  and kinv_curproc: "kinv k \<Longrightarrow> curproc k = Some c \<Longrightarrow> c < NPROC"
  and kinv_len: "kinv k \<Longrightarrow> length (ptable k) = NPROC"
  by (auto simp: kinv_def set_pipe_def curproc_def mach_inv_def this_cpu_def ptable_inv_def)

lemma kinv_proc: "kinv k \<Longrightarrow> p < NPROC \<Longrightarrow> proc_inv (nextpid k) (ptable k ! p)"
  by (auto simp: kinv_def ptable_inv_def)

lemmas kforeachI = oc_foreach [where I = kinv, THEN oc_conseq]

section \<open>Locks and scheduling\<close>

lemma mach_inv_upd_cpu: "mach_inv m \<Longrightarrow> (\<And>c. cproc (f c) = cproc c) \<Longrightarrow> mach_inv (upd_cpu f m)"
  by (auto simp: mach_inv_def upd_cpu_def)

lemma mach_inv_upd_lock [simp]: "mach_inv (upd_lock l f m) = mach_inv m"
  by (simp add: mach_inv_def upd_lock_def)

lemma mach_inv_cli: "mach_inv m \<Longrightarrow> mach_inv (cli m)" "mach_inv m \<Longrightarrow> mach_inv (sti m)"
  "mach_inv m \<Longrightarrow> mach_inv (pushcli m)" "mach_inv m \<Longrightarrow> mach_inv (initlock l n m)"
  by (auto simp: cli_def sti_def pushcli_def initlock_def Let_def intro!: mach_inv_upd_cpu)

lemma popcli_oc [THEN oc_conseq, okI]: "mach_inv m \<Longrightarrow> oc (\<lambda>_. mach_inv) mach_inv (popcli m)"
  by (auto simp: popcli_def Let_def intro!: mach_inv_upd_cpu mach_inv_cli)

lemma acquire_oc [THEN oc_conseq, okI]: "mach_inv m \<Longrightarrow> oc (\<lambda>_. mach_inv) mach_inv (acquire l m)"
  by (auto simp: acquire_def xchg_locked_def Let_def intro!: mach_inv_cli)

lemma release_oc [THEN oc_conseq, okI]: "mach_inv m \<Longrightarrow> oc (\<lambda>_. mach_inv) mach_inv (release l m)"
  by (auto simp: release_def xchg_locked_def Let_def intro!: okI)

lemma kacquire_oc [THEN oc_conseq, okI]: "kinv k \<Longrightarrow> oc (\<lambda>_. kinv) kinv (kacquire l k)"
  by (auto simp: kacquire_def intro!: okI kinv_km kinv_set_km)

lemma krelease_oc [THEN oc_conseq, okI]: "kinv k \<Longrightarrow> oc (\<lambda>_. kinv) kinv (krelease l k)"
  by (auto simp: krelease_def intro!: okI kinv_km kinv_set_km)

text \<open>Changing one entry of the process table.\<close>

lemma kinv_upd_proc:
  assumes k: "kinv k" and f: "\<And>p. proc_inv (nextpid k) p \<Longrightarrow> proc_inv (nextpid k) (f p)"
    "pid (f (ptable k ! i)) \<in> {pid (ptable k ! i), 0}"
  shows "kinv (upd_proc i f k)"
proof (cases "i < length (ptable k)")
  case True
  have "pids_unique (ptable k)" using k by (simp add: kinv_def ptable_inv_def)
  then have "pids_unique ((ptable k)[i := f (ptable k ! i)])"
    using f(2) True unfolding pids_unique_def by (simp add: nth_list_update) metis
  moreover have "\<forall>p \<in> set ((ptable k)[i := f (ptable k ! i)]). proc_inv (nextpid k) p"
    using k f(1) True by (auto simp: kinv_def ptable_inv_def dest!: set_update_subset_insert [THEN subsetD])
  ultimately show ?thesis using k by (simp add: kinv_def ptable_inv_def upd_proc_def)
next
  case False
  then show ?thesis using k by (simp add: kinv_def upd_proc_def list_update_beyond)
qed

lemma kinv_wakeup1 [simp, intro]: "kinv k \<Longrightarrow> kinv (wakeup1 ch k)"
proof -
  let ?f = "\<lambda>p. if pstate p = SLEEPING \<and> chan p = ch then p\<lparr>pstate := RUNNABLE\<rparr> else p"
  assume k: "kinv k"
  have p: "pid (?f p) = pid p" "proc_inv n (?f p) = proc_inv n p" for p n by (auto simp: proc_inv_def)
  have "ptable_inv (nextpid k) (map ?f (ptable k))"
    using k by (auto simp: p kinv_def ptable_inv_def pids_unique_def simp del: if_image_distrib)
  then show "kinv (wakeup1 ch k)"
    using k by (simp add: wakeup1_def kinv_def)
qed

lemma sched_oc [THEN oc_conseq, okI]: "kinv k \<Longrightarrow> oc (\<lambda>_. kinv) kinv (sched k)"
  by (auto simp: sched_def with_proc_def split: option.split)

lemma kinv_set_state [simp]:
  "kinv k \<Longrightarrow> kinv (upd_proc i (\<lambda>q. q\<lparr>pstate := st\<rparr>) k)"
  "kinv k \<Longrightarrow> kinv (upd_proc i (\<lambda>q. q\<lparr>chan := ch, pstate := st\<rparr>) k)"
  "kinv k \<Longrightarrow> kinv (upd_proc i (\<lambda>q. q\<lparr>chan := ch\<rparr>) k)"
  "kinv k \<Longrightarrow> kinv (upd_proc i (\<lambda>q. q\<lparr>kstack := a\<rparr>) k)"
  "kinv k \<Longrightarrow> kinv (upd_proc i (\<lambda>q. q\<lparr>pgdir := a\<rparr>) k)"
  "kinv k \<Longrightarrow> kinv (upd_proc i (\<lambda>q. q\<lparr>kstack := a, pstate := st\<rparr>) k)"
  "kinv k \<Longrightarrow> kinv (upd_proc i (\<lambda>q. q\<lparr>killed := b\<rparr>) k)"
  "kinv k \<Longrightarrow> kinv (upd_proc i (\<lambda>q. q\<lparr>ctx := cx\<rparr>) k)"
  "kinv k \<Longrightarrow> kinv (upd_proc i (\<lambda>q. q\<lparr>tf := fr q\<rparr>) k)"
  by (rule kinv_upd_proc; simp add: proc_inv_def)+

lemma yield_oc [THEN oc_conseq, okI]: "kinv k \<Longrightarrow> oc (\<lambda>_. kinv) kinv (yield k)"
  by (auto simp: yield_def with_proc_def intro!: okI split: option.split)

lemma kinv_sched_return: "kinv k \<Longrightarrow> kinv (sched_return b k)"
  by (auto simp: sched_return_def intro!: kinv_set_km mach_inv_upd_cpu kinv_km)

lemma yield_return_oc [THEN oc_conseq, okI]: "kinv k \<Longrightarrow> oc (\<lambda>_. kinv) kinv (yield_return b k)"
  by (auto simp: yield_return_def intro!: okI kinv_sched_return)

lemma sleep_oc [THEN oc_conseq, okI]: "kinv k \<Longrightarrow> oc (\<lambda>_. kinv) kinv (sleep ch l k)"
  by (auto simp: sleep_def intro!: okI split: option.split)

lemma wakeup_oc [THEN oc_conseq, okI]: "kinv k \<Longrightarrow> oc (\<lambda>_. kinv) kinv (wakeup ch k)"
  by (auto simp: wakeup_def intro!: okI)

lemma kill_oc [THEN oc_conseq, okI]: "kinv k \<Longrightarrow> oc (\<lambda>_. kinv) kinv (kill n k)"
  by (auto simp: kill_def Let_def proc_inv_def intro!: okI kinv_upd_proc split: option.split if_split_asm)

lemma switchuvm_oc [THEN oc_conseq, okI]: "kinv k \<Longrightarrow> oc (\<lambda>_. kinv) kinv (switchuvm p k)"
  by (auto simp: switchuvm_def with_proc_def Let_def split: option.split
    intro!: okI kinv_set_km mach_inv_upd_cpu mach_inv_cli kinv_km)

lemma kinv_switchkvm: "kinv k \<Longrightarrow> kinv (switchkvm k)"
  by (auto simp: switchkvm_def intro!: kinv_set_km mach_inv_upd_cpu kinv_km)

lemma kinv_set_curproc: "kinv k \<Longrightarrow> (\<And>p. c = Some p \<Longrightarrow> p < NPROC) \<Longrightarrow> kinv (set_curproc c k)"
  by (auto simp: set_curproc_def kinv_def mach_inv_def upd_cpu_def)

lemma scheduler_enter_oc [THEN oc_conseq, okI]:
  "kinv k \<Longrightarrow> i < NPROC \<Longrightarrow> oc (\<lambda>_. kinv) kinv (scheduler_enter i k)"
  by (auto simp: scheduler_enter_def intro!: okI kinv_set_curproc)

lemma scheduler_scan_oc [THEN oc_conseq, okI]:
  "kinv k \<Longrightarrow> set is \<subseteq> {..<NPROC} \<Longrightarrow> oc (\<lambda>_. kinv) kinv (scheduler_scan is k)"
  by (induction "is" arbitrary: k) (auto intro!: okI)

lemma scheduler_loop_oc [THEN oc_conseq, okI]:
  "kinv k \<Longrightarrow> set is \<subseteq> {..<NPROC} \<Longrightarrow> oc (\<lambda>_. kinv) kinv (scheduler_loop is k)"
  by (auto simp: scheduler_loop_def intro!: okI split: option.split)

lemma scheduler_pass_oc [THEN oc_conseq, okI]: "kinv k \<Longrightarrow> oc (\<lambda>_. kinv) kinv (scheduler_pass k)"
  by (auto simp: scheduler_pass_def intro!: okI kinv_set_km mach_inv_cli kinv_km)

lemma scheduler_back_oc [THEN oc_conseq, okI]: "kinv k \<Longrightarrow> oc (\<lambda>_. kinv) kinv (scheduler_back i k)"
  by (auto simp: scheduler_back_def scheduler_leave_def intro!: okI kinv_set_curproc kinv_switchkvm)

section \<open>Console\<close>

lemma con_inv_frame: "con_frame s t \<Longrightarrow> con_ok t \<Longrightarrow> con_inv s \<Longrightarrow> con_inv t"
  using con_frame_sel [of s t] by (simp add: con_inv_def)

lemma consputc_oc [THEN oc_conseq, okI]: "con_inv s \<Longrightarrow> oc (\<lambda>_ t. con_inv t \<and> con_frame s t) con_inv (consputc c s)"
  by (rule oc_wp [OF consputc_wp]) (auto simp: con_inv_def [of s] intro: con_inv_frame)

lemma consputs_oc [THEN oc_conseq, okI]: "con_inv s \<Longrightarrow> oc (\<lambda>_ t. con_inv t \<and> con_frame s t) con_inv (consputs cs s)"
  by (rule oc_wp [OF consputs_wp]) (auto simp: con_inv_def [of s] intro: con_inv_frame)

lemma cprintf_loop_oc [THEN oc_conseq, okI]: "con_inv s \<Longrightarrow> oc (\<lambda>_. con_inv) con_inv (cprintf_loop fmt args s)"
  by (induction fmt args s rule: cprintf_loop.induct) (auto simp: printint_def intro!: okI)

lemma cprintf_oc [THEN oc_conseq, okI]: "kinv k \<Longrightarrow> oc (\<lambda>_. kinv) kinv (cprintf fmt args k)"
  by (auto simp: cprintf_def on_con_def Let_def intro!: okI kinv_con kinv_set_con)

lemma procdump_entry_oc [THEN oc_conseq, okI]: "kinv k \<Longrightarrow> oc (\<lambda>_. kinv) kinv (procdump_entry i k)"
  by (auto simp: procdump_entry_def Let_def intro!: okI kforeachI)

lemma procdump_oc [THEN oc_conseq, okI]: "kinv k \<Longrightarrow> oc (\<lambda>_. kinv) kinv (procdump k)"
  by (auto simp: procdump_def intro!: okI kforeachI)

text \<open>The three ways the input ring changes.\<close>

lemma con_inv_erase:
  assumes "con_inv s" "in_e s \<noteq> in_w s"
  shows "con_inv (s\<lparr>in_e := in_e s - 1\<rparr>)"
proof -
  have "unat (in_e s - 1 - in_w s) < unat (in_e s - in_w s)"
    using assms(2) unat_minus_one [of "in_e s - in_w s"] by (simp add: algebra_simps unat_gt_0)
  then show ?thesis using assms(1) by (simp add: con_inv_def con_ok_def)
qed

lemma con_inv_type:
  fixes s :: console and c :: u8
  assumes "con_inv s" "in_e s - in_r s < 128"
  defines "t \<equiv> s\<lparr>in_buf := (in_buf s)[slot (in_buf s) (in_e s) := c], in_e := in_e s + 1\<rparr>"
  shows "con_inv t" "con_inv (t\<lparr>in_w := in_e t\<rparr>)"
proof -
  have n: "unat (in_e s - in_r s) = unat (in_w s - in_r s) + unat (in_e s - in_w s)"
    using assms(1) by (intro rbuf_counts) (simp add: con_inv_def)
  have lt: "unat (in_e s - in_r s) < 128" using assms(2) by (simp add: word_less_nat_alt)
  have inc: "unat (x + 1) = unat x + 1" if "unat x < 128" for x :: u32
    using that by (simp add: unat_word_ariths)
  have "unat (in_e s + 1 - in_w s) = unat (in_e s - in_w s) + 1" "unat (in_e s + 1 - in_r s) = unat (in_e s - in_r s) + 1"
    using inc [of "in_e s - in_w s"] inc [of "in_e s - in_r s"] n lt by (simp_all add: algebra_simps)
  then show "con_inv t" "con_inv (t\<lparr>in_w := in_e t\<rparr>)"
    using assms(1) n lt by (simp_all add: con_inv_def con_ok_def t_def)
qed

lemma con_inv_take:
  assumes "con_inv s" "in_r s \<noteq> in_w s"
  shows "con_inv (s\<lparr>in_r := in_r s + 1\<rparr>)" "unat (in_w s - (in_r s + 1)) < unat (in_w s - in_r s)"
proof -
  show "unat (in_w s - (in_r s + 1)) < unat (in_w s - in_r s)"
    using assms(2) unat_minus_one [of "in_w s - in_r s"] by (simp add: algebra_simps unat_gt_0)
  then show "con_inv (s\<lparr>in_r := in_r s + 1\<rparr>)" using assms(1) by (simp add: con_inv_def con_ok_def)
qed

lemma kill_line_oc [THEN oc_conseq, okI]: "con_inv s \<Longrightarrow> oc (\<lambda>_. con_inv) con_inv (kill_line n s)"
  by (induction n arbitrary: s) (auto intro!: okI con_inv_erase)

lemma con_inv_hand_over:
  "con_frame t s \<Longrightarrow> con_inv s \<Longrightarrow> con_inv (t\<lparr>in_w := in_e t\<rparr>) \<Longrightarrow> con_inv (s\<lparr>in_w := in_e s\<rparr>)"
  using con_frame_sel [of t s] by (simp add: con_inv_def con_ok_def)

lemma input_char_oc [THEN oc_conseq, okI]: "kinv k \<Longrightarrow> oc (\<lambda>_. kinv) kinv (input_char c k)"
  unfolding input_char_def on_con_def Let_def oc_bindR oc_zoom if_distrib [of "oc _ _"]
  by (auto intro!: okI kinv_set_con con_inv_type dest: con_inv_hand_over [OF _ _ con_inv_type(2) [OF kinv_con]])

lemma consoleintr_loop_oc [THEN oc_conseq, okI]: "kinv k \<Longrightarrow> oc (\<lambda>_. kinv) kinv (consoleintr_loop cs d k)"
  by (induction cs d k rule: consoleintr_loop.induct)
    (auto simp: on_con_def intro!: okI kinv_con kinv_set_con con_inv_erase)

lemma consoleintr_oc [THEN oc_conseq, okI]: "kinv k \<Longrightarrow> oc (\<lambda>_. kinv) kinv (consoleintr cs k)"
  by (auto simp: consoleintr_def intro!: okI)

lemma kbdintr_oc [THEN oc_conseq, okI]: "kinv k \<Longrightarrow> oc (\<lambda>_. kinv) kinv (fst (kbdintr s k))"
  by (auto simp: kbdintr_def intro!: okI split: prod.split)

lemma uartintr_oc [THEN oc_conseq, okI]: "kinv k \<Longrightarrow> oc (\<lambda>_. kinv) kinv (fst (uartintr rx k))"
  by (auto simp: uartintr_def intro!: okI)

section \<open>Physical memory\<close>

lemma kalloc_oc [THEN oc_conseq, okI]: "kinv k \<Longrightarrow> oc (\<lambda>_. kinv) kinv (kalloc k)"
  by (auto simp: kalloc_def Let_def intro!: okI)

lemma kfree_oc [THEN oc_conseq, okI]: "kinv k \<Longrightarrow> oc (\<lambda>_. kinv) kinv (kfree p k)"
  by (auto simp: kfree_def Let_def intro!: okI)

section \<open>Page tables\<close>

lemma walkpgdir_oc [THEN oc_conseq, okI]: "kinv k \<Longrightarrow> oc (\<lambda>_. kinv) kinv (walkpgdir d va al k)"
  by (auto simp: walkpgdir_def Let_def intro!: okI)

text \<open>The pages from \<open>a\<close> to \<open>lst\<close>, which may wrap around, are fewer than \<open>2 ^ 20\<close>.\<close>

lemma pages_left:
  fixes a lst :: u32
  assumes "page_aligned (lst - a)" "a \<noteq> lst"
  shows "unat (lst - (a + PGSIZE)) = unat (lst - a) - 4096" "4096 \<le> unat (lst - a)" "page_aligned (lst - (a + PGSIZE))"
proof -
  have "unat (lst - a) \<noteq> 0" using assms(2) by (simp add: unat_eq_0)
  then show ge: "4096 \<le> unat (lst - a)" using assms(1) by (auto simp: page_aligned_def dvd_imp_le)
  have n: "unat (4096 :: u32) = 4096" by simp
  have "unat ((lst - a) - 4096) = unat (lst - a) - unat (4096 :: u32)"
    using ge by (intro unat_sub) (simp add: word_le_nat_alt)
  then have "unat ((lst - a) - 4096) = unat (lst - a) - 4096" unfolding n .
  then show "unat (lst - (a + PGSIZE)) = unat (lst - a) - 4096" unfolding diff_diff_eq .
  then show "page_aligned (lst - (a + PGSIZE))"
    using assms(1) ge by (auto simp: page_aligned_def mod_0_imp_dvd dvd_diff_nat elim!: dvd_imp_mod_0)
qed

lemma mappages_loop_oc:
  "kinv k \<Longrightarrow> page_aligned (lst - a) \<Longrightarrow> unat (lst - a) < 4096 * n \<Longrightarrow>
    oc (\<lambda>_. kinv) kinv (mappages_loop n d a lst pa perm k)"
proof (induction n arbitrary: a pa k)
  case (Suc n)
  have "oc (\<lambda>_. kinv) kinv (mappages_loop n d (a + PGSIZE) lst (pa + PGSIZE) perm k')" if "kinv k'" "a \<noteq> lst" for k'
    using pages_left [OF Suc.prems(2) that(2)] Suc.prems that(1) by (intro Suc.IH) auto
  then show ?case using Suc.prems(1) by (auto simp: Let_def intro!: okI)
qed simp

lemma page_aligned_PGROUNDDOWN: "page_aligned (PGROUNDDOWN a)"
  by (simp add: page_aligned_def unat_PGROUNDDOWN minus_mod_eq_mult_div)

lemma mappages_oc [THEN oc_conseq, okI]: "kinv k \<Longrightarrow> oc (\<lambda>_. kinv) kinv (mappages d va len pa perm k)"
proof -
  let ?a = "PGROUNDDOWN va" and ?l = "PGROUNDDOWN (va + len - 1)"
  assume "kinv k"
  moreover have "page_aligned (?l - ?a)"
    using page_aligned_add [of ?a "?l - ?a"] page_aligned_PGROUNDDOWN by simp
  moreover have "unat (?l - ?a) < 4096 * 2 ^ 20"
    using unat_u32_bound [of "?l - ?a"] by simp
  ultimately show ?thesis unfolding mappages_def by (rule mappages_loop_oc)
qed

lemma setupkvm_loop_oc [THEN oc_conseq, okI]: "kinv k \<Longrightarrow> oc (\<lambda>_. kinv) kinv (setupkvm_loop d es k)"
  by (induction es arbitrary: k) (auto intro!: okI)

lemma setupkvm_oc [THEN oc_conseq, okI]: "kinv k \<Longrightarrow> oc (\<lambda>_. kinv) kinv (setupkvm k)"
  by (auto simp: setupkvm_def Let_def intro!: okI)

lemma inituvm_oc [THEN oc_conseq, okI]: "kinv k \<Longrightarrow> oc (\<lambda>_. kinv) kinv (inituvm d b k)"
  by (auto simp: inituvm_def Let_def intro!: okI)

text \<open>Stepping by a page or by a whole table towards an end within the user half.\<close>

lemma step_up:
  fixes a e d :: u32
  assumes "a < e" "e \<le> KERNBASE" "4096 \<le> unat d" "unat d \<le> 4194304" "unat e \<le> unat a + 4096 * Suc n"
  shows "unat e \<le> unat (a + d) + 4096 * n"
proof -
  have "unat a < 2147483648" using assms(1,2) by (simp add: word_less_nat_alt word_le_nat_alt)
  then have "unat (a + d) = unat a + unat d" using assms(4) by (simp add: unat_word_ariths)
  then show ?thesis using assms(3,5) by simp
qed

lemma deallocuvm_loop_oc:
  "kinv k \<Longrightarrow> e \<le> KERNBASE \<Longrightarrow> unat e \<le> unat a + 4096 * n \<Longrightarrow>
    oc (\<lambda>_. kinv) kinv (deallocuvm_loop (Suc n) d a e k)"
proof (induction n arbitrary: a k)
  case 0
  then show ?case by (simp add: word_less_nat_alt)
next
  case (Suc n)
  have big: "unat (1023 * PGSIZE + PGSIZE) = 4194304" by simp
  have "oc (\<lambda>_. kinv) kinv (deallocuvm_loop (Suc n) d (a + st) e k')"
    if "kinv k'" "a < e" "st \<in> {PGSIZE, 1023 * PGSIZE + PGSIZE}" for k' st
    using Suc.prems that by (intro Suc.IH step_up) auto
  then show ?case using Suc.prems(1) by (subst deallocuvm_loop.simps) (auto simp: Let_def add.assoc simp del: deallocuvm_loop.simps intro!: okI)
qed

lemma deallocuvm_fuel [okI]:
  "kinv k \<Longrightarrow> e \<le> KERNBASE \<Longrightarrow> (\<And>x k. kinv k \<Longrightarrow> Q x k) \<Longrightarrow> (\<And>k. kinv k \<Longrightarrow> A k) \<Longrightarrow>
    oc Q A (deallocuvm_loop 1048577 d a e k)"
  using deallocuvm_loop_oc [of k e a 1048576 d, THEN oc_conseq, of Q A] unat_u32_bound [of e]
  by (simp del: deallocuvm_loop.simps)

lemma deallocuvm_oc [THEN oc_conseq, okI]:
  "kinv k \<Longrightarrow> old \<le> KERNBASE \<Longrightarrow> oc (\<lambda>r k. kinv k \<and> r \<le> old) kinv (deallocuvm d old new k)"
  by (auto simp: deallocuvm_def simp del: deallocuvm_loop.simps intro!: okI)

lemma allocuvm_loop_oc:
  "kinv k \<Longrightarrow> new < KERNBASE \<Longrightarrow> old \<le> KERNBASE \<Longrightarrow> unat new \<le> unat a + 4096 * n \<Longrightarrow>
    oc (\<lambda>r k. kinv k \<and> (r = new \<or> r = 0)) kinv (allocuvm_loop (Suc n) d a old new k)"
proof (induction n arbitrary: a k)
  case 0
  then show ?case by (simp add: word_less_nat_alt)
next
  case (Suc n)
  have "oc (\<lambda>r k. kinv k \<and> (r = new \<or> r = 0)) kinv (allocuvm_loop (Suc n) d (a + PGSIZE) old new k')" if "kinv k'" "a < new" for k'
    using Suc.prems that by (intro Suc.IH step_up) auto
  then show ?case using Suc.prems by (subst allocuvm_loop.simps) (auto simp: Let_def simp del: allocuvm_loop.simps intro!: okI)
qed

lemma allocuvm_fuel [okI]:
  "kinv k \<Longrightarrow> new < KERNBASE \<Longrightarrow> old \<le> KERNBASE \<Longrightarrow> (\<And>x k. kinv k \<and> (x = new \<or> x = 0) \<Longrightarrow> Q x k) \<Longrightarrow> (\<And>k. kinv k \<Longrightarrow> A k) \<Longrightarrow>
    oc Q A (allocuvm_loop 1048577 d a old new k)"
  using allocuvm_loop_oc [of k new old a 1048576 d, THEN oc_conseq, of Q A] unat_u32_bound [of new]
  by (simp del: allocuvm_loop.simps)

lemma allocuvm_oc [THEN oc_conseq, okI]:
  "kinv k \<Longrightarrow> old \<le> KERNBASE \<Longrightarrow> oc (\<lambda>r k. kinv k \<and> (r < KERNBASE \<or> r = old \<and> new < old)) kinv (allocuvm d old new k)"
  by (auto simp: allocuvm_def simp del: allocuvm_loop.simps intro!: okI)

lemma free_table_oc [THEN oc_conseq, okI]: "kinv k \<Longrightarrow> oc (\<lambda>_. kinv) kinv (free_table d i k)"
  by (auto simp: free_table_def Let_def intro!: okI)

lemma freevm_oc [THEN oc_conseq, okI]: "kinv k \<Longrightarrow> oc (\<lambda>_. kinv) kinv (freevm d k)"
  by (auto simp: freevm_def intro!: okI kforeachI)

lemma clearpteu_oc [THEN oc_conseq, okI]: "kinv k \<Longrightarrow> oc (\<lambda>_. kinv) kinv (clearpteu d a k)"
  by (auto simp: clearpteu_def intro!: okI)

lemma copyuvm_loop_oc:
  "kinv k \<Longrightarrow> len \<le> KERNBASE \<Longrightarrow> unat len \<le> unat i + 4096 * n \<Longrightarrow>
    oc (\<lambda>_. kinv) kinv (copyuvm_loop (Suc n) d dir i len k)"
proof (induction n arbitrary: i k)
  case 0
  then show ?case by (simp add: word_less_nat_alt)
next
  case (Suc n)
  have "oc (\<lambda>_. kinv) kinv (copyuvm_loop (Suc n) d dir (i + PGSIZE) len k')" if "kinv k'" "i < len" for k'
    using Suc.prems that by (intro Suc.IH step_up) auto
  then show ?case using Suc.prems by (subst copyuvm_loop.simps) (auto simp: Let_def simp del: copyuvm_loop.simps intro!: okI)
qed

lemma copyuvm_fuel [okI]:
  "kinv k \<Longrightarrow> len \<le> KERNBASE \<Longrightarrow> (\<And>x k. kinv k \<Longrightarrow> Q x k) \<Longrightarrow> (\<And>k. kinv k \<Longrightarrow> A k) \<Longrightarrow>
    oc Q A (copyuvm_loop 1048577 d dir i len k)"
  using copyuvm_loop_oc [of k len i 1048576 d dir, THEN oc_conseq, of Q A] unat_u32_bound [of len]
  by (simp del: copyuvm_loop.simps)

lemma copyuvm_oc [THEN oc_conseq, okI]: "kinv k \<Longrightarrow> len \<le> KERNBASE \<Longrightarrow> oc (\<lambda>_. kinv) kinv (copyuvm d len k)"
  by (auto simp: copyuvm_def simp del: copyuvm_loop.simps intro!: okI)

lemma vread_oc [THEN oc_conseq, okI]: "kinv k \<Longrightarrow> oc (\<lambda>bs k. kinv k \<and> length bs = n) kinv (vread a n k)"
proof -
  have "vload a n k = Some bs \<Longrightarrow> length bs = n" for bs a
    by (induction a n k arbitrary: bs rule: vload.induct) (auto split: option.splits)
  then show "kinv k \<Longrightarrow> oc (\<lambda>bs k. kinv k \<and> length bs = n) kinv (vread a n k)"
    by (auto simp: vread_def split: option.split)
qed

lemma vwrite_oc [THEN oc_conseq, okI]: "kinv k \<Longrightarrow> oc (\<lambda>_. kinv) kinv (vwrite a bs k)"
proof -
  have "kinv k \<Longrightarrow> vstore a bs k = Some k' \<Longrightarrow> kinv k'" for k'
    by (induction a bs k arbitrary: k' rule: vstore.induct) (auto split: option.splits)
  then show "kinv k \<Longrightarrow> oc (\<lambda>_. kinv) kinv (vwrite a bs k)"
    by (auto simp: vwrite_def split: option.split)
qed

lemma vread32_oc [THEN oc_conseq, okI]: "kinv k \<Longrightarrow> oc (\<lambda>_. kinv) kinv (vread32 a k)"
  by (auto simp: vread32_def intro!: okI)

lemma vwrite32_oc [THEN oc_conseq, okI]: "kinv k \<Longrightarrow> oc (\<lambda>_. kinv) kinv (vwrite32 a w k)"
  by (auto simp: vwrite32_def intro!: okI)

lemma uva2ka_oc [THEN oc_conseq, okI]: "kinv k \<Longrightarrow> oc (\<lambda>_. kinv) kinv (uva2ka d a k)"
  by (auto simp: uva2ka_def intro!: okI)

lemma copyout_loop_oc:
  "kinv k \<Longrightarrow> length buf < n \<Longrightarrow> oc (\<lambda>_. kinv) kinv (copyout_loop n d va buf k)"
proof (induction n arbitrary: va buf k)
  case (Suc n)
  let ?va0 = "PGROUNDDOWN va"
  have "va - ?va0 < PGSIZE"
    using in_page_iff [OF page_aligned_PGROUNDDOWN [of va], of va]
    by (simp add: page_def unat_PGROUNDDOWN minus_mod_eq_mult_div)
  then have pos: "0 < unat (PGSIZE - (va - ?va0))" by (simp add: unat_gt_0)
  have IH: "oc (\<lambda>_. kinv) kinv (copyout_loop n d (?va0 + PGSIZE) (drop m buf) k')" if "kinv k'" "0 < m" "buf \<noteq> []" for k' m
  proof -
    have "length buf - m < n" using Suc.prems(2) that(2,3) by (cases buf) auto
    then show ?thesis using that(1) by (intro Suc.IH) simp_all
  qed
  have "oc (\<lambda>_. kinv) kinv (copyout_loop n d (?va0 + PGSIZE) [] k')" if "kinv k'" "buf \<noteq> []" for k'
    using IH [of k' "length buf"] that by simp
  then show ?case using Suc.prems(1) pos IH by (auto simp: Let_def intro!: okI)
qed simp

lemma copyout_oc [THEN oc_conseq, okI]: "kinv k \<Longrightarrow> oc (\<lambda>_. kinv) kinv (copyout d va buf k)"
  unfolding copyout_def by (rule copyout_loop_oc) simp_all

section \<open>Pipes\<close>

lemma with_pipe_oc:
  "kinv k \<Longrightarrow> (\<And>q. pipe_inv q \<Longrightarrow> oc Q A (f q k)) \<Longrightarrow> oc Q A (with_pipe p f k)"
  by (auto simp: with_pipe_def dest: kinv_pipe split: option.split)

lemma pipeclose_oc [THEN oc_conseq, okI]: "kinv k \<Longrightarrow> oc (\<lambda>_. kinv) kinv (pipeclose p w k)"
  by (auto simp: pipeclose_def pipe_inv_def intro!: okI with_pipe_oc kinv_set_pipe kinv_drop_pipe)

lemma pipe_inv_push:
  assumes "pipe_inv q" "nwrite q \<noteq> nread q + 512"
  shows "pipe_inv (q\<lparr>pdata := (pdata q)[i := b], nwrite := nwrite q + 1\<rparr>)"
proof -
  have "nwrite q - nread q \<noteq> 512" using assms(2) by (auto simp: algebra_simps)
  then have "unat (nwrite q - nread q) \<noteq> 512" by (simp add: word_unat_eq_iff)
  then have lt: "unat (nwrite q - nread q) < 512" using assms(1) by (simp add: pipe_inv_def)
  then have "unat (nwrite q - nread q + 1) = unat (nwrite q - nread q) + 1" by (simp add: unat_word_ariths)
  then have "unat (nwrite q + 1 - nread q) = unat (nwrite q - nread q) + 1" by (simp add: algebra_simps)
  then show ?thesis using assms(1) lt by (simp add: pipe_inv_def)
qed

lemma pipe_inv_pop:
  assumes "pipe_inv q" "nread q \<noteq> nwrite q"
  shows "pipe_inv (q\<lparr>nread := nread q + 1\<rparr>)"
proof -
  have "unat (nwrite q - (nread q + 1)) < unat (nwrite q - nread q)"
    using assms(2) unat_minus_one [of "nwrite q - nread q"] by (simp add: algebra_simps unat_gt_0)
  then show ?thesis using assms(1) by (simp add: pipe_inv_def)
qed

lemma pipewrite_loop_oc [THEN oc_conseq, okI]: "kinv k \<Longrightarrow> oc (\<lambda>_. kinv) kinv (pipewrite_loop m p a i k)"
  by (induction m p a i k rule: pipewrite_loop.induct)
    (auto simp: with_proc_def kinv_set_pipe pipe_inv_push intro!: okI with_pipe_oc split: option.split)

lemma pipewrite_oc [THEN oc_conseq, okI]: "kinv k \<Longrightarrow> oc (\<lambda>_. kinv) kinv (pipewrite p a n k)"
  by (auto simp: pipewrite_def intro!: okI)

lemma piperead_loop_oc [THEN oc_conseq, okI]: "kinv k \<Longrightarrow> oc (\<lambda>_. kinv) kinv (piperead_loop m p a i k)"
  by (induction m p a i k rule: piperead_loop.induct)
    (auto simp: kinv_set_pipe pipe_inv_pop intro!: okI with_pipe_oc)

lemma piperead_oc [THEN oc_conseq, okI]: "kinv k \<Longrightarrow> oc (\<lambda>_. kinv) kinv (piperead p a n k)"
  by (auto simp: piperead_def with_proc_def intro!: okI with_pipe_oc split: option.split)

end
