(* ===== verification/Finv.thy ===== *)
theory Finv
  imports Kinv
begin

text \<open>
  The invariant of the file system's layers (buffer cache, log, inode cache), and the proof
  that every routine of \<open>src/bio.c\<close>, \<open>src/log.c\<close>, \<open>src/fs.c\<close> and of the console device keeps it
  and ends. The links of the buffer cache form a ring, so its scans end; every step down a
  path shortens it; reading and writing move on by at least a byte.
\<close>

section \<open>Buffer cache\<close>

definition binv :: "bio \<Rightarrow> bool" where
  "binv s \<longleftrightarrow> kinv (bk s) \<and> (\<exists>l. lru (bufs s) l)"

lemma binv_kern: "binv s \<Longrightarrow> kinv (bk s)" "binv s \<Longrightarrow> kinv k \<Longrightarrow> binv (s\<lparr>bk := k\<rparr>)"
  by (simp_all add: binv_def)

lemma binv_upd_buf:
  "binv s \<Longrightarrow> (\<And>x. bnext (f x) = bnext x) \<Longrightarrow> (\<And>x. bprev (f x) = bprev x) \<Longrightarrow> binv (upd_buf i f s)"
  by (auto simp: binv_def upd_buf_def lru_setb_payload)

lemma on_kern_oc [okI]:
  "binv s \<Longrightarrow> (\<And>k. kinv k \<Longrightarrow> oc (\<lambda>_. kinv) kinv (f k)) \<Longrightarrow> (\<And>x t. binv t \<Longrightarrow> Q x t) \<Longrightarrow> (\<And>t. binv t \<Longrightarrow> A t) \<Longrightarrow>
    oc Q A (on_kern f s)"
  unfolding on_kern_def by (rule oc_lift [where I = kinv]) (auto simp: binv_kern)

lemma scan_some:
  assumes "binv s"
  obtains l where "set l = {..<NBUF}"
    "\<And>P. scan (Suc NBUF) bnext P (bnext (bufs s ! HEAD)) (bufs s) = Some (List.find (\<lambda>i. P (bufs s ! i)) l)"
    "\<And>P. scan (Suc NBUF) bprev P (bprev (bufs s ! HEAD)) (bufs s) = Some (List.find (\<lambda>i. P (bufs s ! i)) (rev l))"
  using assms scan_lru unfolding binv_def lru_def by metis

lemma find_in: "List.find P l = Some i \<Longrightarrow> i \<in> set l"
  by (auto simp: find_Some_iff)

lemma bget_oc [THEN oc_conseq, okI]: "binv s \<Longrightarrow> oc (\<lambda>b t. binv t \<and> b < NBUF) binv (bget dev bno s)"
proof -
  assume s: "binv s"
  have "oc (\<lambda>b t. binv t \<and> b < NBUF) binv
      (case scan (Suc NBUF) bnext (\<lambda>b. bdev b = dev \<and> blockno b = bno) (bnext (bufs t ! HEAD)) (bufs t) of
       None \<Rightarrow> Diverge
     | Some (Some b) \<Rightarrow>
         if \<not> busy (bufs t ! b)
         then bindR (on_kern (krelease BCACHE) (upd_buf b (\<lambda>x. x\<lparr>busy := True\<rparr>) t)) (\<lambda>_. Ret b)
         else bindR (on_kern (sleep (ChBuf b) (Some BCACHE)) t) (\<lambda>_ s. Asleep s)
     | Some None \<Rightarrow>
         (case scan (Suc NBUF) bprev (\<lambda>b. \<not> busy b \<and> \<not> dirty b) (bprev (bufs t ! HEAD)) (bufs t) of
            None \<Rightarrow> Diverge
          | Some (Some b) \<Rightarrow>
              bindR (on_kern (krelease BCACHE)
                (upd_buf b (\<lambda>x. x\<lparr>bdev := dev, blockno := bno, busy := True, valid := False, dirty := False\<rparr>) t))
                (\<lambda>_. Ret b)
          | Some None \<Rightarrow> Panic ''bget: no buffers''))" if t: "binv t" for t
  proof -
    from scan_some [OF t] obtain l where "set l = {..<NBUF}"
      "\<And>P. scan (Suc NBUF) bnext P (bnext (bufs t ! HEAD)) (bufs t) = Some (List.find (\<lambda>i. P (bufs t ! i)) l)"
      "\<And>P. scan (Suc NBUF) bprev P (bprev (bufs t ! HEAD)) (bufs t) = Some (List.find (\<lambda>i. P (bufs t ! i)) (rev l))"
      by blast
    then show ?thesis
      using t by (auto simp del: scan.simps intro!: okI binv_upd_buf dest!: find_in split: option.split)
  qed
  then show ?thesis
    using s by (auto simp: bget_def simp del: scan.simps intro!: okI)
qed

lemma iderw_oc [THEN oc_conseq, okI]: "binv s \<Longrightarrow> oc (\<lambda>_. binv) binv (iderw b s)"
proof -
  assume s: "binv s"
  have "binv (s\<lparr>disk := d, writes := w\<rparr>)" for d w using s by (simp add: binv_def)
  then show ?thesis using s by (auto simp: iderw_def Let_def intro!: binv_upd_buf)
qed

lemma bread_oc [THEN oc_conseq, okI]: "binv s \<Longrightarrow> oc (\<lambda>b t. binv t \<and> b < NBUF) binv (bread dev bno s)"
  by (auto simp: bread_def intro!: okI)

lemma bwrite_oc [THEN oc_conseq, okI]: "binv s \<Longrightarrow> oc (\<lambda>_. binv) binv (bwrite b s)"
  by (auto simp: bwrite_def intro!: okI binv_upd_buf)

lemma binv_move_front: "binv s \<Longrightarrow> b < NBUF \<Longrightarrow> binv (s\<lparr>bufs := link_front b (unlink_buf b (bufs s))\<rparr>)"
  using lru_move_front by (auto simp: binv_def)

lemma brelse_oc [THEN oc_conseq, okI]: "binv s \<Longrightarrow> b < NBUF \<Longrightarrow> oc (\<lambda>_. binv) binv (brelse b s)"
  by (auto simp: brelse_def Let_def intro!: okI binv_upd_buf binv_move_front)

lemma readsb_oc [THEN oc_conseq, okI]: "binv s \<Longrightarrow> oc (\<lambda>_. binv) binv (readsb dev s)"
  by (auto simp: readsb_def intro!: okI)

section \<open>Log\<close>

abbreviation linv :: "log \<Rightarrow> bool" where "linv s \<equiv> binv (lb s)"

lemma binv_set_data: "binv s \<Longrightarrow> binv (set_data b d s)" "binv s \<Longrightarrow> binv (set_dirty b s)"
  by (auto simp: set_data_def set_dirty_def intro!: binv_upd_buf)

lemma linv_set_data [simp]: "linv s \<Longrightarrow> linv (lset_data b d s)"
  by (simp add: lset_data_def binv_set_data)

lemma on_bio_oc [okI]:
  "linv s \<Longrightarrow> (\<And>b. binv b \<Longrightarrow> oc (\<lambda>_. binv) binv (f b)) \<Longrightarrow> (\<And>x t. linv t \<Longrightarrow> Q x t) \<Longrightarrow> (\<And>t. linv t \<Longrightarrow> A t) \<Longrightarrow>
    oc Q A (on_bio f s)"
  unfolding on_bio_def by (rule oc_lift [where I = binv]) auto

lemma on_lkern_oc [okI]:
  "linv s \<Longrightarrow> (\<And>k. kinv k \<Longrightarrow> oc (\<lambda>_. kinv) kinv (f k)) \<Longrightarrow> (\<And>x t. linv t \<Longrightarrow> Q x t) \<Longrightarrow> (\<And>t. linv t \<Longrightarrow> A t) \<Longrightarrow>
    oc Q A (on_lkern f s)"
  by (auto simp: on_lkern_def intro!: okI)

lemma on_bio_bread_oc [okR]:
  "linv s \<Longrightarrow> (\<And>b t. linv t \<Longrightarrow> b < NBUF \<Longrightarrow> Q b t) \<Longrightarrow> (\<And>t. linv t \<Longrightarrow> A t) \<Longrightarrow>
    oc Q A (on_bio (bread dev bno) s)"
  by (auto simp: on_bio_def intro!: okI)

lemmas lforeachI = oc_foreach [where I = linv, THEN oc_conseq]

lemma install_block_oc [THEN oc_conseq, okI]: "linv s \<Longrightarrow> oc (\<lambda>_. linv) linv (install_block i s)"
  by (auto simp: install_block_def intro!: okI okR)

lemma install_trans_oc [THEN oc_conseq, okI]: "linv s \<Longrightarrow> oc (\<lambda>_. linv) linv (install_trans s)"
  by (auto simp: install_trans_def intro!: okI okR lforeachI)

lemma read_head_oc [THEN oc_conseq, okI]: "linv s \<Longrightarrow> oc (\<lambda>_. linv) linv (read_head s)"
  by (auto simp: read_head_def Let_def intro!: okI okR)

lemma write_head_oc [THEN oc_conseq, okI]: "linv s \<Longrightarrow> oc (\<lambda>_. linv) linv (write_head s)"
  by (auto simp: write_head_def Let_def intro!: okI okR)

lemma recover_from_log_oc [THEN oc_conseq, okI]: "linv s \<Longrightarrow> oc (\<lambda>_. linv) linv (recover_from_log s)"
  by (auto simp: recover_from_log_def intro!: okI okR)

lemma initlog_oc [THEN oc_conseq, okI]: "linv s \<Longrightarrow> oc (\<lambda>_. linv) linv (initlog dev s)"
  by (auto simp: initlog_def Let_def intro!: okI okR binv_kern kinv_set_km mach_inv_cli kinv_km)

lemma begin_op_oc [THEN oc_conseq, okI]: "linv s \<Longrightarrow> oc (\<lambda>_. linv) linv (begin_op s)"
  by (auto simp: begin_op_def begin_op_loop_def intro!: okI okR)

lemma log_block_oc [THEN oc_conseq, okI]: "linv s \<Longrightarrow> oc (\<lambda>_. linv) linv (log_block i s)"
  by (auto simp: log_block_def intro!: okI okR)

lemma write_log_oc [THEN oc_conseq, okI]: "linv s \<Longrightarrow> oc (\<lambda>_. linv) linv (write_log s)"
  by (auto simp: write_log_def intro!: okI okR lforeachI)

lemma commit_oc [THEN oc_conseq, okI]: "linv s \<Longrightarrow> oc (\<lambda>_. linv) linv (commit s)"
  by (auto simp: commit_def intro!: okI okR)

lemma end_op_oc [THEN oc_conseq, okI]: "linv s \<Longrightarrow> oc (\<lambda>_. linv) linv (end_op s)"
  by (auto simp: end_op_def Let_def intro!: okI okR)

lemma log_write_oc [THEN oc_conseq, okI]: "linv s \<Longrightarrow> oc (\<lambda>_. linv) linv (log_write b s)"
  by (auto simp: log_write_def Let_def intro!: okI okR binv_set_data)

section \<open>Inodes\<close>

definition finv :: "fs \<Rightarrow> bool" where
  "finv s \<longleftrightarrow> linv (fl s) \<and> length (inodes s) = NINODE \<and> (\<forall>i \<in> set (inodes s). length (iaddrs i) = Suc NDIRECT)"

lemma finv_log: "finv s \<Longrightarrow> linv (fl s)" "finv s \<Longrightarrow> linv l \<Longrightarrow> finv (s\<lparr>fl := l\<rparr>)"
  by (simp_all add: finv_def)

lemma finv_len: "finv s \<Longrightarrow> length (inodes s) = NINODE"
  by (simp add: finv_def)

lemma finv_fsb [simp]: "finv (s\<lparr>fsb := b\<rparr>) = finv s"
  by (simp add: finv_def)

lemma finv_set_data [simp]: "finv s \<Longrightarrow> finv (fset_data b d s)"
  by (simp add: finv_def fset_data_def)

lemma finv_upd_inode:
  "finv s \<Longrightarrow> (\<And>i. length (iaddrs i) = Suc NDIRECT \<Longrightarrow> length (iaddrs (f i)) = Suc NDIRECT) \<Longrightarrow> finv (upd_inode ip f s)"
  by (cases "ip < NINODE")
    (auto simp: finv_def upd_inode_def list_update_beyond dest!: set_update_subset_insert [THEN subsetD])

lemma on_log_oc [okI]:
  "finv s \<Longrightarrow> (\<And>l. linv l \<Longrightarrow> oc (\<lambda>_. linv) linv (f l)) \<Longrightarrow> (\<And>x t. finv t \<Longrightarrow> Q x t) \<Longrightarrow> (\<And>t. finv t \<Longrightarrow> A t) \<Longrightarrow>
    oc Q A (on_log f s)"
  unfolding on_log_def by (rule oc_lift [where I = linv]) (auto simp: finv_log)

lemma on_fbio_oc [okI]:
  "finv s \<Longrightarrow> (\<And>b. binv b \<Longrightarrow> oc (\<lambda>_. binv) binv (f b)) \<Longrightarrow> (\<And>x t. finv t \<Longrightarrow> Q x t) \<Longrightarrow> (\<And>t. finv t \<Longrightarrow> A t) \<Longrightarrow>
    oc Q A (on_fbio f s)"
  by (auto simp: on_fbio_def intro!: okI okR)

lemma on_fkern_oc [okI]:
  "finv s \<Longrightarrow> (\<And>k. kinv k \<Longrightarrow> oc (\<lambda>_. kinv) kinv (f k)) \<Longrightarrow> (\<And>x t. finv t \<Longrightarrow> Q x t) \<Longrightarrow> (\<And>t. finv t \<Longrightarrow> A t) \<Longrightarrow>
    oc Q A (on_fkern f s)"
  by (auto simp: on_fkern_def intro!: okI okR)

lemma on_fbio_bread_oc [okR]:
  "finv s \<Longrightarrow> (\<And>b t. finv t \<Longrightarrow> b < NBUF \<Longrightarrow> Q b t) \<Longrightarrow> (\<And>t. finv t \<Longrightarrow> A t) \<Longrightarrow>
    oc Q A (on_fbio (bread dev bno) s)"
  by (auto simp: on_fbio_def on_log_def finv_log intro!: okI okR)

lemma bzero_oc [THEN oc_conseq, okI]: "finv s \<Longrightarrow> oc (\<lambda>_. finv) finv (bzero dev b s)"
  by (auto simp: bzero_def intro!: okI okR)

lemma balloc_loop_oc [THEN oc_conseq, okI]: "finv s \<Longrightarrow> oc (\<lambda>_. finv) finv (balloc_loop dev bs s)"
  by (induction bs arbitrary: s) (auto simp: intro!: okI okR split: option.split)

lemma balloc_oc [THEN oc_conseq, okI]: "finv s \<Longrightarrow> oc (\<lambda>_. finv) finv (balloc dev s)"
  by (auto simp: balloc_def intro!: okI okR)

lemma bfree_oc [THEN oc_conseq, okI]: "finv s \<Longrightarrow> oc (\<lambda>_. finv) finv (bfree dev b s)"
  by (auto simp: bfree_def Let_def intro!: okI okR)

lemma iupdate_oc [THEN oc_conseq, okI]: "finv s \<Longrightarrow> oc (\<lambda>_. finv) finv (iupdate ip s)"
  by (auto simp: iupdate_def Let_def intro!: okI okR)

lemma iinit_oc [THEN oc_conseq, okI]: "finv s \<Longrightarrow> oc (\<lambda>_. finv) finv (iinit dev s)"
  by (auto simp: iinit_def intro!: okI okR binv_kern kinv_set_km mach_inv_cli kinv_km)

lemma iget_oc [THEN oc_conseq, okI]: "finv s \<Longrightarrow> oc (\<lambda>ip t. finv t \<and> ip < NINODE) finv (iget dev n s)"
  by (auto simp: iget_def finv_len intro!: okI okR finv_upd_inode
    simp: first_idx_Some split: option.split)

lemma ialloc_loop_oc [THEN oc_conseq, okI]: "finv s \<Longrightarrow> oc (\<lambda>ip t. finv t \<and> ip < NINODE) finv (ialloc_loop dev ty ns s)"
  by (induction ns arbitrary: s) (auto simp: Let_def intro!: okI okR)

lemma ialloc_oc [THEN oc_conseq, okI]: "finv s \<Longrightarrow> oc (\<lambda>ip t. finv t \<and> ip < NINODE) finv (ialloc dev ty s)"
  by (auto simp: ialloc_def intro!: okI okR)

lemma idup_oc [THEN oc_conseq, okI]: "finv s \<Longrightarrow> oc (\<lambda>r t. finv t \<and> r = ip) finv (idup ip s)"
  by (auto simp: idup_def intro!: okI okR finv_upd_inode)

lemma ilock_oc [THEN oc_conseq, okI]: "finv s \<Longrightarrow> oc (\<lambda>_. finv) finv (ilock p s)"
  by (auto simp: ilock_def Let_def get_dinode_def intro!: okI okR finv_upd_inode split: option.split)

lemma iunlock_oc [THEN oc_conseq, okI]: "finv s \<Longrightarrow> oc (\<lambda>_. finv) finv (iunlock p s)"
  by (auto simp: iunlock_def intro!: okI okR finv_upd_inode split: option.split)

lemma bmap_oc [THEN oc_conseq, okI]:
  "finv s \<Longrightarrow> oc (\<lambda>_ t. finv t \<and> bn < NDIRECT + NINDIRECT) finv (bmap ip bn s)"
  by (auto simp: bmap_def Let_def intro!: okI okR finv_upd_inode)

lemmas fforeachI = oc_foreach [where I = finv, THEN oc_conseq]

lemma trunc_direct_oc [THEN oc_conseq, okI]: "finv s \<Longrightarrow> oc (\<lambda>_. finv) finv (trunc_direct ip i s)"
  by (auto simp: trunc_direct_def Let_def intro!: okI okR finv_upd_inode)

lemma trunc_entry_oc [THEN oc_conseq, okI]: "finv s \<Longrightarrow> oc (\<lambda>_. finv) finv (trunc_entry ip bp j s)"
  by (auto simp: trunc_entry_def Let_def intro!: okI okR)

lemma itrunc_oc [THEN oc_conseq, okI]: "finv s \<Longrightarrow> oc (\<lambda>_. finv) finv (itrunc ip s)"
  by (auto simp: itrunc_def Let_def intro!: okI okR fforeachI finv_upd_inode)

lemma iput_oc [THEN oc_conseq, okI]: "finv s \<Longrightarrow> oc (\<lambda>_. finv) finv (iput ip s)"
  by (auto simp: iput_def Let_def intro!: okI okR finv_upd_inode)

lemma iunlockput_oc [THEN oc_conseq, okI]: "finv s \<Longrightarrow> oc (\<lambda>_. finv) finv (iunlockput ip s)"
  by (auto simp: iunlockput_def intro!: okI okR)

section \<open>The console as a device\<close>

text \<open>A read from the console takes at most what the input ring holds.\<close>

lemma consoleread_loop_oc:
  "kinv k \<Longrightarrow> oc (\<lambda>r k'. kinv k' \<and> (\<forall>bs. r = Some bs \<longrightarrow> length bs \<le> length got + unat (in_w (con k) - in_r (con k)))) kinv
    (consoleread_loop n got k)"
proof (induction n got k rule: consoleread_loop.induct)
  case (2 n got k)
  show ?case
  proof (cases "in_r (con k) = in_w (con k)")
    case True
    then show ?thesis using 2 by (auto simp: with_proc_def intro!: okI split: option.split)
  next
    case False
    let ?k = "k\<lparr>con := (con k)\<lparr>in_r := in_r (con k) + 1\<rparr>\<rparr>"
    note t = con_inv_take [OF kinv_con [OF "2.prems"] False]
    have k: "kinv ?k" using t(1) "2.prems" by simp
    have "oc (\<lambda>r k'. kinv k' \<and> (\<forall>bs. r = Some bs \<longrightarrow> length bs \<le> length got + unat (in_w (con k) - in_r (con k)))) kinv
      (consoleread_loop n (got @ [in_buf (con k) ! slot (in_buf (con k)) (in_r (con k))]) ?k)"
      if "in_buf (con k) ! slot (in_buf (con k)) (in_r (con k)) \<notin> {4, 10}"
      using 2(1) [OF False refl refl _ _ k] that t(2) by (auto elim!: oc_conseq)
    then show ?thesis using False k "2.prems" t(2) by (auto simp: Let_def)
  qed
qed simp

lemma ring_le: "kinv k \<Longrightarrow> unat (in_w (con k) - in_r (con k)) \<le> INPUT_BUF"
  using kinv_con [of k] by (simp add: con_inv_def)

lemma on_fkern_consoleread_oc [okR]:
  "finv s \<Longrightarrow> (\<And>r t. finv t \<Longrightarrow> (\<And>bs. r = Some bs \<Longrightarrow> length bs \<le> INPUT_BUF) \<Longrightarrow> Q r t) \<Longrightarrow> (\<And>t. finv t \<Longrightarrow> A t) \<Longrightarrow>
    oc Q A (on_fkern (consoleread_loop n []) s)"
proof -
  assume s: "finv s" and Q: "\<And>r t. finv t \<Longrightarrow> (\<And>bs. r = Some bs \<Longrightarrow> length bs \<le> INPUT_BUF) \<Longrightarrow> Q r t"
    and A: "\<And>t. finv t \<Longrightarrow> A t"
  have put: "finv (s\<lparr>fl := (fl s)\<lparr>lb := (lb (fl s))\<lparr>bk := k\<rparr>\<rparr>\<rparr>)" if "kinv k" for k
    using s that by (intro finv_log) (simp_all add: finv_log binv_kern)
  have k: "kinv (fkern s)" using s by (simp add: finv_log binv_kern)
  show "oc Q A (on_fkern (consoleread_loop n []) s)"
    unfolding on_fkern_def on_log_def on_lkern_def on_bio_def on_kern_def oc_zoom
    using ring_le [OF k] by (intro oc_conseq [OF consoleread_loop_oc [OF k]] A Q put) (auto dest: put intro: le_trans)
qed

lemma consoleread_oc [THEN oc_conseq, okI]:
  "finv s \<Longrightarrow> oc (\<lambda>r t. finv t \<and> (\<forall>bs. r = Some bs \<longrightarrow> length bs \<le> INPUT_BUF)) finv (consoleread ip n s)"
  by (auto simp: consoleread_def intro!: okI okR)

lemma on_con_consputs_oc [okI]:
  "kinv k \<Longrightarrow> (\<And>x k. kinv k \<Longrightarrow> Q x k) \<Longrightarrow> (\<And>k. kinv k \<Longrightarrow> A k) \<Longrightarrow> oc Q A (on_con (consputs cs) k)"
  by (auto simp: on_con_def intro!: okI)

lemma consolewrite_oc [THEN oc_conseq, okI]: "finv s \<Longrightarrow> oc (\<lambda>_. finv) finv (consolewrite ip buf s)"
  by (auto simp: consolewrite_def intro!: okI okR)

section \<open>Contents\<close>

lemma readi_loop_oc:
  "finv s \<Longrightarrow> n < fuel \<Longrightarrow>
    oc (\<lambda>bs t. finv t \<and> (0 < n \<longrightarrow> off < MAXFILE * BSIZE)) finv (readi_loop fuel ip off n got s)"
proof (induction fuel arbitrary: off n got s)
  case (Suc fuel)
  have "oc (\<lambda>bs t. finv t \<and> (0 < n \<longrightarrow> off < MAXFILE * BSIZE)) finv (readi_loop fuel ip (off + m) (n - m) bs t)"
    if "0 < m" "0 < n" "finv t" "off div BSIZE < NDIRECT + NINDIRECT" for m bs t
  proof -
    have "off < MAXFILE * BSIZE"
      using that(4) by (simp add: MAXFILE_def BSIZE_def div_less_iff_less_mult)
    then show ?thesis
      using Suc.prems(2) that by (auto intro!: Suc.IH [THEN oc_conseq])
  qed
  moreover have "0 < BSIZE - off mod BSIZE" by (simp add: BSIZE_def)
  ultimately show ?case using Suc.prems by (auto simp: Let_def intro!: okI okR)
qed simp

lemma readi_oc [THEN oc_conseq, okI]:
  "finv s \<Longrightarrow> oc (\<lambda>r t. finv t \<and> (\<forall>bs. r = Some bs \<longrightarrow> INPUT_BUF < length bs \<longrightarrow> unat off < MAXFILE * BSIZE)) finv (readi ip off n s)"
proof -
  assume s: "finv s"
  have loop: "oc (\<lambda>r t. finv t \<and> (\<forall>bs. r = Some bs \<longrightarrow> INPUT_BUF < length bs \<longrightarrow> unat off < MAXFILE * BSIZE)) finv
      (bindR (readi_loop (Suc (unat m)) ip (unat off) (unat m) [] s) (\<lambda>bs. Ret (Some bs)))" for m :: u32
  proof (cases "m = 0")
    case True
    then show ?thesis using s by simp
  next
    case False
    then have "0 < unat m" by (simp add: unat_gt_0)
    then show ?thesis
      using readi_loop_oc [OF s lessI [of "unat m"], of "unat off" ip "[]"]
      by (auto simp del: readi_loop.simps elim!: oc_conseq)
  qed
  then show ?thesis
    using s by (auto simp: readi_def Let_def simp del: oc_bindR intro!: okI okR)
qed

lemma writei_loop_oc:
  "finv s \<Longrightarrow> length src < fuel \<Longrightarrow> oc (\<lambda>_. finv) finv (writei_loop fuel ip off src s)"
proof (induction fuel arbitrary: off src s)
  case (Suc fuel)
  have "oc (\<lambda>_. finv) finv (writei_loop fuel ip (off + m) (drop m src) t)" if "0 < m" "src \<noteq> []" "finv t" for m t
  proof -
    have "length src - m < fuel" using Suc.prems(2) that(1,2) by (cases src) auto
    then show ?thesis using that(3) by (intro Suc.IH) simp_all
  qed
  moreover have "0 < BSIZE - off mod BSIZE" by (simp add: BSIZE_def)
  ultimately show ?case using Suc.prems by (auto simp: Let_def intro!: okI okR)
qed simp

lemma writei_oc [THEN oc_conseq, okI]: "finv s \<Longrightarrow> oc (\<lambda>_. finv) finv (writei ip src off s)"
  by (auto simp: writei_def Let_def simp del: writei_loop.simps
    intro!: okI okR writei_loop_oc [THEN oc_conseq] finv_upd_inode)

section \<open>Directories and paths\<close>

lemma dirlookup_loop_oc [THEN oc_conseq, okI]:
  "finv s \<Longrightarrow> oc (\<lambda>r t. finv t \<and> (\<forall>ip off. r = Some (ip, off) \<longrightarrow> ip < NINODE)) finv (dirlookup_loop dp name offs s)"
  by (induction offs arbitrary: s) (auto intro!: okI okR split: option.split)

lemma dirlookup_oc [THEN oc_conseq, okI]:
  "finv s \<Longrightarrow> oc (\<lambda>r t. finv t \<and> (\<forall>ip off. r = Some (ip, off) \<longrightarrow> ip < NINODE)) finv (dirlookup dp name s)"
  by (auto simp: dirlookup_def intro!: okI)

lemma dirlink_loop_oc [THEN oc_conseq, okI]: "finv s \<Longrightarrow> oc (\<lambda>_. finv) finv (dirlink_loop dp offs s)"
  by (induction offs arbitrary: s) (auto intro!: okI okR split: option.split)

lemma dirlink_oc [THEN oc_conseq, okI]: "finv s \<Longrightarrow> oc (\<lambda>_. finv) finv (dirlink dp name n s)"
  by (auto simp: dirlink_def Let_def intro!: okI okR split: option.split)

lemma skipelem_shorter: "skipelem path = Some (rest, name) \<Longrightarrow> length rest < length path"
proof -
  let ?p = "dropWhile (\<lambda>c. c = slash) path"
  let ?q = "dropWhile (\<lambda>c. c \<noteq> slash) ?p"
  assume e: "skipelem path = Some (rest, name)"
  then have ne: "?p \<noteq> []" and r: "rest = dropWhile (\<lambda>c. c = slash) ?q"
    by (auto simp: skipelem_def Let_def split: if_splits)
  have "hd ?p \<noteq> slash" using ne by (rule hd_dropWhile)
  then have "length ?q < length ?p" using ne length_dropWhile_le [of "\<lambda>c. c \<noteq> slash" "tl ?p"] by (cases ?p) auto
  moreover have "length rest \<le> length ?q" unfolding r by (rule length_dropWhile_le)
  ultimately show ?thesis using length_dropWhile_le [of "\<lambda>c. c = slash" path] by linarith
qed

lemma namex_loop_oc:
  "finv s \<Longrightarrow> ip < NINODE \<Longrightarrow> length path < fuel \<Longrightarrow>
    oc (\<lambda>r t. finv t \<and> (\<forall>i. fst r = Some i \<longrightarrow> i < NINODE)) finv (namex_loop fuel ip path par name s)"
proof (induction fuel arbitrary: ip path name s)
  case (Suc fuel)
  have "oc (\<lambda>r t. finv t \<and> (\<forall>i. fst r = Some i \<longrightarrow> i < NINODE)) finv (namex_loop fuel nxt rest par name' t)"
    if "skipelem path = Some (rest, name')" "finv t" "nxt < NINODE" for nxt rest name' t
    using skipelem_shorter [OF that(1)] Suc.prems(3) that by (intro Suc.IH) simp_all
  then show ?case using Suc.prems by (auto intro!: okI okR split: option.split)
qed simp

lemma namex_oc [THEN oc_conseq, okI]:
  "finv s \<Longrightarrow> oc (\<lambda>r t. finv t \<and> (\<forall>i. fst r = Some i \<longrightarrow> i < NINODE)) finv (namex path par s)"
proof -
  assume s: "finv s"
  have cwd: "ip < NINODE" if "curproc (fkern s) = Some p" "cwd (ptable (fkern s) ! p) = Some ip" for p ip
  proof -
    have k: "kinv (fkern s)" using s by (simp add: finv_log binv_kern)
    show ?thesis using kinv_proc [OF k kinv_curproc [OF k that(1)]] that(2) by (simp add: proc_inv_def)
  qed
  show ?thesis
    using s by (auto simp: namex_def simp del: namex_loop.simps
      intro!: okI okR namex_loop_oc [THEN oc_conseq] intro: cwd split: option.split)
qed

lemma namei_oc [THEN oc_conseq, okI]:
  "finv s \<Longrightarrow> oc (\<lambda>r t. finv t \<and> (\<forall>i. r = Some i \<longrightarrow> i < NINODE)) finv (namei path s)"
  by (auto simp: namei_def intro!: okI)

lemma nameiparent_oc [THEN oc_conseq, okI]:
  "finv s \<Longrightarrow> oc (\<lambda>r t. finv t \<and> (\<forall>i. fst r = Some i \<longrightarrow> i < NINODE)) finv (nameiparent path s)"
  by (auto simp: nameiparent_def intro!: okI)

end
