(* ===== verification/Sinv.thy ===== *)
theory Sinv
  imports Trap Finv
begin

text \<open>
  The invariant of the whole kernel, kept by every system call, trap and scheduling step: the
  process table has unique process identifiers and its entries refer to existing files,
  directories and parents, the memory of a process stays below \<open>KERNBASE\<close>, the rings of pipes
  and console are consistent, and the tables have their sizes. The same proof shows that no
  loop of the kernel runs forever.
\<close>

section \<open>The invariant\<close>

definition sinv :: "sys \<Rightarrow> bool" where
  "sinv s \<longleftrightarrow> finv (sfs s) \<and> length (ftable s) = NFILE \<and> (\<forall>f \<in> set (ftable s). fip f < NINODE)"

lemma sinv_fs: "sinv s \<Longrightarrow> finv (sfs s)" "sinv s \<Longrightarrow> finv f \<Longrightarrow> sinv (s\<lparr>sfs := f\<rparr>)"
  by (simp_all add: sinv_def)

lemma sinv_kern: "sinv s \<Longrightarrow> kinv (skern s)"
  by (simp add: sinv_def finv_log binv_kern)

lemma sinv_simps [simp]:
  "sinv (s\<lparr>first := b\<rparr>) = sinv s" "sinv (s\<lparr>kbdst := d\<rparr>) = sinv s" "sinv (s\<lparr>uart_rx := rx\<rparr>) = sinv s"
  by (simp_all add: sinv_def)

lemma sinv_upd_file:
  "sinv s \<Longrightarrow> (\<And>x. fip x < NINODE \<Longrightarrow> fip (g x) < NINODE) \<Longrightarrow> sinv (upd_file f g s)"
  by (cases "f < NFILE")
    (auto simp: sinv_def upd_file_def list_update_beyond dest!: set_update_subset_insert [THEN subsetD])

lemma on_fs_oc [okI]:
  "sinv s \<Longrightarrow> (\<And>f. finv f \<Longrightarrow> oc (\<lambda>_. finv) finv (h f)) \<Longrightarrow> (\<And>x t. sinv t \<Longrightarrow> Q x t) \<Longrightarrow> (\<And>t. sinv t \<Longrightarrow> A t) \<Longrightarrow>
    oc Q A (on_fs h s)"
  unfolding on_fs_def by (rule oc_lift [where I = finv]) (auto simp: sinv_fs)

lemma on_slog_oc [okI]:
  "sinv s \<Longrightarrow> (\<And>l. linv l \<Longrightarrow> oc (\<lambda>_. linv) linv (h l)) \<Longrightarrow> (\<And>x t. sinv t \<Longrightarrow> Q x t) \<Longrightarrow> (\<And>t. sinv t \<Longrightarrow> A t) \<Longrightarrow>
    oc Q A (on_slog h s)"
  by (auto simp: on_slog_def intro!: okI)

lemma on_skern_oc [okI]:
  "sinv s \<Longrightarrow> (\<And>k. kinv k \<Longrightarrow> oc (\<lambda>_. kinv) kinv (h k)) \<Longrightarrow> (\<And>x t. sinv t \<Longrightarrow> Q x t) \<Longrightarrow> (\<And>t. sinv t \<Longrightarrow> A t) \<Longrightarrow>
    oc Q A (on_skern h s)"
  by (auto simp: on_skern_def intro!: okI)

text \<open>A kernel routine that says something about its result.\<close>

lemma on_skern_result:
  assumes s: "sinv s" and h: "\<And>k. kinv k \<Longrightarrow> oc (\<lambda>x k. kinv k \<and> R x) kinv (h k)"
    and Q: "\<And>x t. sinv t \<Longrightarrow> R x \<Longrightarrow> Q x t" and A: "\<And>t. sinv t \<Longrightarrow> A t"
  shows "oc Q A (on_skern h s)"
proof -
  have put: "sinv (s\<lparr>sfs := (sfs s)\<lparr>fl := (fl (sfs s))\<lparr>lb := (lb (fl (sfs s)))\<lparr>bk := k\<rparr>\<rparr>\<rparr>\<rparr>)" if "kinv k" for k
    using s that by (intro sinv_fs finv_log) (simp_all add: sinv_fs finv_log binv_kern)
  show ?thesis
    unfolding on_skern_def on_fs_def on_fkern_def on_log_def on_lkern_def on_bio_def on_kern_def oc_zoom
    by (rule oc_conseq [OF h [OF sinv_kern [OF s]]]) (auto intro: Q A put)
qed

lemma on_fs_result:
  assumes "sinv s" "\<And>f. finv f \<Longrightarrow> oc (\<lambda>x f. finv f \<and> R x) finv (h f)"
    "\<And>x t. sinv t \<Longrightarrow> R x \<Longrightarrow> Q x t" "\<And>t. sinv t \<Longrightarrow> A t"
  shows "oc Q A (on_fs h s)"
  unfolding on_fs_def oc_zoom by (rule oc_conseq [OF assms(2)]) (auto simp: sinv_fs assms)

lemma on_fkern_result:
  assumes s: "finv s" and h: "\<And>k. kinv k \<Longrightarrow> oc (\<lambda>x k. kinv k \<and> R x) kinv (h k)"
    and Q: "\<And>x t. finv t \<Longrightarrow> R x \<Longrightarrow> Q x t" and A: "\<And>t. finv t \<Longrightarrow> A t"
  shows "oc Q A (on_fkern h s)"
proof -
  have put: "finv (s\<lparr>fl := (fl s)\<lparr>lb := (lb (fl s))\<lparr>bk := k\<rparr>\<rparr>\<rparr>)" if "kinv k" for k
    using s that by (intro finv_log) (simp_all add: finv_log binv_kern)
  have "kinv (fkern s)" using s by (simp add: finv_log binv_kern)
  then show ?thesis
    unfolding on_fkern_def on_log_def on_lkern_def on_bio_def on_kern_def oc_zoom
    by (intro oc_conseq [OF h]) (auto intro: Q A put)
qed

lemma with_sproc_oc [okI]:
  "sinv s \<Longrightarrow> (\<And>c. c < NPROC \<Longrightarrow> proc_inv (nextpid (skern s)) (ptable (skern s) ! c) \<Longrightarrow> oc Q A (f c s)) \<Longrightarrow>
    oc Q A (with_sproc f s)"
  using sinv_kern [of s] by (auto simp: with_sproc_def intro: kinv_curproc kinv_proc split: option.split)

section \<open>Open files\<close>

lemma filealloc_oc [THEN oc_conseq, okI]:
  "sinv s \<Longrightarrow> oc (\<lambda>r t. sinv t \<and> (\<forall>f. r = Some f \<longrightarrow> f < NFILE)) sinv (filealloc s)"
proof -
  assume s: "sinv s"
  have "f < NFILE" if "first_idx P (ftable t) = Some f" "sinv t" for P f t
    using that by (simp add: first_idx_Some sinv_def)
  then show ?thesis
    using s by (auto simp: filealloc_def intro!: okI sinv_upd_file split: option.split)
qed

lemma filedup_oc [THEN oc_conseq, okI]: "sinv s \<Longrightarrow> oc (\<lambda>r t. sinv t \<and> r = f) sinv (filedup f s)"
  by (auto simp: filedup_def intro!: okI sinv_upd_file)

lemma fileclose_oc [THEN oc_conseq, okI]: "sinv s \<Longrightarrow> oc (\<lambda>_. sinv) sinv (fileclose f s)"
  by (auto simp: fileclose_def Let_def intro!: okI sinv_upd_file split: fdtype.split)

lemma filestat_oc [THEN oc_conseq, okI]: "sinv s \<Longrightarrow> oc (\<lambda>_. sinv) sinv (filestat f s)"
  by (auto simp: filestat_def Let_def intro!: okI)

lemma fileread_oc [THEN oc_conseq, okI]: "sinv s \<Longrightarrow> oc (\<lambda>_. sinv) sinv (fileread f a n s)"
  by (auto simp: fileread_def Let_def intro!: okI sinv_upd_file split: fdtype.split option.split)

lemma filewrite_chunk_oc [THEN oc_conseq, okI]: "sinv s \<Longrightarrow> oc (\<lambda>_. sinv) sinv (filewrite_chunk f a n s)"
  by (auto simp: filewrite_chunk_def Let_def intro!: okI sinv_upd_file)

lemma filewrite_loop_oc: "sinv s \<Longrightarrow> n - i < fuel \<Longrightarrow> oc (\<lambda>_. sinv) sinv (filewrite_loop fuel f a i n s)"
proof (induction fuel arbitrary: i s)
  case (Suc fuel)
  have max: "0 < maxwrite" by (simp add: maxwrite_def LOGSIZE_def MAXOPBLOCKS_def)
  have "oc (\<lambda>_. sinv) sinv (filewrite_loop fuel f a (i + m) n t)" if "0 < m" "i < n" "sinv t" for m t
    using Suc.prems(2) that by (intro Suc.IH) simp_all
  then show ?case using Suc.prems max by (auto simp: Let_def intro!: okI)
qed simp

lemma filewrite_oc [THEN oc_conseq, okI]: "sinv s \<Longrightarrow> oc (\<lambda>_. sinv) sinv (filewrite f a n s)"
  by (auto simp: filewrite_def Let_def simp del: filewrite_loop.simps
    intro!: okI filewrite_loop_oc [THEN oc_conseq] split: fdtype.split)

lemma kinv_new_pipe: "kinv k \<Longrightarrow> kinv (k\<lparr>pipes := (pipes k)(p \<mapsto> zero_pipe (load_list a PIPESIZE m)), km := initlock l n (km k)\<rparr>)"
  by (auto simp: kinv_def zero_pipe_def pipe_inv_def intro: mach_inv_cli)

lemma pipealloc_oc [THEN oc_conseq, okI]:
  "sinv s \<Longrightarrow> oc (\<lambda>r t. sinv t \<and> (\<forall>f g. r = Some (f, g) \<longrightarrow> f < NFILE \<and> g < NFILE)) sinv (pipealloc s)"
  by (auto simp: pipealloc_def Let_def intro!: okI sinv_upd_file kinv_new_pipe split: option.split)

section \<open>Processes\<close>

lemma kinv_new_pid:
  assumes k: "kinv k" and p: "p < NPROC"
  shows "kinv (upd_proc p (\<lambda>q. q\<lparr>pstate := EMBRYO, pid := nextpid k\<rparr>) (k\<lparr>nextpid := nextpid k + 1\<rparr>))"
proof -
  let ?n = "nextpid k" and ?ps = "ptable k"
  let ?q = "(?ps ! p)\<lparr>pstate := EMBRYO, pid := ?n\<rparr>"
  have ps: "length ?ps = NPROC" "0 < ?n" "\<And>i. i < NPROC \<Longrightarrow> proc_inv ?n (?ps ! i)" "pids_unique ?ps"
    using k by (auto simp: kinv_def ptable_inv_def)
  have lt: "pid (?ps ! i) < ?n" if "i < NPROC" for i using ps(3) [OF that] by (simp add: proc_inv_def)
  have "proc_inv (?n + 1) q" if "q \<in> set (?ps[p := ?q])" for q
  proof -
    from that ps(1) obtain i where i: "i < NPROC" "q = ?ps[p := ?q] ! i" by (auto simp: in_set_conv_nth)
    then show ?thesis using ps(1,2) ps(3) [OF i(1)] p by (auto simp: nth_list_update proc_inv_def)
  qed
  moreover have "pids_unique (?ps[p := ?q])"
    using ps(1,4) p unfolding pids_unique_def by (auto simp: nth_list_update dest: lt)
  ultimately show ?thesis
    using k ps(1,2) by (simp add: kinv_def ptable_inv_def upd_proc_def)
qed

lemma allocproc_oc [THEN oc_conseq, okI]:
  "kinv k \<Longrightarrow> oc (\<lambda>r k. kinv k \<and> (\<forall>p. r = Some p \<longrightarrow> p < NPROC)) kinv (allocproc k)"
proof -
  assume k: "kinv k"
  have "p < NPROC" if "first_idx P (ptable t) = Some p" "kinv t" for P p t
    using that kinv_len [OF that(2)] by (simp add: first_idx_Some)
  then show ?thesis
    using k by (auto simp: allocproc_def Let_def intro!: okI kinv_new_pid split: option.split)
qed

lemma on_skern_allocproc [okR]:
  "sinv s \<Longrightarrow> (\<And>r t. sinv t \<Longrightarrow> (\<And>p. r = Some p \<Longrightarrow> p < NPROC) \<Longrightarrow> Q r t) \<Longrightarrow> (\<And>t. sinv t \<Longrightarrow> A t) \<Longrightarrow>
    oc Q A (on_skern allocproc s)"
  by (rule on_skern_result [where R = "\<lambda>r. \<forall>p. r = Some p \<longrightarrow> p < NPROC"]) (auto intro!: okI)

lemma length_safestrcpy: "length (safestrcpy s 16) \<le> 16"
proof -
  have "length (safestrcpy_from i s n) \<le> Suc n" for i n
    by (induction n arbitrary: i) auto
  from this [of 0 15] show ?thesis by (simp add: safestrcpy_def)
qed

lemma set_pname_inv: "proc_inv n p \<Longrightarrow> proc_inv n (set_pname s p)" "pid (set_pname s p) = pid p"
  using length_safestrcpy [of s] by (auto simp: set_pname_def proc_inv_def splice_at_def)

lemma userinit_oc [THEN oc_conseq, okI]: "sinv s \<Longrightarrow> oc (\<lambda>_. sinv) sinv (userinit s)"
proof -
  assume s: "sinv s"
  have "kinv (k\<lparr>initproc := r\<rparr>)" if "kinv k" "\<And>p. r = Some p \<Longrightarrow> p < NPROC" for k r
    using that by (simp add: kinv_def)
  moreover have "kinv (upd_proc p (\<lambda>q. set_pname nm (q\<lparr>sz := PGSIZE, tf := f\<rparr>)) k)" if "kinv k" for k p nm f
    using that by (intro kinv_upd_proc set_pname_inv) (auto simp: set_pname_inv proc_inv_def)
  moreover have "kinv (upd_proc p (\<lambda>q. q\<lparr>cwd := ip, pstate := RUNNABLE\<rparr>) k)"
    if "kinv k" "\<forall>i. ip = Some i \<longrightarrow> i < NINODE" for k p ip
    using that by (intro kinv_upd_proc) (auto simp: proc_inv_def)
  ultimately show ?thesis
    using s by (auto simp: userinit_def intro!: okI okR on_fs_result [where R = "\<lambda>r. \<forall>i. r = Some i \<longrightarrow> i < NINODE"]
      split: option.split)
qed

lemma growproc_oc [THEN oc_conseq, okI]: "kinv k \<Longrightarrow> oc (\<lambda>_. kinv) kinv (growproc n k)"
proof -
  assume k: "kinv k"
  have "sz (ptable k ! c) < KERNBASE" if "curproc k = Some c" for c
    using kinv_proc [OF k kinv_curproc [OF k that]] by (simp add: proc_inv_def)
  moreover have "kinv (upd_proc c (\<lambda>p. p\<lparr>sz := x\<rparr>) t)" if "kinv t" "x < KERNBASE" for c x t
    using that by (intro kinv_upd_proc) (auto simp: proc_inv_def)
  ultimately show ?thesis
    using k by (auto simp: growproc_def with_proc_def Let_def intro!: okI split: option.split)
qed

lemma dup_file_oc [THEN oc_conseq, okI]:
  "sinv s \<Longrightarrow> c < NPROC \<Longrightarrow> i < NOFILE \<Longrightarrow> oc (\<lambda>_. sinv) sinv (dup_file c np i s)"
proof -
  assume s: "sinv s" and c: "c < NPROC" "i < NOFILE"
  have "f < NFILE" if "ofile (ptable (skern s) ! c) ! i = Some f" for f
    using kinv_proc [OF sinv_kern [OF s] c(1)] nth_mem [of i "ofile (ptable (skern s) ! c)"] c(2) that
    by (auto simp: proc_inv_def)
  moreover have "kinv (upd_proc np (\<lambda>p. p\<lparr>ofile := (ofile p)[i := Some f]\<rparr>) k)" if "kinv k" "f < NFILE" for f k
    using that by (intro kinv_upd_proc) (auto simp: proc_inv_def dest!: set_update_subset_insert [THEN subsetD])
  ultimately show ?thesis
    using s by (auto simp: dup_file_def intro!: okI okR split: option.split)
qed

lemma dup_cwd_oc [THEN oc_conseq, okI]: "sinv s \<Longrightarrow> c < NPROC \<Longrightarrow> oc (\<lambda>_. sinv) sinv (dup_cwd c np s)"
proof -
  assume s: "sinv s" and c: "c < NPROC"
  have "ip < NINODE" if "cwd (ptable (skern s) ! c) = Some ip" for ip
    using kinv_proc [OF sinv_kern [OF s] c] that by (auto simp: proc_inv_def)
  moreover have "kinv (upd_proc np (\<lambda>p. p\<lparr>cwd := Some ip\<rparr>) k)" if "kinv k" "ip < NINODE" for ip k
    using that by (intro kinv_upd_proc) (auto simp: proc_inv_def)
  ultimately show ?thesis
    using s by (auto simp: dup_cwd_def intro!: okI on_fs_result [where R = "\<lambda>r. r < NINODE"] split: option.split)
qed

lemmas sforeachI = oc_foreach [where I = sinv, THEN oc_conseq]

lemma inherit_oc [THEN oc_conseq, okI]: "sinv s \<Longrightarrow> c < NPROC \<Longrightarrow> oc (\<lambda>_. sinv) sinv (inherit c np s)"
  by (auto simp: inherit_def set_pname_inv intro!: okI sforeachI kinv_upd_proc)

lemma start_proc_oc [THEN oc_conseq, okI]: "kinv k \<Longrightarrow> oc (\<lambda>_. kinv) kinv (start_proc np k)"
  by (auto simp: start_proc_def Let_def intro!: okI)

lemma fork_oc [THEN oc_conseq, okI]: "sinv s \<Longrightarrow> oc (\<lambda>_. sinv) sinv (fork s)"
  by (auto simp: fork_def Let_def proc_inv_def intro!: okI okR kinv_upd_proc order.strict_implies_order split: option.split)

lemma clone_oc [THEN oc_conseq, okI]: "sinv s \<Longrightarrow> oc (\<lambda>_. sinv) sinv (clone fn ar stk s)"
  by (auto simp: clone_def Let_def proc_inv_def intro!: okI okR kinv_upd_proc split: option.split)

lemma close_file_oc [THEN oc_conseq, okI]: "sinv s \<Longrightarrow> oc (\<lambda>_. sinv) sinv (close_file c fd s)"
proof -
  assume s: "sinv s"
  have "kinv (upd_proc c (\<lambda>p. p\<lparr>ofile := (ofile p)[fd := None]\<rparr>) k)" if "kinv k" for k
    using that by (intro kinv_upd_proc) (auto simp: proc_inv_def dest!: set_update_subset_insert [THEN subsetD])
  then show ?thesis
    using s by (auto simp: close_file_def intro!: okI split: option.split)
qed

lemma kinv_reparent: "kinv k \<Longrightarrow> kinv (reparent c is k)"
proof (induction c "is" k rule: reparent.induct)
  case (2 c i "is" k)
  have "\<forall>p. initproc k = Some p \<longrightarrow> p < NPROC" using "2.prems" by (simp add: kinv_def)
  then have "kinv (upd_proc i (\<lambda>p. p\<lparr>parent := initproc k\<rparr>) k)"
    using "2.prems" by (intro kinv_upd_proc) (auto simp: proc_inv_def)
  then show ?case using 2 by (simp add: Let_def)
qed simp

lemma exit_sched_oc [THEN oc_conseq, okI]: "kinv k \<Longrightarrow> oc (\<lambda>_. kinv) kinv (exit_sched c k)"
  by (auto simp: exit_sched_def Let_def kinv_reparent intro!: okI)

lemma exit_oc [THEN oc_conseq, okI]: "sinv s \<Longrightarrow> oc (\<lambda>_. sinv) sinv (exit s)"
  by (auto simp: exit_def proc_inv_def intro!: okI sforeachI kinv_upd_proc split: option.split)

lemma kinv_free_slot: "kinv k \<Longrightarrow> kinv (upd_proc i free_slot k)" "kinv k \<Longrightarrow> kinv (upd_proc i (\<lambda>p. free_slot (p\<lparr>kstack := a\<rparr>)) k)"
proof -
  assume k: "kinv k"
  then have "0 < nextpid k" by (simp add: kinv_def ptable_inv_def)
  then show "kinv (upd_proc i free_slot k)" "kinv (upd_proc i (\<lambda>p. free_slot (p\<lparr>kstack := a\<rparr>)) k)"
    using k by (intro kinv_upd_proc; simp add: free_slot_def clear_pname_def proc_inv_def)+
qed

lemma wait_oc [THEN oc_conseq, okI]: "kinv k \<Longrightarrow> oc (\<lambda>_. kinv) kinv (wait k)"
  by (auto simp: wait_def with_proc_def wait_scan_def Let_def intro!: okI kinv_free_slot split: option.split)

lemma join_oc [THEN oc_conseq, okI]: "kinv k \<Longrightarrow> oc (\<lambda>_. kinv) kinv (join a k)"
  by (auto simp: join_def with_proc_def join_scan_def Let_def intro!: okI kinv_free_slot split: option.split)

lemma forkret_oc [THEN oc_conseq, okI]: "sinv s \<Longrightarrow> oc (\<lambda>_. sinv) sinv (forkret s)"
  by (auto simp: forkret_def intro!: okI)

section \<open>Program loading\<close>

text \<open>
  \<open>loaduvm\<close> ends although its counter may wrap: a file has at most \<open>MAXFILE\<close> blocks, so a page
  can be read in full only from an offset below that, and no device gives a whole page.
\<close>

lemma loaduvm_loop_oc:
  "finv s \<Longrightarrow> unat i = 4096 * j \<Longrightarrow> j \<le> 19 \<Longrightarrow> (0 < j \<longrightarrow> unat offset < MAXFILE * BSIZE \<or> len \<le> i) \<Longrightarrow> (j < 19 \<or> len \<le> i) \<Longrightarrow> 20 \<le> n + j \<Longrightarrow>
    oc (\<lambda>_. finv) finv (loaduvm_loop n dir a ip offset i len s)"
proof (induction n arbitrary: i j s)
  case 0
  then show ?case by auto
next
  case (Suc n)
  show ?case
  proof (cases "i < len")
    case False
    then show ?thesis using Suc.prems(1) by simp
  next
    case True
    then have j: "j < 19" using Suc.prems(5) by auto
    have i': "unat (i + PGSIZE) = 4096 * Suc j"
      using Suc.prems(2) j by (simp add: unat_word_ariths)
    have last: "len \<le> i + PGSIZE" if "len - i < PGSIZE"
    proof -
      have "unat (len - i) = unat len - unat i" using True by (simp add: unat_sub)
      then show ?thesis using that i' Suc.prems(2) by (simp add: word_less_nat_alt word_le_nat_alt)
    qed
    have off: "unat offset < MAXFILE * BSIZE" if "unat (offset + i) < MAXFILE * BSIZE"
      using that Suc.prems(2,4) True by (cases "j = 0") (auto simp: unat_eq_0)
    have fin: "Suc j < 19" if "unat (offset + i) < MAXFILE * BSIZE"
    proof -
      have "unat (offset + i) = unat offset + unat i"
        using off [OF that] Suc.prems(2) j by (simp add: unat_word_ariths MAXFILE_def NDIRECT_def NINDIRECT_def BSIZE_def)
      then show ?thesis using that Suc.prems(2) by (simp add: MAXFILE_def NDIRECT_def NINDIRECT_def BSIZE_def)
    qed
    have next': "oc (\<lambda>_. finv) finv (loaduvm_loop n dir a ip offset (i + PGSIZE) len t)"
      if t: "finv t" and m: "INPUT_BUF < unat (if len - i < PGSIZE then len - i else PGSIZE) \<longrightarrow> unat (offset + i) < MAXFILE * BSIZE" for t
    proof (rule Suc.IH [OF t i'])
      have "len \<le> i + PGSIZE \<or> unat (offset + i) < MAXFILE * BSIZE"
        using m last by (cases "len - i < PGSIZE") auto
      then show "0 < Suc j \<longrightarrow> unat offset < MAXFILE * BSIZE \<or> len \<le> i + PGSIZE" "Suc j < 19 \<or> len \<le> i + PGSIZE"
        using off fin by auto
      show "20 \<le> n + Suc j" "Suc j \<le> 19" using Suc.prems(6) j by simp_all
    qed
    show ?thesis
      using True Suc.prems(1) by (auto simp: Let_def intro!: okI next' split: option.split simp del: unat_eq_0)
  qed
qed

lemma loaduvm_oc [THEN oc_conseq, okI]: "finv s \<Longrightarrow> oc (\<lambda>_. finv) finv (loaduvm dir a ip offset len s)"
  using loaduvm_loop_oc [of s 0 0 offset len "Suc (2 ^ 20)" dir a ip]
  by (simp add: loaduvm_def del: loaduvm_loop.simps)

lemma on_fkern_allocuvm [okR]:
  "finv s \<Longrightarrow> old < KERNBASE \<Longrightarrow> (\<And>r t. finv t \<Longrightarrow> r < KERNBASE \<Longrightarrow> Q r t) \<Longrightarrow> (\<And>t. finv t \<Longrightarrow> A t) \<Longrightarrow>
    oc Q A (on_fkern (allocuvm d old new) s)"
  by (rule on_fkern_result [where R = "\<lambda>r. r < KERNBASE"]) (auto intro!: okI)

lemma exec_load_oc [THEN oc_conseq, okI]:
  "finv s \<Longrightarrow> usz < KERNBASE \<Longrightarrow>
    oc (\<lambda>r t. finv t \<and> (\<forall>x. r = Some x \<longrightarrow> x < KERNBASE)) finv (exec_load n ip dir off usz s)"
  by (induction n ip dir off usz s rule: exec_load.induct) (auto simp: Let_def intro!: okI okR split: option.split)

lemma exec_stack_oc [THEN oc_conseq, okI]:
  "kinv k \<Longrightarrow> usz < KERNBASE \<Longrightarrow> oc (\<lambda>r k. kinv k \<and> r < KERNBASE) kinv (exec_stack dir usz k)"
proof -
  assume k: "kinv k" and u: "usz < KERNBASE"
  have "unat usz < 2147483648" using u by (simp add: word_less_nat_alt)
  then have up: "unat (PGROUNDUP usz) = (unat usz + 4095) div 4096 * 4096" "(unat usz + 4095) div 4096 * 4096 \<le> 2147483648"
    by (auto intro!: unat_PGROUNDUP)
  then have le: "PGROUNDUP usz \<le> KERNBASE" by (simp add: word_le_nat_alt)
  have "unat (PGROUNDUP usz + 2 * PGSIZE) = unat (PGROUNDUP usz) + 8192"
    using up by (simp add: unat_word_ariths)
  then have "\<not> PGROUNDUP usz + 2 * PGSIZE < PGROUNDUP usz" by (simp add: word_less_nat_alt)
  then show ?thesis
    using k le by (auto simp: exec_stack_def Let_def intro!: okI)
qed

lemma exec_args_oc [THEN oc_conseq, okI]: "kinv k \<Longrightarrow> oc (\<lambda>_. kinv) kinv (exec_args dir as sp us k)"
  by (induction as arbitrary: sp us k) (auto simp: Let_def intro!: okI)

lemma exec_push_oc [THEN oc_conseq, okI]: "kinv k \<Longrightarrow> oc (\<lambda>_. kinv) kinv (exec_push dir usz argv k)"
  by (auto simp: exec_push_def Let_def intro!: okI split: option.split)

lemma exec_bad_oc [THEN oc_conseq, okI]: "finv s \<Longrightarrow> oc (\<lambda>_. finv) finv (exec_bad dir ip s)"
  by (auto simp: exec_bad_def intro!: okI split: option.split)

lemma exec_commit_oc [THEN oc_conseq, okI]:
  "kinv k \<Longrightarrow> usz < KERNBASE \<Longrightarrow> oc (\<lambda>_. kinv) kinv (exec_commit dir usz entry sp path k)"
proof -
  assume k: "kinv k" and u: "usz < KERNBASE"
  have "kinv (upd_proc c (set_pname nm) t)" if "kinv t" for c nm t
    using that by (intro kinv_upd_proc set_pname_inv) (auto simp: set_pname_inv)
  moreover have "kinv (upd_proc c (\<lambda>p. p\<lparr>pgdir := dir, sz := usz, tf := (tf p)\<lparr>tf_eip := entry, tf_esp := sp\<rparr>\<rparr>) t)"
    if "kinv t" for c t
    using that u by (intro kinv_upd_proc) (auto simp: proc_inv_def)
  ultimately show ?thesis
    using k by (auto simp: exec_commit_def with_proc_def Let_def intro!: okI split: option.split)
qed

lemma on_fkern_exec_stack [okR]:
  "finv s \<Longrightarrow> usz < KERNBASE \<Longrightarrow> (\<And>r t. finv t \<Longrightarrow> r < KERNBASE \<Longrightarrow> Q r t) \<Longrightarrow> (\<And>t. finv t \<Longrightarrow> A t) \<Longrightarrow>
    oc Q A (on_fkern (exec_stack d usz) s)"
  by (rule on_fkern_result [where R = "\<lambda>r. r < KERNBASE"]) (auto intro!: okI)

lemma exec_image_oc [THEN oc_conseq, okI]:
  "finv s \<Longrightarrow> usz < KERNBASE \<Longrightarrow> oc (\<lambda>_. finv) finv (exec_image dir usz entry path argv s)"
  by (auto simp: exec_image_def intro!: okI okR split: option.split)

lemma exec_open_oc [THEN oc_conseq, okI]: "finv s \<Longrightarrow> oc (\<lambda>_. finv) finv (exec_open ip elf path argv s)"
  by (auto simp: exec_open_def intro!: okI okR split: option.split)

lemma exec_oc [THEN oc_conseq, okI]: "sinv s \<Longrightarrow> oc (\<lambda>_. sinv) sinv (exec path argv s)"
  by (auto simp: exec_def intro!: okI okR split: option.split)

section \<open>System calls\<close>

lemma fetchint_oc [THEN oc_conseq, okI]: "kinv k \<Longrightarrow> oc (\<lambda>_. kinv) kinv (fetchint a k)"
  by (auto simp: fetchint_def with_proc_def Let_def intro!: okI split: option.split)

lemma fetchstr_loop_oc [THEN oc_conseq, okI]: "kinv k \<Longrightarrow> oc (\<lambda>_. kinv) kinv (fetchstr_loop n a got k)"
  by (induction n a got k rule: fetchstr_loop.induct) (auto intro!: okI)

lemma fetchstr_oc [THEN oc_conseq, okI]: "kinv k \<Longrightarrow> oc (\<lambda>_. kinv) kinv (fetchstr a k)"
  by (auto simp: fetchstr_def with_proc_def Let_def intro!: okI split: option.split)

lemma argint_oc [THEN oc_conseq, okI]: "kinv k \<Longrightarrow> oc (\<lambda>_. kinv) kinv (argint n k)"
  by (auto simp: argint_def with_proc_def Let_def intro!: okI split: option.split)

lemma argptr_oc [THEN oc_conseq, okI]: "kinv k \<Longrightarrow> oc (\<lambda>_. kinv) kinv (argptr n len k)"
  by (auto simp: argptr_def with_proc_def Let_def intro!: okI split: option.split)

lemma argstr_oc [THEN oc_conseq, okI]: "kinv k \<Longrightarrow> oc (\<lambda>_. kinv) kinv (argstr n k)"
  by (auto simp: argstr_def intro!: okI split: option.split)

lemma arg_oc [okI]:
  "sinv s \<Longrightarrow> (\<And>k. kinv k \<Longrightarrow> oc (\<lambda>_. kinv) kinv (g k)) \<Longrightarrow> (\<And>x t. sinv t \<Longrightarrow> oc (\<lambda>_. sinv) sinv (f x t)) \<Longrightarrow>
    (\<And>x t. sinv t \<Longrightarrow> Q x t) \<Longrightarrow> (\<And>t. sinv t \<Longrightarrow> A t) \<Longrightarrow> oc Q A (arg g f s)"
  unfolding arg_def by (rule oc_conseq [where P = "\<lambda>_. sinv" and B = sinv]) (auto intro!: okI split: option.split)

lemma sysproc_oc [THEN oc_conseq, okI]:
  "sinv s \<Longrightarrow> oc (\<lambda>_. sinv) sinv (sys_fork s)" "sinv s \<Longrightarrow> oc (\<lambda>_. sinv) sinv (sys_exit s)"
  "sinv s \<Longrightarrow> oc (\<lambda>_. sinv) sinv (sys_wait s)" "sinv s \<Longrightarrow> oc (\<lambda>_. sinv) sinv (sys_kill s)"
  "sinv s \<Longrightarrow> oc (\<lambda>_. sinv) sinv (sys_getpid s)" "sinv s \<Longrightarrow> oc (\<lambda>_. sinv) sinv (sys_sbrk s)"
  "sinv s \<Longrightarrow> oc (\<lambda>_. sinv) sinv (sys_sleep s)" "sinv s \<Longrightarrow> oc (\<lambda>_. sinv) sinv (sys_join s)"
  "sinv s \<Longrightarrow> oc (\<lambda>_. sinv) sinv (sys_uptime s)" "sinv s \<Longrightarrow> oc (\<lambda>_. sinv) sinv (sys_clone s)"
  unfolding sys_fork_def sys_exit_def sys_wait_def sys_kill_def sys_getpid_def sys_sbrk_def sys_sleep_def
    sys_join_def sys_uptime_def sys_clone_def sys_sleep_loop_def with_proc_def Let_def
  by (auto intro!: okI split: option.split)

lemma argfd_oc [THEN oc_conseq, okI]:
  "kinv k \<Longrightarrow> oc (\<lambda>r k. kinv k \<and> (\<forall>fd f. r = Some (fd, f) \<longrightarrow> f < NFILE)) kinv (argfd n k)"
proof -
  assume k: "kinv k"
  have "f < NFILE" if "kinv t" "curproc t = Some c" "\<not> fd < 0" "\<not> int NOFILE \<le> fd" "ofile (ptable t ! c) ! nat fd = Some f" for t c fd f
  proof -
    have p: "proc_inv (nextpid t) (ptable t ! c)" by (rule kinv_proc [OF that(1) kinv_curproc [OF that(1,2)]])
    then have "nat fd < length (ofile (ptable t ! c))" using that(3,4) by (simp add: proc_inv_def nat_less_iff)
    then have "Some f \<in> set (ofile (ptable t ! c))" using that(5) by (metis nth_mem)
    then show ?thesis using p by (simp add: proc_inv_def)
  qed
  then show ?thesis
    using k by (auto simp: argfd_def with_proc_def intro!: okI split: option.split)
qed

lemma arg_argfd_oc [okR]:
  "sinv s \<Longrightarrow> (\<And>x t. sinv t \<Longrightarrow> snd x < NFILE \<Longrightarrow> oc (\<lambda>_. sinv) sinv (f x t)) \<Longrightarrow>
    (\<And>x t. sinv t \<Longrightarrow> Q x t) \<Longrightarrow> (\<And>t. sinv t \<Longrightarrow> A t) \<Longrightarrow> oc Q A (arg (argfd n) f s)"
  unfolding arg_def
  by (rule oc_conseq [where P = "\<lambda>_. sinv" and B = sinv])
    (auto intro!: okI on_skern_result [where R = "\<lambda>r. \<forall>fd f. r = Some (fd, f) \<longrightarrow> f < NFILE"] split: option.split)

lemma fdalloc_oc [THEN oc_conseq, okI]: "kinv k \<Longrightarrow> f < NFILE \<Longrightarrow> oc (\<lambda>_. kinv) kinv (fdalloc f k)"
proof -
  assume k: "kinv k" and f: "f < NFILE"
  have "kinv (upd_proc c (\<lambda>p. p\<lparr>ofile := (ofile p)[fd := Some f]\<rparr>) t)" if "kinv t" for c fd t
    using that f by (intro kinv_upd_proc) (auto simp: proc_inv_def dest!: set_update_subset_insert [THEN subsetD])
  then show ?thesis
    using k by (auto simp: fdalloc_def with_proc_def intro!: okI split: option.split)
qed

lemma clear_fd_oc [THEN oc_conseq, okI]: "sinv s \<Longrightarrow> oc (\<lambda>_. sinv) sinv (clear_fd fd s)"
proof -
  assume s: "sinv s"
  have "kinv (upd_proc c (\<lambda>p. p\<lparr>ofile := (ofile p)[fd := None]\<rparr>) t)" if "kinv t" for c t
    using that by (intro kinv_upd_proc) (auto simp: proc_inv_def dest!: set_update_subset_insert [THEN subsetD])
  then show ?thesis
    using s by (auto simp: clear_fd_def intro!: okI)
qed

lemma put_stat_oc [THEN oc_conseq, okI]: "kinv k \<Longrightarrow> oc (\<lambda>_. kinv) kinv (put_stat a st k)"
  by (auto simp: put_stat_def intro!: okI)

lemma sysfd_oc [THEN oc_conseq, okI]:
  "sinv s \<Longrightarrow> oc (\<lambda>_. sinv) sinv (sys_dup s)" "sinv s \<Longrightarrow> oc (\<lambda>_. sinv) sinv (sys_read s)"
  "sinv s \<Longrightarrow> oc (\<lambda>_. sinv) sinv (sys_write s)" "sinv s \<Longrightarrow> oc (\<lambda>_. sinv) sinv (sys_close s)"
  "sinv s \<Longrightarrow> oc (\<lambda>_. sinv) sinv (sys_fstat s)"
  unfolding sys_dup_def sys_read_def sys_write_def sys_close_def sys_fstat_def
  by (auto intro!: okI okR split: option.split prod.split)

lemma end_with_oc [THEN oc_conseq, okI]: "finv s \<Longrightarrow> oc (\<lambda>_. finv) finv (end_with v s)"
  by (auto simp: end_with_def intro!: okI)

lemma upd_nlink_oc [THEN oc_conseq, okI]: "finv s \<Longrightarrow> oc (\<lambda>_. finv) finv (upd_nlink ip d s)"
  by (auto simp: upd_nlink_def intro!: okI finv_upd_inode)

lemma link_bad_oc [THEN oc_conseq, okI]: "finv s \<Longrightarrow> oc (\<lambda>_. finv) finv (link_bad ip s)"
  by (auto simp: link_bad_def intro!: okI)

lemma link_into_oc [THEN oc_conseq, okI]: "finv s \<Longrightarrow> oc (\<lambda>_. finv) finv (link_into ip new s)"
  by (auto simp: link_into_def intro!: okI split: option.split)

lemma link_op_oc [THEN oc_conseq, okI]: "finv s \<Longrightarrow> oc (\<lambda>_. finv) finv (link_op old new s)"
  by (auto simp: link_op_def intro!: okI split: option.split)

lemma isdirempty_loop_oc [THEN oc_conseq, okI]: "finv s \<Longrightarrow> oc (\<lambda>_. finv) finv (isdirempty_loop dp offs s)"
  by (induction dp offs s rule: isdirempty_loop.induct) (auto intro!: okI split: option.split)

lemma isdirempty_oc [THEN oc_conseq, okI]: "finv s \<Longrightarrow> oc (\<lambda>_. finv) finv (isdirempty dp s)"
  by (auto simp: isdirempty_def intro!: okI)

lemma unlink_bad_oc [THEN oc_conseq, okI]: "finv s \<Longrightarrow> oc (\<lambda>_. finv) finv (unlink_bad ip s)"
  by (auto simp: unlink_bad_def intro!: okI)

lemma unlink_entry_oc [THEN oc_conseq, okI]: "finv s \<Longrightarrow> oc (\<lambda>_. finv) finv (unlink_entry dp ip off s)"
  by (auto simp: unlink_entry_def intro!: okI)

lemma unlink_op_oc [THEN oc_conseq, okI]: "finv s \<Longrightarrow> oc (\<lambda>_. finv) finv (unlink_op path s)"
  by (auto simp: unlink_op_def intro!: okI split: option.split)

lemma create_dots_oc [THEN oc_conseq, okI]: "finv s \<Longrightarrow> oc (\<lambda>_. finv) finv (create_dots dp ip s)"
  by (auto simp: create_dots_def intro!: okI)

lemma create_new_oc [THEN oc_conseq, okI]:
  "finv s \<Longrightarrow> oc (\<lambda>r t. finv t \<and> (\<forall>i. r = Some i \<longrightarrow> i < NINODE)) finv (create_new dp name ty major minor s)"
  by (auto simp: create_new_def intro!: okI finv_upd_inode)

lemma create_oc [THEN oc_conseq, okI]:
  "finv s \<Longrightarrow> oc (\<lambda>r t. finv t \<and> (\<forall>i. r = Some i \<longrightarrow> i < NINODE)) finv (create path ty major minor s)"
  by (auto simp: create_def intro!: okI split: option.split)

lemma open_inode_oc [THEN oc_conseq, okI]:
  "finv s \<Longrightarrow> oc (\<lambda>r t. finv t \<and> (\<forall>i. r = Some i \<longrightarrow> i < NINODE)) finv (open_inode path omode s)"
  by (auto simp: open_inode_def intro!: okI split: option.split)

lemma open_bad_oc [THEN oc_conseq, okI]: "sinv s \<Longrightarrow> oc (\<lambda>_. sinv) sinv (open_bad ip s)"
  by (auto simp: open_bad_def intro!: okI)

lemma open_file_oc [THEN oc_conseq, okI]: "sinv s \<Longrightarrow> ip < NINODE \<Longrightarrow> oc (\<lambda>_. sinv) sinv (open_file ip omode s)"
  by (auto simp: open_file_def intro!: okI sinv_upd_file split: option.split)

lemma create_op_oc [THEN oc_conseq, okI]: "finv s \<Longrightarrow> oc (\<lambda>_. finv) finv (create_op path ty major minor s)"
  by (auto simp: create_op_def intro!: okI split: option.split)

lemma arg_op_oc [okI]:
  "sinv s \<Longrightarrow> (\<And>k. kinv k \<Longrightarrow> oc (\<lambda>_. kinv) kinv (g k)) \<Longrightarrow> (\<And>x t. sinv t \<Longrightarrow> oc (\<lambda>_. sinv) sinv (f x t)) \<Longrightarrow>
    (\<And>x t. sinv t \<Longrightarrow> Q x t) \<Longrightarrow> (\<And>t. sinv t \<Longrightarrow> A t) \<Longrightarrow> oc Q A (arg_op g f s)"
  unfolding arg_op_def by (rule oc_conseq [where P = "\<lambda>_. sinv" and B = sinv]) (auto intro!: okI split: option.split)

lemma chdir_to_oc [THEN oc_conseq, okI]: "sinv s \<Longrightarrow> ip < NINODE \<Longrightarrow> oc (\<lambda>_. sinv) sinv (chdir_to ip s)"
proof -
  assume s: "sinv s" and ip: "ip < NINODE"
  have "kinv (upd_proc c (\<lambda>p. p\<lparr>cwd := Some ip\<rparr>) t)" if "kinv t" for c t
    using that ip by (intro kinv_upd_proc) (auto simp: proc_inv_def)
  then show ?thesis
    using s by (auto simp: chdir_to_def intro!: okI split: option.split)
qed

lemma exec_argv_oc [THEN oc_conseq, okI]: "kinv k \<Longrightarrow> oc (\<lambda>_. kinv) kinv (exec_argv n a got k)"
  by (induction n a got k rule: exec_argv.induct) (auto intro!: okI split: option.split)

lemma pipe_bad_oc [THEN oc_conseq, okI]: "sinv s \<Longrightarrow> oc (\<lambda>_. sinv) sinv (pipe_bad r w s)"
  by (auto simp: pipe_bad_def intro!: okI)

lemma sys_open_oc [THEN oc_conseq, okI]: "sinv s \<Longrightarrow> oc (\<lambda>_. sinv) sinv (sys_open s)"
  unfolding sys_open_def
  by (auto intro!: okI on_fs_result [where h = "open_inode p m" and R = "\<lambda>r. \<forall>i. r = Some i \<longrightarrow> i < NINODE" for p m] split: option.split)

lemma sys_chdir_oc [THEN oc_conseq, okI]: "sinv s \<Longrightarrow> oc (\<lambda>_. sinv) sinv (sys_chdir s)"
  unfolding sys_chdir_def
  by (auto intro!: okI on_fs_result [where h = "namei p" and R = "\<lambda>r. \<forall>i. r = Some i \<longrightarrow> i < NINODE" for p] split: option.split)

lemma syspath_oc [THEN oc_conseq, okI]:
  "sinv s \<Longrightarrow> oc (\<lambda>_. sinv) sinv (sys_link s)" "sinv s \<Longrightarrow> oc (\<lambda>_. sinv) sinv (sys_unlink s)"
  "sinv s \<Longrightarrow> oc (\<lambda>_. sinv) sinv (sys_mkdir s)" "sinv s \<Longrightarrow> oc (\<lambda>_. sinv) sinv (sys_mknod s)"
  "sinv s \<Longrightarrow> oc (\<lambda>_. sinv) sinv (sys_exec s)" "sinv s \<Longrightarrow> oc (\<lambda>_. sinv) sinv (sys_pipe s)"
  unfolding sys_link_def sys_unlink_def sys_mkdir_def sys_mknod_def sys_exec_def sys_pipe_def
  by (auto intro!: okI split: option.split)

section \<open>Traps\<close>

lemma syscalls_oc: "syscalls n = Some f \<Longrightarrow> sinv s \<Longrightarrow> oc (\<lambda>_. sinv) sinv (f s)"
  by (simp add: syscalls_def split: if_splits) (auto intro!: okI)

lemma set_eax_oc [THEN oc_conseq, okI]: "sinv s \<Longrightarrow> oc (\<lambda>_. sinv) sinv (set_eax c v s)"
  by (auto simp: set_eax_def intro!: okI)

lemma syscall_oc [THEN oc_conseq, okI]: "sinv s \<Longrightarrow> oc (\<lambda>_. sinv) sinv (syscall s)"
  by (auto simp: syscall_def Let_def intro!: okI syscalls_oc [THEN oc_conseq] split: option.split)

lemma timer_tick_oc [THEN oc_conseq, okI]: "kinv k \<Longrightarrow> oc (\<lambda>_. kinv) kinv (timer_tick k)"
  by (auto simp: timer_tick_def intro!: okI)

lemma irq_oc [THEN oc_conseq, okI]:
  "sinv s \<Longrightarrow> oc (\<lambda>_. sinv) sinv (kbd_irq s)" "sinv s \<Longrightarrow> oc (\<lambda>_. sinv) sinv (uart_irq s)"
  unfolding kbd_irq_def uart_irq_def by (auto intro!: okI)

lemma bad_trap_oc [THEN oc_conseq, okI]: "kinv k \<Longrightarrow> oc (\<lambda>_. kinv) kinv (bad_trap f cr2 k)"
  by (auto simp: bad_trap_def intro!: okI split: option.split)

lemma trap_switch_oc [THEN oc_conseq, okI]: "sinv s \<Longrightarrow> oc (\<lambda>_. sinv) sinv (trap_switch f cr2 s)"
  by (auto simp: trap_switch_def Let_def intro!: okI)

lemma exit_if_killed_oc [THEN oc_conseq, okI]: "sinv s \<Longrightarrow> oc (\<lambda>_. sinv) sinv (exit_if_killed f s)"
  by (auto simp: exit_if_killed_def intro!: okI split: option.split)

lemma yield_on_tick_oc [THEN oc_conseq, okI]: "kinv k \<Longrightarrow> oc (\<lambda>_. kinv) kinv (yield_on_tick f k)"
  by (auto simp: yield_on_tick_def intro!: okI split: option.split)

lemma exit_killed_oc [THEN oc_conseq, okI]: "sinv s \<Longrightarrow> oc (\<lambda>_. sinv) sinv (exit_killed s)"
  by (auto simp: exit_killed_def intro!: okI)

lemma trap_oc: "sinv s \<Longrightarrow> oc (\<lambda>_. sinv) sinv (trap f cr2 s)"
  by (auto simp: trap_def intro!: okI)

lemma trap_resume_oc: "sinv s \<Longrightarrow> oc (\<lambda>_. sinv) sinv (trap_resume ie f s)"
  by (auto simp: trap_resume_def intro!: okI)

end
