(* ===== verification/Boot.thy ===== *)
theory Boot
  imports Sinv
begin

text \<open>
  Starting the kernel (\<open>src/main.c\<close>, with \<open>seginit\<close> of \<open>src/vm.c\<close>, \<open>uartinit\<close> of \<open>src/uart.c\<close> and
  \<open>ideinit\<close> of \<open>src/memide.c\<close>), and the running kernel as a transition system: traps, processes
  that continue after a switch, scheduler passes, and user code in between. The invariant of
  \<open>Sinv\<close> holds after \<open>main\<close> and in every state reached from there. What the linker and the build
  put into the image is a parameter (\<open>bootimg\<close>). The boot processor waits for each other
  processor it starts, so the two run one after the other. The initialisation of the interrupt
  controllers and of the timer has no effect on the modelled state.
\<close>

section \<open>Segments\<close>

record segdesc =
  lim_15_0 :: nat
  base_15_0 :: nat
  base_23_16 :: nat
  stype :: nat
  ss :: bool
  sdpl :: nat
  sp :: bool
  lim_19_16 :: nat
  avl :: bool
  srsv1 :: bool
  db :: bool
  sg :: bool
  base_31_24 :: nat

definition SEG :: "nat \<Rightarrow> u32 \<Rightarrow> u32 \<Rightarrow> nat \<Rightarrow> segdesc" where
  "SEG type base lim d =
     \<lparr>lim_15_0 = unat (drop_bit 12 lim AND 0xFFFF), base_15_0 = unat (base AND 0xFFFF),
      base_23_16 = unat (drop_bit 16 base AND 0xFF), stype = type, ss = True, sdpl = d, sp = True,
      lim_19_16 = unat (drop_bit 28 lim), avl = False, srsv1 = False, db = True, sg = True,
      base_31_24 = unat (drop_bit 24 base)\<rparr>"

text \<open>
  The descriptors 1 to 5 that \<open>seginit\<close> writes, for a processor whose structure is at an address,
  and its effect on the current process. The types are \<open>STA_X|STA_R\<close> and \<open>STA_W\<close>.
\<close>

definition seginit_gdt :: "u32 \<Rightarrow> segdesc list" where
  "seginit_gdt cpu_addr =
     [SEG 0xA 0 0xFFFFFFFF 0, SEG 2 0 0xFFFFFFFF 0, SEG 2 cpu_addr 8 0,
      SEG 0xA 0 0xFFFFFFFF 3, SEG 2 0 0xFFFFFFFF 3]"

definition seginit :: "kern \<Rightarrow> (unit, kern) outcome" where
  "seginit k = Ret () (set_curproc None k)"

section \<open>Devices\<close>

text \<open>Announcing the kernel on the serial port, where the port exists.\<close>

definition uartinit :: "bool \<Rightarrow> kern \<Rightarrow> (unit, kern) outcome" where
  "uartinit present k =
     (if \<not> present then Ret () k
      else Ret () (k\<lparr>con := fold uartputc (map (\<lambda>c. of_char c) (''xv6...'' @ [CHR 0x0A])) ((con k)\<lparr>uart := True\<rparr>)\<rparr>))"

record bootimg =
  img_vectors :: "nat \<Rightarrow> u32"
  img_entryother :: bytes
  img_mpenter :: u32
  img_entrypgdir :: u32
  img_fs :: "nat \<Rightarrow> bytes"
  img_fs_size :: nat

definition ideinit :: "bootimg \<Rightarrow> bio \<Rightarrow> (unit, bio) outcome" where
  "ideinit img s = Ret () (s\<lparr>disk := img_fs img, disksize := img_fs_size img div BSIZE\<rparr>)"

section \<open>main.c\<close>

definition mpmain :: "kern \<Rightarrow> (unit, kern) outcome" where
  "mpmain k = cprintf (''cpu%d: starting'' @ [CHR 0x0A]) [CWord (word_of_nat (self (km k)))] k"

text \<open>What processor \<open>c\<close> does until it reports that it has started.\<close>

definition mpenter :: "nat \<Rightarrow> kern \<Rightarrow> (unit, kern) outcome" where
  "mpenter c k =
     (let me = self (km k); k = switchkvm (k\<lparr>km := on c (km k)\<rparr>)
      in bindR (seginit k) (\<lambda>_ k.
         bindR (mpmain k) (\<lambda>_ k. Ret () (k\<lparr>km := on me (km k)\<rparr>))))"

fun startothers_loop :: "bootimg \<Rightarrow> nat list \<Rightarrow> kern \<Rightarrow> (unit, kern) outcome" where
  "startothers_loop img [] k = Ret () k"
| "startothers_loop img (c # cs) k =
     (if c = self (km k) then startothers_loop img cs k
      else bindR (kalloc k) (\<lambda>stack k.
           let k = kstore32 (p2v 0x7000 - 4) (stack + KSTACKSIZE) k;
               k = kstore32 (p2v 0x7000 - 8) (img_mpenter img) k;
               k = kstore32 (p2v 0x7000 - 12) (v2p (img_entrypgdir img)) k
           in bindR (mpenter c k) (\<lambda>_. startothers_loop img cs)))"

definition startothers :: "bootimg \<Rightarrow> nat \<Rightarrow> kern \<Rightarrow> (unit, kern) outcome" where
  "startothers img ncpu k =
     startothers_loop img [0..<ncpu] (k\<lparr>ram := store_list 0x7000 (img_entryother img) (ram k)\<rparr>)"

definition main :: "bootimg \<Rightarrow> nat \<Rightarrow> bool \<Rightarrow> sys \<Rightarrow> (unit, sys) outcome" where
  "main img ncpu serial s =
     bindR (on_skern (\<lambda>k. kinit1 (sym_end (syms k)) (p2v 0x400000) k) s) (\<lambda>_ s.
     bindR (on_skern kvmalloc s) (\<lambda>_ s.
     bindR (on_skern seginit s) (\<lambda>_ s.
     bindR (on_skern (\<lambda>k. cprintf (CHR 0x0A # ''cpu%d: starting xv6'' @ [CHR 0x0A, CHR 0x0A])
              [CWord (word_of_nat (self (km k)))] k) s) (\<lambda>_ s.
     bindR (on_fs consoleinit s) (\<lambda>_ s.
     bindR (on_skern (uartinit serial) s) (\<lambda>_ s.
     bindR (on_skern (\<lambda>k. Ret () (pinit k)) s) (\<lambda>_ s.
     bindR (on_skern (\<lambda>k. Ret () (snd (tvinit (img_vectors img) k))) s) (\<lambda>_ s.
     bindR (on_fs (on_fbio (\<lambda>b. Ret () (binit b))) s) (\<lambda>_ s.
     bindR (fileinit s) (\<lambda>_ s.
     bindR (on_fs (on_fbio (ideinit img)) s) (\<lambda>_ s.
     bindR (on_skern (startothers img ncpu) s) (\<lambda>_ s.
     bindR (on_skern (kinit2 (p2v 0x400000) (p2v PHYSTOP)) s) (\<lambda>_ s.
     bindR (userinit s) (\<lambda>_ s.
     on_skern mpmain s))))))))))))))"

section \<open>The state the loader leaves\<close>

text \<open>
  Static data is zero except for the initialised variables \<open>nextpid\<close> and \<open>first\<close>. The screen,
  the memory and the pending input are whatever the machine starts with.
\<close>

definition zero_console :: "(int \<Rightarrow> u16) \<Rightarrow> u16 \<Rightarrow> console" where
  "zero_console screen pos =
     \<lparr>panicked = False, locking = False, uart = False, uart_out = [], crt = screen, cursor = pos,
      in_buf = replicate INPUT_BUF 0, in_r = 0, in_w = 0, in_e = 0\<rparr>"

definition zero_kern :: "symtab \<Rightarrow> mem \<Rightarrow> (int \<Rightarrow> u16) \<Rightarrow> u16 \<Rightarrow> kern" where
  "zero_kern sy m screen pos =
     \<lparr>km = mach0, ptable = replicate NPROC unused_proc, initproc = None, nextpid = 1, kpgdir = 0,
      ticks = 0, ram = m, use_lock = False, freelist = 0, syms = sy, con = zero_console screen pos,
      pipes = Map.empty\<rparr>"

definition zero_inode :: inode where
  "zero_inode =
     \<lparr>idev = 0, inum = 0, iref = 0, ibusy = False, ivalid = False, itype = 0, imajor = 0, iminor = 0,
      inlink = 0, isize = 0, iaddrs = replicate (Suc NDIRECT) 0\<rparr>"

definition zero_file :: kfile where
  "zero_file =
     \<lparr>ftype = FD_NONE, fref = 0, freadable = False, fwritable = False, fpipe = 0, fip = 0, foff = 0\<rparr>"

definition zero_fs :: "kern \<Rightarrow> fs" where
  "zero_fs k =
     \<lparr>fl = \<lparr>lb = \<lparr>bk = k, bufs = replicate (Suc NBUF) zero_buf, disk = \<lambda>_. [], disksize = 0, writes = []\<rparr>,
            lstart = 0, lsize = 0, outstanding = 0, committing = False, ldev = 0, lhn = 0,
            lhblock = replicate LOGSIZE 0\<rparr>,
      fsb = \<lparr>sb_size = 0, sb_nblocks = 0, sb_ninodes = 0, sb_nlog = 0, sb_logstart = 0, sb_inodestart = 0,
             sb_bmapstart = 0\<rparr>,
      inodes = replicate NINODE zero_inode, dev_read = \<lambda>_. None, dev_write = \<lambda>_. None\<rparr>"

definition zero_sys :: "symtab \<Rightarrow> mem \<Rightarrow> (int \<Rightarrow> u16) \<Rightarrow> u16 \<Rightarrow> kbd \<Rightarrow> bytes \<Rightarrow> bytes \<Rightarrow> sys" where
  "zero_sys sy m screen pos kb rx junk =
     \<lparr>sfs = zero_fs (zero_kern sy m screen pos), ftable = replicate NFILE zero_file, first = True,
      kbdst = kb, uart_rx = rx, stale = junk\<rparr>"

section \<open>The running kernel\<close>

definition leaves :: "('a, 's) outcome \<Rightarrow> 's \<Rightarrow> bool" where
  "leaves m t \<longleftrightarrow> (case m of Ret x s \<Rightarrow> t = s | Asleep s \<Rightarrow> t = s | _ \<Rightarrow> False)"

text \<open>
  What happens once \<open>main\<close> has finished: a trap from user or kernel code, also while the idle
  scheduler waits; a process that continues after \<open>yield\<close> or \<open>sleep\<close> or for the first time; the
  scheduler looking for a process or being switched back to. In between, user code changes
  memory, other processors run and devices receive input.
\<close>

inductive sys_step :: "sys \<Rightarrow> sys \<Rightarrow> bool" where
  trapped: "leaves (trap f cr2 s) t \<Longrightarrow> sys_step s t"
| preempted: "leaves (trap_resume ie f s) t \<Longrightarrow> sys_step s t"
| woken: "leaves (on_skern (sleep_return ie l) s) t \<Longrightarrow> sys_step s t"
| started: "leaves (forkret s) t \<Longrightarrow> sys_step s t"
| scheduled: "leaves (on_skern scheduler_pass s) t \<Longrightarrow> sys_step s t"
| switched_back: "leaves (on_skern (scheduler_back i) s) t \<Longrightarrow> sys_step s t"
| user_code: "leaves (on_skern (\<lambda>k. Ret () (k\<lparr>ram := m\<rparr>)) s) t \<Longrightarrow> sys_step s t"
| other_cpu: "leaves (on_skern (\<lambda>k. Ret () (k\<lparr>km := on c (km k)\<rparr>)) s) t \<Longrightarrow> sys_step s t"
| input: "sys_step s (s\<lparr>kbdst := kb, uart_rx := rx\<rparr>)"

section \<open>The invariant holds from the start\<close>

lemma oc_leaves: "oc (\<lambda>_. I) I m \<Longrightarrow> leaves m t \<Longrightarrow> I t"
  by (cases m) (simp_all add: leaves_def)

lemma sleep_return_oc [THEN oc_conseq, okI]: "kinv k \<Longrightarrow> oc (\<lambda>_. kinv) kinv (sleep_return ie l k)"
  by (auto simp: sleep_return_def with_proc_def Let_def proc_inv_def intro!: okI kinv_sched_return kinv_upd_proc split: option.split)

lemma kinv_on: "kinv k \<Longrightarrow> kinv (k\<lparr>km := on c (km k)\<rparr>)"
  by (auto simp: kinv_def mach_inv_def on_def)

lemma sys_step_sinv: "sys_step s t \<Longrightarrow> sinv s \<Longrightarrow> sinv t"
proof (induction rule: sys_step.induct)
  case (trapped f cr2 s t)
  then show ?case using oc_leaves [OF trap_oc] by blast
next
  case (preempted ie f s t)
  then show ?case using oc_leaves [OF trap_resume_oc] by blast
qed (auto elim!: oc_leaves [rotated] intro!: okI kinv_on)

lemma steps_sinv: "sys_step\<^sup>*\<^sup>* s t \<Longrightarrow> sinv s \<Longrightarrow> sinv t"
  by (induction rule: rtranclp_induct) (auto intro: sys_step_sinv)

text \<open>
  \<open>freerange\<close> ends whatever range it gets: \<open>kfree\<close> panics on an address that is not in physical
  memory, so the loop runs at most once for each page of it.
\<close>

lemma phys_range: "v2p p < PHYSTOP \<longleftrightarrow> 2147483648 \<le> unat p \<and> unat p < 2382364672"
proof -
  have "unat (p - KERNBASE) = (if 2147483648 \<le> unat p then unat p - 2147483648 else unat p + 2147483648)"
    by (simp add: unat_sub_if')
  moreover have "unat p < 4294967296" using unsigned_less [of p, where 'a = nat] by simp
  ultimately show ?thesis
    by (auto simp: v2p_def word_less_nat_alt)
qed

lemma freerange_loop_oc:
  "kinv k \<Longrightarrow> (v2p p < PHYSTOP \<longrightarrow> 2382364672 \<le> unat p + 4096 * n) \<Longrightarrow>
    oc (\<lambda>_. kinv) kinv (freerange_loop (Suc n) p vend k)"
proof (induction n arbitrary: p k)
  case 0
  then have "\<not> v2p p < PHYSTOP" unfolding phys_range by auto
  then show ?case using 0(1) by (auto simp: kfree_def)
next
  case (Suc n)
  show ?case
  proof (cases "v2p p < PHYSTOP")
    case True
    then have "unat (p + PGSIZE) = unat p + 4096"
      unfolding phys_range by (simp add: unat_word_ariths)
    then have "2382364672 \<le> unat (p + PGSIZE) + 4096 * n" using True Suc.prems(2) by simp
    then have "kinv t \<Longrightarrow> oc (\<lambda>_. kinv) kinv (freerange_loop (Suc n) (p + PGSIZE) vend t)" for t
      by (intro Suc.IH) auto
    then show ?thesis
      using Suc.prems(1) by (subst freerange_loop.simps) (auto intro!: okI simp del: freerange_loop.simps)
  next
    case False
    then show ?thesis using Suc.prems(1) by (auto simp: kfree_def)
  qed
qed

lemma freerange_oc [THEN oc_conseq, okI]: "kinv k \<Longrightarrow> oc (\<lambda>_. kinv) kinv (freerange a b k)"
  unfolding freerange_def by (rule freerange_loop_oc) (auto simp: p2v_def)

lemma kinit_oc [THEN oc_conseq, okI]:
  "kinv k \<Longrightarrow> oc (\<lambda>_. kinv) kinv (kinit1 a b k)" "kinv k \<Longrightarrow> oc (\<lambda>_. kinv) kinv (kinit2 a b k)"
  unfolding kinit1_def kinit2_def by (auto intro!: okI kinv_set_km mach_inv_cli kinv_km)

lemma kvmalloc_oc [THEN oc_conseq, okI]: "kinv k \<Longrightarrow> oc (\<lambda>_. kinv) kinv (kvmalloc k)"
  by (auto simp: kvmalloc_def intro!: okI kinv_switchkvm)

lemma seginit_oc [THEN oc_conseq, okI]: "kinv k \<Longrightarrow> oc (\<lambda>_. kinv) kinv (seginit k)"
  by (auto simp: seginit_def intro!: kinv_set_curproc)

lemma con_inv_uart: "con_inv c \<Longrightarrow> con_inv (fold uartputc xs (c\<lparr>uart := b\<rparr>))"
proof (induction xs rule: rev_induct)
  case Nil
  then show ?case by (simp add: con_inv_def con_ok_def)
next
  case (snoc x xs)
  then show ?case by (simp add: uartputc_def con_inv_def con_ok_def)
qed

lemma uartinit_oc [THEN oc_conseq, okI]: "kinv k \<Longrightarrow> oc (\<lambda>_. kinv) kinv (uartinit b k)"
  unfolding uartinit_def by (auto intro!: kinv_set_con con_inv_uart kinv_con simp del: fold_simps list.map)

lemma mpmain_oc [THEN oc_conseq, okI]: "kinv k \<Longrightarrow> oc (\<lambda>_. kinv) kinv (mpmain k)"
  by (auto simp: mpmain_def intro!: okI)

lemma mpenter_oc [THEN oc_conseq, okI]: "kinv k \<Longrightarrow> oc (\<lambda>_. kinv) kinv (mpenter c k)"
  by (auto simp: mpenter_def Let_def intro!: okI kinv_on kinv_switchkvm)

lemma startothers_loop_oc [THEN oc_conseq, okI]: "kinv k \<Longrightarrow> oc (\<lambda>_. kinv) kinv (startothers_loop img cs k)"
  by (induction img cs k rule: startothers_loop.induct) (auto simp: Let_def intro!: okI)

lemma startothers_oc [THEN oc_conseq, okI]: "kinv k \<Longrightarrow> oc (\<lambda>_. kinv) kinv (startothers img n k)"
  by (auto simp: startothers_def intro!: okI)

lemma pinit_oc: "kinv k \<Longrightarrow> kinv (pinit k)" "kinv k \<Longrightarrow> kinv (snd (tvinit v k))"
  by (auto simp: pinit_def tvinit_def intro!: kinv_set_km mach_inv_cli kinv_km)

lemma fileinit_oc [THEN oc_conseq, okI]: "sinv s \<Longrightarrow> oc (\<lambda>_. sinv) sinv (fileinit s)"
  by (auto simp: fileinit_def intro!: okI kinv_set_km mach_inv_cli kinv_km)

lemma ideinit_oc [THEN oc_conseq, okI]: "binv s \<Longrightarrow> oc (\<lambda>_. binv) binv (ideinit img s)"
  by (simp add: ideinit_def binv_def)

text \<open>Until \<open>binit\<close> has run there is no ring of buffers.\<close>

definition preinv :: "sys \<Rightarrow> bool" where
  "preinv s \<longleftrightarrow> kinv (skern s) \<and> length (bufs (lb (fl (sfs s)))) = Suc NBUF \<and> length (inodes (sfs s)) = NINODE \<and>
     (\<forall>i \<in> set (inodes (sfs s)). length (iaddrs i) = Suc NDIRECT) \<and> length (ftable s) = NFILE \<and> (\<forall>f \<in> set (ftable s). fip f < NINODE)"

lemma preinv_kern:
  "preinv s \<Longrightarrow> (\<And>k. kinv k \<Longrightarrow> oc (\<lambda>_. kinv) kinv (h k)) \<Longrightarrow> (\<And>x t. preinv t \<Longrightarrow> Q x t) \<Longrightarrow> (\<And>t. A t) \<Longrightarrow> oc Q A (on_skern h s)"
  unfolding on_skern_def on_fs_def on_fkern_def on_log_def on_lkern_def on_bio_def on_kern_def oc_zoom
  by (rule oc_conseq [where P = "\<lambda>_. kinv" and B = kinv]) (auto simp: preinv_def)

lemma preinv_consoleinit:
  assumes s: "preinv s" and Q: "\<And>x t. preinv t \<Longrightarrow> Q x t"
  shows "oc Q A (on_fs consoleinit s)"
proof -
  have "kinv (k\<lparr>km := initlock CONSLK ''console'' (km k), con := (con k)\<lparr>locking := True\<rparr>\<rparr>)" if "kinv k" for k
    using that by (auto simp: kinv_def con_inv_def con_ok_def intro: mach_inv_cli)
  then show ?thesis
    using s by (auto simp: consoleinit_def on_fs_def on_fkern_def on_log_def on_lkern_def on_bio_def on_kern_def preinv_def intro!: Q)
qed

lemma preinv_binit:
  "preinv s \<Longrightarrow> (\<And>x t. sinv t \<Longrightarrow> Q x t) \<Longrightarrow> oc Q A (on_fs (on_fbio (\<lambda>b. Ret () (binit b))) s)"
proof -
  assume s: "preinv s" and Q: "\<And>x t. sinv t \<Longrightarrow> Q x t"
  have "kinv (bk (binit b))" if "kinv (bk b)" for b
    using that by (auto simp: binit_def Let_def upd_buf_def intro!: kinv_set_km mach_inv_cli kinv_km)
  then have "binv (binit (lb (fl (sfs s))))"
    using s binit_lru [of "lb (fl (sfs s))"] unfolding binv_def preinv_def by blast
  then have "sinv (s\<lparr>sfs := (sfs s)\<lparr>fl := (fl (sfs s))\<lparr>lb := binit (lb (fl (sfs s)))\<rparr>\<rparr>\<rparr>)"
    using s by (simp add: sinv_def finv_def preinv_def)
  then show ?thesis
    by (simp add: on_fs_def on_fbio_def on_log_def on_bio_def Q)
qed

lemma main_oc:
  assumes "preinv s"
  shows "oc (\<lambda>_. sinv) (\<lambda>_. True) (main img n serial s)"
  unfolding main_def oc_bindR
  using assms
  by (auto intro!: preinv_kern preinv_consoleinit preinv_binit) (auto intro!: okI pinit_oc)

lemma preinv_zero: "uint pos < 24 * 80 \<Longrightarrow> preinv (zero_sys sy m screen pos kb rx junk)"
  by (auto simp: preinv_def zero_sys_def zero_fs_def zero_kern_def kinv_def mach_inv_def mach0_def
    ptable_inv_def proc_inv_def unused_proc_def pids_unique_def con_inv_def con_ok_def zero_console_def
    zero_inode_def zero_file_def NINODE_def simp del: replicate.simps)

text \<open>A booted machine, for the examples.\<close>

definition booted :: sys where
  "booted =
     (let s = zero_sys \<lparr>sym_end = p2v 0x200000, sym_data = p2v 0x110000, sym_forkret = 0, sym_trapret = 0, sym_initcode = []\<rparr>
                (\<lambda>_. 0) (\<lambda>_. 0) 0 \<lparr>kshift = 0, kcodes = []\<rparr> [] []
      in s\<lparr>sfs := (sfs s)\<lparr>fl := (fl (sfs s))\<lparr>lb := binit (lb (fl (sfs s)))\<rparr>\<rparr>\<rparr>)"

lemma booted_sinv: "sinv booted"
proof -
  have "sinv t" if "on_fs (on_fbio (\<lambda>b. Ret () (binit b))) s = Ret () t" "preinv s" for s t
    using preinv_binit [OF that(2), of "\<lambda>_. sinv" "\<lambda>_. True"] that(1) by simp
  moreover have "on_fs (on_fbio (\<lambda>b. Ret () (binit b))) s =
      Ret () (s\<lparr>sfs := (sfs s)\<lparr>fl := (fl (sfs s))\<lparr>lb := binit (lb (fl (sfs s)))\<rparr>\<rparr>\<rparr>)" for s
    by (simp add: on_fs_def on_fbio_def on_log_def on_bio_def zoom_def)
  ultimately show ?thesis
    unfolding booted_def Let_def by (blast intro: preinv_zero [where pos = 0, simplified])
qed

section \<open>Correctness\<close>



text \<open>
  C3. Handling a trap ends: every system call, interrupt and fault, the way back after a
  preemption or a sleep, the first run of a process and a pass of the scheduler return, switch
  to another process, wait for a lock or panic, but no loop of the kernel runs forever.
\<close>

theorem kernel_terminates:
  assumes "sinv s"
  shows "trap f cr2 s \<noteq> Diverge \<and> trap_resume ie f s \<noteq> Diverge \<and> forkret s \<noteq> Diverge \<and>
    on_skern (sleep_return ie l) s \<noteq> Diverge \<and> on_skern scheduler_pass s \<noteq> Diverge \<and> on_skern (scheduler_back i) s \<noteq> Diverge"
proof -
  have "oc (\<lambda>_. sinv) sinv (forkret s)" "oc (\<lambda>_. sinv) sinv (on_skern (sleep_return ie l) s)"
    "oc (\<lambda>_. sinv) sinv (on_skern scheduler_pass s)" "oc (\<lambda>_. sinv) sinv (on_skern (scheduler_back i) s)"
    using assms by (auto intro!: okI)
  then show ?thesis
    using trap_oc [OF assms] trap_resume_oc [OF assms] by (auto dest!: oc_not_Diverge)
qed

theorem kernel_terminates_witness:
  "sinv booted \<and> trap (zero_tf\<lparr>tf_trapno := 64\<rparr>) 0 booted \<noteq> Diverge \<and> on_skern scheduler_pass booted \<noteq> Diverge"
  using kernel_terminates [OF booted_sinv] booted_sinv by blast



end
