(* ===== verification/Spec2Isabelle.thy ===== *)
theory Spec2Isabelle
  imports Boot
begin

text \<open>
  A verification of the xv6 kernel of this repository.

  \<^bold>\<open>The program.\<close> xv6 is a small Unix kernel for x86 machines with several processors. User
  programs run in their own address spaces and enter the kernel by a trap; a trap is a system
  call, a device interrupt, a timer tick or a fault (\<open>src/trap.c\<close>, \<open>src/syscall.c\<close>,
  \<open>src/sysproc.c\<close>, \<open>src/sysfile.c\<close>). Processes sleep and are woken through the process table
  (\<open>src/proc.c\<close>), memory is handed out page by page and mapped by two-level page tables
  (\<open>src/kalloc.c\<close>, \<open>src/vm.c\<close>), programs are loaded by \<open>src/exec.c\<close>. Files live in an inode file
  system (\<open>src/fs.c\<close>, \<open>src/file.c\<close>) on top of a redo log (\<open>src/log.c\<close>) on top of a cache of disk
  blocks (\<open>src/bio.c\<close>) on a disk held in memory (\<open>src/memide.c\<close>); pipes (\<open>src/pipe.c\<close>) and the
  console (\<open>src/console.c\<close>, \<open>src/kbd.c\<close>, \<open>src/uart.c\<close>) are files too. This repository adds threads
  (\<open>clone\<close> and \<open>join\<close>). \<open>src/main.c\<close> starts all of it.

  \<^bold>\<open>How the code is modelled.\<close> A routine is a function from the state to an outcome
  (\<open>Prelude\<close>): it returns a value, panics, gives up the processor (\<open>Asleep\<close>: the code called
  \<open>sched\<close>), spins on a lock another processor holds (\<open>Spin\<close>), or does not end (\<open>Diverge\<close>). What a
  routine does after it is switched to again is a definition of its own where the source goes on
  with more than its loop test. Machine integers are words of their width; a C pointer into a
  table is an index, a pointer into memory a 32-bit address; a null pointer is \<open>None\<close> or 0. A load
  or store through an unmapped user address is the page fault that ends in \<open>panic("trap")\<close>. The
  state is nested the way the layers use each other: \<open>mach\<close> (processors, locks), \<open>kern\<close> (process
  table, memory, console, pipes), \<open>bio\<close> (buffers, disk), \<open>log\<close>, \<open>fs\<close> (inode cache, device table),
  \<open>sys\<close> (file table, input devices); \<open>zoom\<close> lifts a routine of a lower layer.

  \<^bold>\<open>The theories\<close>, in the order they build on each other:
  \<^item> \<open>Prelude\<close>: outcomes, their composition and the rule \<open>wp\<close> of total correctness.
  \<^item> \<open>Cstring\<close>: \<open>src/string.c\<close> over a byte memory with 32-bit addresses. \<open>memmove\<close> handles overlap,
    \<open>strncpy\<close> and \<open>strncmp\<close> agree, \<open>safestrcpy\<close> terminates its buffer.
  \<^item> \<open>Mmu\<close>: the address arithmetic of \<open>src/mmu.h\<close>.
  \<^item> \<open>Output\<close>, \<open>Console\<close>, \<open>Kbd\<close>: \<open>src/console.c\<close>, \<open>src/uart.c\<close>, \<open>src/kbd.c\<close>. Printed numbers denote their
    argument, the cursor stays on the screen, the input ring implements the line discipline.
  \<^item> \<open>Spinlock\<close>: \<open>src/spinlock.c\<close>; mutual exclusion on any number of processors, as an invariant of an
    interleaving of the steps of \<open>acquire\<close> and \<open>release\<close>.
  \<^item> \<open>Ring\<close>: ring buffers with free-running counters, shared by console and pipes.
  \<^item> \<open>Sched\<close>: the scheduling half of \<open>src/proc.c\<close>. No process starves in a turn of the scheduler, no
    wakeup is lost, \<open>kill\<close> reaches one process.
  \<^item> \<open>Bio\<close>, \<open>Log\<close>: \<open>src/bio.c\<close> and \<open>src/log.c\<close>. The cache returns the current contents of a block, keeps
    its ring in order of use; a crash at any disk write of a commit leaves the file system as it
    was before or as it is after the transaction, recovery may itself be interrupted.
  \<^item> \<open>Kalloc\<close>: \<open>src/kalloc.c\<close>, a stack of pages threaded through the pages themselves.
  \<^item> \<open>Vm\<close>: \<open>src/vm.c\<close> with the page tables as words in memory. \<open>mappages\<close> changes the hardware's
    translation of exactly its range; \<open>setupkvm\<close> maps physical memory at \<open>KERNBASE\<close>, which is what
    the direct loads and stores of the kernel in the model rest on.
  \<^item> \<open>Pipe\<close>: \<open>src/pipe.c\<close>; reading and writing implement a bounded queue of bytes.
  \<^item> \<open>Inode\<close>, \<open>Fs\<close>: \<open>src/fs.c\<close>, blocks and inodes, then contents, directories and paths. The
    elements \<open>skipelem\<close> cuts off a path are those between its slashes.
  \<^item> \<open>File\<close>: \<open>src/file.c\<close> and \<open>pipealloc\<close>. A reference taken and given back leaves every file open and
    unchanged.
  \<^item> \<open>Proc\<close>: the life of processes in \<open>src/proc.c\<close>. \<open>exit\<close> wakes whoever has to know and hands the
    children over, \<open>wait\<close> sleeps only where a child will wake it.
  \<^item> \<open>Exec\<close>, \<open>Syscall\<close>, \<open>Sysfile\<close>, \<open>Trap\<close>: \<open>src/exec.c\<close>, the arguments and bodies of the system calls,
    the dispatch of system calls and traps and the interrupt table. \<open>argptr\<close> lets only memory of
    the caller through, a fault or an unknown call number concerns only the process at fault, and
    user code can enter by the system call gate only.
  \<^item> \<open>Kinv\<close>, \<open>Finv\<close>, \<open>Sinv\<close>: the invariant of the whole kernel. For every routine there is a rule of the
    judgement \<open>oc\<close> that says that it keeps the invariant however it ends and does not run forever;
    the rules are collected in \<open>okI\<close>, and the proof for a routine follows its text.
  \<^item> \<open>Boot\<close>: \<open>src/main.c\<close>, the running system as a transition relation \<open>sys_step\<close>, and the theorems
    about it: the invariant holds from boot on, and no handler runs forever.

  \<^bold>\<open>Fuel.\<close> Loops whose end is not evident from their text have fuel, and running out of it is
  \<open>Diverge\<close>. The loops over user or kernel pages (\<open>mappages\<close>, \<open>freerange\<close>, \<open>allocuvm\<close>, \<open>deallocuvm\<close>,
  \<open>copyuvm\<close>, \<open>loaduvm\<close>) get one unit for each of the \<open>2 ^ 20\<close> pages of an address space, the copying
  loops (\<open>readi\<close>, \<open>writei\<close>, \<open>filewrite\<close>) one for each byte, scans of the buffer ring one for each
  buffer. That this is enough is part of what is proved: \<open>oc\<close> and \<open>wp\<close> both exclude \<open>Diverge\<close>.

  \<^bold>\<open>What is assumed.\<close> The invariant allows a routine to panic or to spin: it does not show that
  the panics of the kernel are unreachable, and the theorems about single components state what
  they need (locks that are free, a free list, a page directory in order). The rest of a
  system call that slept in the middle is not a step of \<open>sys_step\<close>, except where it is a definition
  (\<open>sleep_return\<close>, \<open>trap_resume\<close>, \<open>forkret\<close>); the state in which it sleeps is covered. A pipe
  is kept in a table beside memory, the trap frame and the context of a process in its
  record, although in the source they lie in pages of memory. \<open>consoleread\<close> that sleeps or is
  killed after copying a part of a line keeps the state but not the position in the buffer of
  the caller.

  \<^bold>\<open>Not modelled.\<close> The assembly (\<open>src/entry.S\<close>, \<open>src/swtch.S\<close>, \<open>src/trapasm.S\<close>, the boot loader) is
  below C. The interrupt controllers, the timer and the detection of processors (\<open>src/lapic.c\<close>,
  \<open>src/ioapic.c\<close>, \<open>src/picirq.c\<close>, \<open>src/timer.c\<close>, \<open>src/mp.c\<close>) only write device registers. \<open>src/ide.c\<close> is
  the driver of a real disk, for which \<open>src/memide.c\<close> stands in. User programs and their library
  (\<open>src/ulib.c\<close>, \<open>src/umalloc.c\<close>, \<open>src/printf.c\<close>, \<open>src/sh.c\<close> and the others) run outside the kernel, and
  \<open>src/mkfs.c\<close> on the build host.
\<close>

end
